(* ===== verification/Toyraft_Prelude.thy ===== *)
theory Toyraft_Prelude
  imports
    Main
    "HOL-Library.Word"
    "HOL-Library.AList"
    "HOL-Library.Monad_Syntax"
    "HOL-Library.List_Lexorder"
    "HOL-Library.Char_ord"
begin

text \<open>
  Shared vocabulary of the development: unsigned 64-bit arithmetic with its
  wrap-around written out, Go maps as association lists, loops that may panic as
  folds in the option monad, order statistics of a sorted list (the commit rule) and
  the intersection of majorities (the election).

  Conventions used by every theory:
  \<^item> \<open>None\<close> in a result of type \<open>'a option\<close> is a Go run-time panic (an index out of
    range, a write to a nil map, an explicit \<^verbatim>\<open>panic\<close>);
  \<^item> a Go \<^verbatim>\<open>error\<close> result is a value, \<open>goerr option\<close> or \<open>goerr + 'a\<close>;
  \<^item> \<^verbatim>\<open>uint64\<close> values are natural numbers, and each addition or subtraction of the
    source goes through \<open>u64_succ\<close>, \<open>u64_pred\<close> or \<open>u64_add\<close>.
\<close>

named_theorems u64_simps \<open>u64 arithmetic away from the wrap-around\<close>
named_theorems frame_simps \<open>fields an operation leaves alone\<close>

section \<open>Machine integers\<close>

type_synonym byte = "8 word"

abbreviation u64_size :: nat where
  "u64_size \<equiv> 18446744073709551616"

definition u64_succ :: "nat \<Rightarrow> nat" where
  "u64_succ n = (n + 1) mod u64_size"

definition u64_pred :: "nat \<Rightarrow> nat" where
  "u64_pred n = (if n = 0 then u64_size - 1 else n - 1)"

definition u64_add :: "nat \<Rightarrow> nat \<Rightarrow> nat" where
  "u64_add a b = (a + b) mod u64_size"

lemma u64_succ_id [u64_simps]: "n + 1 < u64_size \<Longrightarrow> u64_succ n = n + 1"
  by (simp add: u64_succ_def)

lemma u64_pred_pos [u64_simps]: "0 < n \<Longrightarrow> u64_pred n = n - 1"
  by (simp add: u64_pred_def)

lemma u64_add_id [u64_simps]: "a + b < u64_size \<Longrightarrow> u64_add a b = a + b"
  by (simp add: u64_add_def)

lemma u64_succ_bound: "u64_succ n < u64_size"
  by (simp add: u64_succ_def)

lemma u64_add_bound: "u64_add a b < u64_size"
  by (simp add: u64_add_def)

lemma u64_pred_succ: "n < u64_size \<Longrightarrow> u64_pred (u64_succ n) = n"
  by (cases "n + 1 = u64_size") (auto simp: u64_succ_def u64_pred_def)

text \<open>Go's integer division truncates towards zero.\<close>

definition go_div :: "int \<Rightarrow> int \<Rightarrow> int" where
  "go_div x y = (let q = \<bar>x\<bar> div \<bar>y\<bar> in if (x < 0) = (y < 0) then q else - q)"

lemma go_div_pos: "0 \<le> x \<and> 0 < y \<Longrightarrow> go_div x y = x div y"
  by (auto simp: go_div_def)

section \<open>Loops that may panic\<close>

primrec fold_opt :: "('a \<Rightarrow> 's \<Rightarrow> 's option) \<Rightarrow> 'a list \<Rightarrow> 's \<Rightarrow> 's option" where
  "fold_opt f [] s = Some s"
| "fold_opt f (x # xs) s = (case f x s of None \<Rightarrow> None | Some s' \<Rightarrow> fold_opt f xs s')"

lemma fold_opt_preserves:
  assumes "fold_opt f xs s = Some s'" and "P s"
    and "\<And>x s s'. x \<in> set xs \<Longrightarrow> P s \<Longrightarrow> f x s = Some s' \<Longrightarrow> P s'"
  shows "P s'"
  using assms
proof (induction xs arbitrary: s)
  case Nil
  then show ?case by simp
next
  case (Cons x xs)
  from Cons.prems(1) obtain s1 where s1: "f x s = Some s1" "fold_opt f xs s1 = Some s'"
    by (auto split: option.splits)
  moreover have "P s1"
    by (rule Cons.prems(3) [OF _ Cons.prems(2) s1(1)]) simp
  ultimately show ?case
    using Cons.prems(3) by (intro Cons.IH [OF s1(2)]) auto
qed

lemma fold_opt_total:
  assumes "P s"
    and "\<And>x s. x \<in> set xs \<Longrightarrow> P s \<Longrightarrow> \<exists>s'. f x s = Some s' \<and> P s'"
  shows "\<exists>s'. fold_opt f xs s = Some s' \<and> P s'"
  using assms
proof (induction xs arbitrary: s)
  case Nil
  then show ?case by simp
next
  case (Cons x xs)
  obtain s1 where s1: "f x s = Some s1" "P s1"
    using Cons.prems by (meson list.set_intros(1))
  have "\<exists>s'. fold_opt f xs s1 = Some s' \<and> P s'"
    by (rule Cons.IH [OF s1(2)]) (use Cons.prems(2) in auto)
  with s1 show ?case by simp
qed

section \<open>Go maps\<close>

text \<open>
  A Go map is an association list with distinct keys. A read of a missing key gives
  the zero value; a write is \<open>AList.update\<close>.
\<close>

definition get0 :: "('k \<times> nat) list \<Rightarrow> 'k \<Rightarrow> nat" where
  "get0 m k = (case map_of m k of None \<Rightarrow> 0 | Some v \<Rightarrow> v)"

lemma get0_update: "get0 (AList.update k v m) k' = (if k' = k then v else get0 m k')"
  by (auto simp: get0_def update_conv)

lemma distinct_keys_update:
  "distinct (map fst m) \<Longrightarrow> distinct (map fst (AList.update k v m))"
  by (rule distinct_update)

lemma keys_update: "fst ` set (AList.update k v m) = insert k (fst ` set m)"
  by (induction m) auto

lemma get0_mem: "distinct (map fst m) \<Longrightarrow> (k, v) \<in> set m \<Longrightarrow> get0 m k = v"
  by (simp add: get0_def)

section \<open>Order statistics\<close>

text \<open>
  The \<open>k\<close>-th element from the top of a sorted list: at least \<open>k\<close> elements reach it,
  and every value that \<open>k\<close> elements reach is at most it.
\<close>

lemma sorted_top_count:
  fixes xs :: "'a::linorder list"
  assumes "sorted xs" and "k \<le> length xs" and "0 < k"
  shows "k \<le> length (filter (\<lambda>x. xs ! (length xs - k) \<le> x) xs)"
proof -
  let ?p = "\<lambda>x. xs ! (length xs - k) \<le> x"
  have "\<forall>x \<in> set (drop (length xs - k) xs). ?p x"
    using assms by (auto simp: in_set_conv_nth intro!: sorted_nth_mono)
  then have "filter ?p (drop (length xs - k) xs) = drop (length xs - k) xs"
    by simp
  then have "length (filter ?p (drop (length xs - k) xs)) = k"
    using assms(2) by simp
  moreover have "filter ?p xs
      = filter ?p (take (length xs - k) xs) @ filter ?p (drop (length xs - k) xs)"
    by (metis append_take_drop_id filter_append)
  ultimately show ?thesis by simp
qed

lemma sorted_top_greatest:
  fixes xs :: "'a::linorder list"
  assumes "sorted xs" and "k \<le> length xs" and "0 < k"
    and "k \<le> length (filter (\<lambda>x. v \<le> x) xs)"
  shows "v \<le> xs ! (length xs - k)"
proof (rule ccontr)
  assume "\<not> v \<le> xs ! (length xs - k)"
  then have lt: "xs ! (length xs - k) < v" by simp
  let ?m = "Suc (length xs - k)"
  have "x < v" if "x \<in> set (take ?m xs)" for x
  proof -
    from that obtain i where i: "i < ?m" "i < length xs" "x = xs ! i"
      by (auto simp: in_set_conv_nth)
    with assms(1-3) have "x \<le> xs ! (length xs - k)"
      by (auto intro: sorted_nth_mono)
    with lt show ?thesis by simp
  qed
  then have "filter (\<lambda>x. v \<le> x) (take ?m xs) = []"
    by (auto simp: filter_empty_conv not_le)
  then have "filter (\<lambda>x. v \<le> x) xs = filter (\<lambda>x. v \<le> x) (drop ?m xs)"
    by (metis append_Nil append_take_drop_id filter_append)
  also have "length \<dots> \<le> length (drop ?m xs)" by (rule length_filter_le)
  also have "\<dots> < k" using assms(2,3) by simp
  finally show False using assms(4) by simp
qed

section \<open>Majorities\<close>

lemma majorities_intersect:
  assumes "finite S" and "A \<subseteq> S" and "B \<subseteq> S"
    and "card S div 2 + 1 \<le> card A" and "card S div 2 + 1 \<le> card B"
  shows "A \<inter> B \<noteq> {}"
proof
  assume "A \<inter> B = {}"
  then have "card A + card B = card (A \<union> B)"
    using assms(1-3) by (metis card_Un_disjoint finite_subset)
  also have "\<dots> \<le> card S"
    using assms(1-3) by (intro card_mono) auto
  finally show False using assms(4,5) by linarith
qed

section \<open>Decimal numerals\<close>

text \<open>\<^verbatim>\<open>fmt\<close>'s \<open>%d\<close> on an unsigned value.\<close>

fun dec_digits :: "nat \<Rightarrow> string" where
  "dec_digits n =
     (if n < 10 then [char_of (48 + n)]
      else dec_digits (n div 10) @ [char_of (48 + n mod 10)])"

declare dec_digits.simps [simp del]

end
