(* ===== verification/Raft_Types.thy ===== *)
theory Raft_Types
  imports Toyraft_Prelude
begin

text \<open>
  The data of package \<^verbatim>\<open>raft\<close>: \<^verbatim>\<open>pkg/raft/types.go\<close>, \<^verbatim>\<open>status.go\<close> and
  \<^verbatim>\<open>errors.go\<close>. Structs are records with the source's fields; \<^verbatim>\<open>MessageType\<close> stays an
  8-bit value because any byte may arrive on the wire.
\<close>

type_synonym nodeid = string

datatype role = Follower | Candidate | Leader

record entry =
  ent_Term :: nat
  ent_Index :: nat
  ent_Data :: "byte list"

type_synonym message_type = "8 word"

abbreviation MsgRequestVote :: message_type where "MsgRequestVote \<equiv> 0"
abbreviation MsgRequestVoteResponse :: message_type where "MsgRequestVoteResponse \<equiv> 1"
abbreviation MsgAppendEntries :: message_type where "MsgAppendEntries \<equiv> 2"
abbreviation MsgAppendEntriesResp :: message_type where "MsgAppendEntriesResp \<equiv> 3"
abbreviation MsgTick :: message_type where "MsgTick \<equiv> 255"

definition MessageType_String :: "message_type \<Rightarrow> string" where
  "MessageType_String t =
     (if t = MsgRequestVote then ''RequestVote''
      else if t = MsgRequestVoteResponse then ''RequestVoteResponse''
      else if t = MsgAppendEntries then ''AppendEntries''
      else if t = MsgAppendEntriesResp then ''AppendEntriesResp''
      else if t = MsgTick then ''Tick''
      else ''MsgType('' @ dec_digits (unat t) @ '')'')"

record message =
  m_Type :: message_type
  m_Term :: nat
  m_From :: nodeid
  m_To :: nodeid
  m_LastLogIndex :: nat
  m_LastLogTerm :: nat
  m_VoteGranted :: bool
  m_PrevLogIndex :: nat
  m_PrevLogTerm :: nat
  m_Entries :: "entry list"
  m_LeaderCommit :: nat
  m_Success :: bool
  m_MatchIndex :: nat
  m_ConflictTerm :: nat
  m_ConflictIndex :: nat

text \<open>The zero value, the base of every composite literal \<^verbatim>\<open>Message{...}\<close>.\<close>

definition zero_message :: message where
  "zero_message =
     \<lparr>m_Type = 0, m_Term = 0, m_From = '''', m_To = '''', m_LastLogIndex = 0,
      m_LastLogTerm = 0, m_VoteGranted = False, m_PrevLogIndex = 0, m_PrevLogTerm = 0,
      m_Entries = [], m_LeaderCommit = 0, m_Success = False, m_MatchIndex = 0,
      m_ConflictTerm = 0, m_ConflictIndex = 0\<rparr>"

lemma zero_message_sel [simp]:
  "m_Type zero_message = 0" "m_Term zero_message = 0" "m_From zero_message = ''''"
  "m_To zero_message = ''''" "m_LastLogIndex zero_message = 0"
  "m_LastLogTerm zero_message = 0" "m_VoteGranted zero_message = False"
  "m_PrevLogIndex zero_message = 0" "m_PrevLogTerm zero_message = 0"
  "m_Entries zero_message = []" "m_LeaderCommit zero_message = 0"
  "m_Success zero_message = False" "m_MatchIndex zero_message = 0"
  "m_ConflictTerm zero_message = 0" "m_ConflictIndex zero_message = 0"
  by (simp_all add: zero_message_def)

record snapshot =
  snap_Index :: nat
  snap_Term :: nat
  snap_Data :: "byte list"

definition zero_snapshot :: snapshot where
  "zero_snapshot = \<lparr>snap_Index = 0, snap_Term = 0, snap_Data = []\<rparr>"

record hardstate =
  hs_CurrentTerm :: nat
  hs_VotedFor :: nodeid
  hs_Commit :: nat

definition zero_hardstate :: hardstate where
  "zero_hardstate = \<lparr>hs_CurrentTerm = 0, hs_VotedFor = '''', hs_Commit = 0\<rparr>"

record status =
  st_Role :: role
  st_Term :: nat
  st_CommitIndex :: nat
  st_ApplyIndex :: nat
  st_LastLogIndex :: nat
  st_LeaderHint :: nodeid
  st_MatchIndex :: "(nodeid \<times> nat) list option"

section \<open>Errors\<close>

text \<open>
  The error values of the program. \<open>Wrapped s e\<close> is \<^verbatim>\<open>fmt.Errorf("s: %w", e)\<close> and
  \<open>Joined\<close> is \<^verbatim>\<open>errors.Join\<close> of two errors; \<open>ErrPanic\<close> stands for a run-time panic inside a
  method whose result has no other room for it; \<^verbatim>\<open>errors.Is\<close> and \<^verbatim>\<open>errors.As\<close> look through both.
\<close>

datatype goerr =
    ErrSnapshotUnsupported
  | ErrInvalidConfig
  | ErrStopped
  | ErrNotLeader nodeid
  | ErrProposalDropped
  | ErrUnexpectedEOF
  | ErrNonContiguous
  | ErrInvalidRange
  | ErrUnknownMessageType message_type
  | ErrCtxDone
  | ErrCorrupt
  | ErrNotExist
  | ErrEOF
  | ErrPanic
  | ErrOther string
  | Wrapped string goerr
  | Joined goerr goerr

fun errors_Is :: "goerr \<Rightarrow> goerr \<Rightarrow> bool" where
  "errors_Is (Wrapped s e) t = (Wrapped s e = t \<or> errors_Is e t)"
| "errors_Is (Joined a b) t = (Joined a b = t \<or> errors_Is a t \<or> errors_Is b t)"
| "errors_Is e t = (e = t)"

fun errors_As_NotLeader :: "goerr \<Rightarrow> nodeid option" where
  "errors_As_NotLeader (ErrNotLeader h) = Some h"
| "errors_As_NotLeader (Wrapped s e) = errors_As_NotLeader e"
| "errors_As_NotLeader (Joined a b) =
     (case errors_As_NotLeader a of Some h \<Rightarrow> Some h | None \<Rightarrow> errors_As_NotLeader b)"
| "errors_As_NotLeader _ = None"

definition ErrNotLeader_Error :: "nodeid \<Rightarrow> string" where
  "ErrNotLeader_Error hint =
     (if hint = '''' then ''raft: not leader''
      else ''raft: not leader (leader hint: '' @ hint @ '')'')"

definition IsNotLeader :: "goerr \<Rightarrow> bool" where
  "IsNotLeader e \<longleftrightarrow>
     errors_As_NotLeader e \<noteq> None \<or> errors_Is e ErrProposalDropped \<or> errors_Is e ErrStopped"

end
