(* ===== verification/Raft_Log.thy ===== *)
theory Raft_Log
  imports Raft_Types
begin

text \<open>
  The in-memory replicated log, \<^verbatim>\<open>pkg/raft/log.go\<close>, with the assertions of
  \<^verbatim>\<open>log_assert_debug.go\<close> and the two slice helpers named \<^verbatim>\<open>entriesFrom\<close>
  (\<^verbatim>\<open>leader.go\<close> and \<^verbatim>\<open>append_entries.go\<close>). The operations read the stored
  \<^verbatim>\<open>Index\<close> field of the last entry, as the code does; on a well-formed log
  (\<open>log_wf\<close>) that field is the length, and no operation panics.
\<close>

record raft_log =
  l_entries :: "entry list"

definition empty_log :: raft_log where
  "empty_log = \<lparr>l_entries = []\<rparr>"

definition LastIndex :: "raft_log \<Rightarrow> nat" where
  "LastIndex l = (if l_entries l = [] then 0 else ent_Index (last (l_entries l)))"

definition LastTerm :: "raft_log \<Rightarrow> nat" where
  "LastTerm l = (if l_entries l = [] then 0 else ent_Term (last (l_entries l)))"

text \<open>
  \<open>assertAppendInvariants\<close> is the panic condition of the \<^verbatim>\<open>raftdebug\<close> build: true
  when none of its panics fires. Production builds compile the call away.
\<close>

fun batch_contiguous :: "entry list \<Rightarrow> bool" where
  "batch_contiguous (x # y # es) =
     (ent_Index y = u64_succ (ent_Index x) \<and> batch_contiguous (y # es))"
| "batch_contiguous _ = True"

fun batch_monotone :: "entry list \<Rightarrow> bool" where
  "batch_monotone (x # y # es) = (ent_Term x \<le> ent_Term y \<and> batch_monotone (y # es))"
| "batch_monotone _ = True"

fun assertAppendInvariants :: "nat \<Rightarrow> nat \<Rightarrow> entry list \<Rightarrow> bool" where
  "assertAppendInvariants prevIdx prevTerm [] = True"
| "assertAppendInvariants prevIdx prevTerm (e # es) =
     ((\<forall>x \<in> set (e # es). ent_Term x \<noteq> 0) \<and>
      ent_Index e = u64_succ prevIdx \<and>
      prevTerm \<le> ent_Term e \<and>
      batch_contiguous (e # es) \<and> batch_monotone (e # es))"

definition Append :: "raft_log \<Rightarrow> entry list \<Rightarrow> raft_log" where
  "Append l es = (if es = [] then l else l\<lparr>l_entries := l_entries l @ es\<rparr>)"

definition Append_debug :: "raft_log \<Rightarrow> entry list \<Rightarrow> raft_log option" where
  "Append_debug l es =
     (if es = [] then Some l
      else if assertAppendInvariants (LastIndex l) (LastTerm l) es then Some (Append l es)
      else None)"

definition TruncateSuffix :: "raft_log \<Rightarrow> nat \<Rightarrow> raft_log option" where
  "TruncateSuffix l from =
     (if from = 0 then Some (l\<lparr>l_entries := []\<rparr>)
      else if from > LastIndex l then Some l
      else if from - 1 \<le> length (l_entries l) then Some (l\<lparr>l_entries := take (from - 1) (l_entries l)\<rparr>)
      else None)"

definition log_Term :: "raft_log \<Rightarrow> nat \<Rightarrow> (goerr + nat) option" where
  "log_Term l idx =
     (if idx = 0 then Some (Inr 0)
      else if idx > LastIndex l then Some (Inl (Wrapped ''raft/log: Term'' ErrUnexpectedEOF))
      else if idx - 1 < length (l_entries l) then Some (Inr (ent_Term (l_entries l ! (idx - 1))))
      else None)"

text \<open>Callers that write \<^verbatim>\<open>t, _ := l.Term(i)\<close> use 0 when the call fails.\<close>

definition log_Term0 :: "raft_log \<Rightarrow> nat \<Rightarrow> nat option" where
  "log_Term0 l idx =
     (case log_Term l idx of None \<Rightarrow> None | Some (Inl _) \<Rightarrow> Some 0 | Some (Inr t) \<Rightarrow> Some t)"

definition Match :: "raft_log \<Rightarrow> nat \<Rightarrow> nat \<Rightarrow> bool option" where
  "Match l prevIdx prevTerm =
     (if prevIdx = 0 then Some (prevTerm = 0)
      else if prevIdx > LastIndex l then Some False
      else if prevIdx - 1 < length (l_entries l)
        then Some (ent_Term (l_entries l ! (prevIdx - 1)) = prevTerm)
      else None)"

text \<open>\<^verbatim>\<open>(l *Log) entriesFrom\<close>: the leader's copy of the suffix from \<open>lo\<close>.\<close>

definition log_entriesFrom :: "raft_log \<Rightarrow> nat \<Rightarrow> entry list option" where
  "log_entriesFrom l lo =
     (if lo = 0 \<or> lo > LastIndex l then Some []
      else if lo - 1 \<le> length (l_entries l) then Some (drop (lo - 1) (l_entries l))
      else None)"

text \<open>The free function \<^verbatim>\<open>entriesFrom\<close> of the receiver.\<close>

fun entriesFrom :: "entry list \<Rightarrow> nat \<Rightarrow> entry list" where
  "entriesFrom [] from = []"
| "entriesFrom (e # es) from = (if from \<le> ent_Index e then e # es else entriesFrom es from)"

section \<open>Well-formed logs\<close>

fun contiguous_from :: "nat \<Rightarrow> entry list \<Rightarrow> bool" where
  "contiguous_from k [] = True"
| "contiguous_from k (e # es) = (ent_Index e = k \<and> contiguous_from (k + 1) es)"

lemma contiguous_from_nth:
  "contiguous_from k es \<longleftrightarrow> (\<forall>i < length es. ent_Index (es ! i) = k + i)"
proof (induction es arbitrary: k)
  case Nil
  then show ?case by simp
next
  case (Cons e es)
  then show ?case by (auto simp: nth_Cons less_Suc_eq_0_disj split: nat.splits)
qed

lemma contiguous_from_append:
  "contiguous_from k (xs @ ys) \<longleftrightarrow> contiguous_from k xs \<and> contiguous_from (k + length xs) ys"
  by (induction xs arbitrary: k) auto

lemma contiguous_from_take: "contiguous_from k es \<Longrightarrow> contiguous_from k (take n es)"
  by (simp add: contiguous_from_nth)

lemma contiguous_from_drop: "contiguous_from k es \<Longrightarrow> contiguous_from (k + n) (drop n es)"
  by (simp add: contiguous_from_nth)

lemma contiguous_from_last:
  "contiguous_from k es \<Longrightarrow> es \<noteq> [] \<Longrightarrow> ent_Index (last es) = k + length es - 1"
  by (cases "length es") (auto simp: contiguous_from_nth last_conv_nth)

text \<open>The pairwise check of the code, with its wrapping increment, is contiguity.\<close>

lemma batch_contiguous_iff:
  assumes "k + length es \<le> u64_size" and "es \<noteq> []" and "ent_Index (hd es) = k"
  shows "batch_contiguous es \<longleftrightarrow> contiguous_from k es"
  using assms
proof (induction es arbitrary: k rule: batch_contiguous.induct)
  case (1 x y es)
  have succ: "u64_succ k = k + 1"
    using "1.prems"(1) by (simp add: u64_succ_id)
  show ?case
  proof (cases "ent_Index y = k + 1")
    case True
    then have "batch_contiguous (y # es) \<longleftrightarrow> contiguous_from (k + 1) (y # es)"
      using "1.prems" by (intro "1.IH") auto
    with True "1.prems"(3) succ show ?thesis by simp
  next
    case False
    with "1.prems"(3) succ show ?thesis by simp
  qed
qed auto

lemma batch_monotone_iff:
  "batch_monotone es \<longleftrightarrow> sorted (map ent_Term es)"
  by (induction es rule: batch_monotone.induct) (auto intro: order_trans)

definition log_wf :: "raft_log \<Rightarrow> bool" where
  "log_wf l \<longleftrightarrow> contiguous_from 1 (l_entries l) \<and> length (l_entries l) + 1 < u64_size"

text \<open>The term at an index, 0 at the sentinel and past the end.\<close>

definition term_at :: "entry list \<Rightarrow> nat \<Rightarrow> nat" where
  "term_at es i = (if i = 0 \<or> i > length es then 0 else ent_Term (es ! (i - 1)))"

lemma term_at_0 [simp]: "term_at es 0 = 0"
  by (simp add: term_at_def)

lemma term_at_beyond [simp]: "length es < i \<Longrightarrow> term_at es i = 0"
  by (simp add: term_at_def)

lemma term_at_append: "i \<le> length xs \<Longrightarrow> term_at (xs @ ys) i = term_at xs i"
  by (auto simp: term_at_def nth_append)

lemma term_at_take: "i \<le> n \<Longrightarrow> term_at (take n es) i = term_at es i"
  by (auto simp: term_at_def)

named_theorems log_simps \<open>the log operations on a well-formed log\<close>

lemma log_wf_empty [simp]: "log_wf empty_log"
  by (simp add: log_wf_def empty_log_def)

lemma LastIndex_wf [log_simps]: "log_wf l \<Longrightarrow> LastIndex l = length (l_entries l)"
  by (auto simp: log_wf_def LastIndex_def contiguous_from_last)

lemma LastTerm_term_at: "LastTerm l = term_at (l_entries l) (length (l_entries l))"
  by (auto simp: LastTerm_def term_at_def last_conv_nth)

lemma log_Term_wf:
  "log_wf l \<Longrightarrow> log_Term l i =
     Some (if i \<le> length (l_entries l) then Inr (term_at (l_entries l) i)
           else Inl (Wrapped ''raft/log: Term'' ErrUnexpectedEOF))"
  by (auto simp: log_Term_def LastIndex_wf term_at_def)

lemma log_Term0_wf [log_simps]: "log_wf l \<Longrightarrow> log_Term0 l i = Some (term_at (l_entries l) i)"
  by (auto simp: log_Term0_def log_Term_wf)

lemma Match_wf [log_simps]:
  "log_wf l \<Longrightarrow> Match l i t =
     Some (i \<le> length (l_entries l) \<and> term_at (l_entries l) i = t)"
  by (auto simp: Match_def LastIndex_wf term_at_def)

lemma TruncateSuffix_wf [log_simps]:
  "log_wf l \<Longrightarrow> TruncateSuffix l i = Some (l\<lparr>l_entries := take (i - 1) (l_entries l)\<rparr>)"
  by (auto simp: TruncateSuffix_def LastIndex_wf)

lemma log_entriesFrom_wf [log_simps]:
  "log_wf l \<Longrightarrow> log_entriesFrom l i = Some (if i = 0 then [] else drop (i - 1) (l_entries l))"
  by (auto simp: log_entriesFrom_def LastIndex_wf)

lemma Append_entries [simp]: "l_entries (Append l es) = l_entries l @ es"
  by (simp add: Append_def)

lemma log_wf_take: "log_wf l \<Longrightarrow> log_wf (l\<lparr>l_entries := take n (l_entries l)\<rparr>)"
  by (auto simp: log_wf_def contiguous_from_take)

lemma log_wf_Append:
  "log_wf l \<Longrightarrow> contiguous_from (length (l_entries l) + 1) es \<Longrightarrow>
   length (l_entries l) + length es + 1 < u64_size \<Longrightarrow> log_wf (Append l es)"
  by (simp add: log_wf_def contiguous_from_append)

lemma entriesFrom_contiguous:
  "contiguous_from k es \<Longrightarrow> k \<le> from \<Longrightarrow> entriesFrom es from = drop (from - k) es"
proof (induction es arbitrary: k)
  case Nil
  then show ?case by simp
next
  case (Cons e es)
  show ?case
  proof (cases "from = k")
    case True
    with Cons.prems show ?thesis by simp
  next
    case False
    with Cons.prems have "entriesFrom es from = drop (from - (k + 1)) es"
      by (intro Cons.IH) auto
    moreover have "from - k = Suc (from - (k + 1))"
      using False Cons.prems(2) by simp
    ultimately show ?thesis
      using False Cons.prems by simp
  qed
qed

text \<open>Terms: positive and non-decreasing, the rest of what the debug build asserts.\<close>

definition terms_ok :: "entry list \<Rightarrow> bool" where
  "terms_ok es \<longleftrightarrow> sorted (map ent_Term es) \<and> (\<forall>e \<in> set es. ent_Term e \<noteq> 0)"

lemma terms_ok_append:
  "terms_ok (xs @ ys) \<longleftrightarrow>
     terms_ok xs \<and> terms_ok ys \<and> (\<forall>x \<in> set xs. \<forall>y \<in> set ys. ent_Term x \<le> ent_Term y)"
  by (auto simp: terms_ok_def sorted_append)

end
