(* ===== verification/Raft_Storage.thy ===== *)
theory Raft_Storage
  imports Raft_Log
begin

text \<open>
  The \<^verbatim>\<open>Storage\<close> interface (\<^verbatim>\<open>pkg/raft/config.go\<close>, \<^verbatim>\<open>pkg/storage/storage.go\<close>). A Go
  interface value is a table of methods with a receiver: \<open>storage_ops\<close> is the table,
  the receiver's type is the parameter \<open>'s\<close>, and every definition that calls a storage
  takes the table as an argument. The documented contract of the methods is the locale
  \<open>storage_contract\<close>; \<open>reliable_storage\<close> adds that valid calls do not fail.
\<close>

record 's storage_ops =
  op_Append :: "'s \<Rightarrow> entry list \<Rightarrow> goerr option \<times> 's"
  op_TruncateSuffix :: "'s \<Rightarrow> nat \<Rightarrow> goerr option \<times> 's"
  op_Entries :: "'s \<Rightarrow> nat \<Rightarrow> nat \<Rightarrow> goerr + entry list"
  op_Term :: "'s \<Rightarrow> nat \<Rightarrow> goerr + nat"
  op_FirstIndex :: "'s \<Rightarrow> goerr + nat"
  op_LastIndex :: "'s \<Rightarrow> goerr + nat"
  op_SaveHardState :: "'s \<Rightarrow> hardstate \<Rightarrow> goerr option \<times> 's"
  op_LoadHardState :: "'s \<Rightarrow> goerr + hardstate"
  op_Snapshot :: "'s \<Rightarrow> goerr + (byte list \<times> nat)"
  op_Restore :: "'s \<Rightarrow> byte list \<Rightarrow> goerr option \<times> 's"
  op_SaveSnapshot :: "'s \<Rightarrow> snapshot \<Rightarrow> goerr option \<times> 's"
  op_LoadSnapshot :: "'s \<Rightarrow> goerr + snapshot"

text \<open>
  A store abstracts to its durable log, HardState and snapshot. Mutating calls are
  atomic: on success they have their effect, on an error the durable state is what it
  was. Calls may still fail.
\<close>

locale storage_contract =
  fixes ops :: "'s storage_ops"
    and slog :: "'s \<Rightarrow> entry list"
    and shs :: "'s \<Rightarrow> hardstate"
    and ssnap :: "'s \<Rightarrow> snapshot"
    and sinv :: "'s \<Rightarrow> bool"
  assumes slog_wf: "sinv s \<Longrightarrow> contiguous_from 1 (slog s) \<and> length (slog s) + 1 < u64_size"
    and append_law: "sinv s \<Longrightarrow> length (slog s) + length es + 1 < u64_size \<Longrightarrow>
      op_Append ops s es = (r, s') \<Longrightarrow>
      sinv s' \<and> shs s' = shs s \<and> ssnap s' = ssnap s \<and>
      (if r = None then slog s' = slog s @ es \<and> contiguous_from (length (slog s) + 1) es
       else slog s' = slog s)"
    and truncate_law: "sinv s \<Longrightarrow> op_TruncateSuffix ops s from = (r, s') \<Longrightarrow>
      sinv s' \<and> shs s' = shs s \<and> ssnap s' = ssnap s \<and>
      (if r = None then slog s' = take (from - 1) (slog s) else slog s' = slog s)"
    and entries_law: "sinv s \<Longrightarrow> op_Entries ops s lo hi = Inr es \<Longrightarrow>
      1 \<le> lo \<and> lo \<le> hi \<and> hi \<le> length (slog s) + 1 \<and> es = take (hi - lo) (drop (lo - 1) (slog s))"
    and first_law: "sinv s \<Longrightarrow> op_FirstIndex ops s = Inr i \<Longrightarrow> i = 1"
    and last_law: "sinv s \<Longrightarrow> op_LastIndex ops s = Inr i \<Longrightarrow> i = length (slog s)"
    and save_hs_law: "sinv s \<Longrightarrow> op_SaveHardState ops s hs = (r, s') \<Longrightarrow>
      sinv s' \<and> slog s' = slog s \<and> ssnap s' = ssnap s \<and>
      shs s' = (if r = None then hs else shs s)"
    and load_hs_law: "sinv s \<Longrightarrow> op_LoadHardState ops s = Inr hs \<Longrightarrow> hs = shs s"
    and save_snap_law: "sinv s \<Longrightarrow> op_SaveSnapshot ops s sn = (r, s') \<Longrightarrow>
      sinv s' \<and> slog s' = slog s \<and> shs s' = shs s \<and>
      ssnap s' = (if r = None then sn else ssnap s)"
    and load_snap_law: "sinv s \<Longrightarrow> op_LoadSnapshot ops s = Inr sn \<Longrightarrow> sn = ssnap s"

locale reliable_storage = storage_contract +
  assumes append_ok: "sinv s \<Longrightarrow> length (slog s) + length es + 1 < u64_size \<Longrightarrow>
      contiguous_from (length (slog s) + 1) es \<Longrightarrow> fst (op_Append ops s es) = None"
    and truncate_ok: "sinv s \<Longrightarrow> 1 \<le> from \<Longrightarrow> fst (op_TruncateSuffix ops s from) = None"
    and entries_ok: "sinv s \<Longrightarrow> 1 \<le> lo \<Longrightarrow> lo \<le> hi \<Longrightarrow> hi \<le> length (slog s) + 1 \<Longrightarrow>
      \<exists>es. op_Entries ops s lo hi = Inr es"
    and first_ok: "sinv s \<Longrightarrow> \<exists>i. op_FirstIndex ops s = Inr i"
    and last_ok: "sinv s \<Longrightarrow> \<exists>i. op_LastIndex ops s = Inr i"
    and save_hs_ok: "sinv s \<Longrightarrow> fst (op_SaveHardState ops s hs) = None"
    and load_hs_ok: "sinv s \<Longrightarrow> \<exists>hs. op_LoadHardState ops s = Inr hs"
    and save_snap_ok: "sinv s \<Longrightarrow> fst (op_SaveSnapshot ops s sn) = None"
    and load_snap_ok: "sinv s \<Longrightarrow> \<exists>sn. op_LoadSnapshot ops s = Inr sn"
begin

text \<open>The calls the node makes, resolved on a reliable store.\<close>

lemma append_step:
  assumes "sinv s" and "length (slog s) + length es + 1 < u64_size"
    and "contiguous_from (length (slog s) + 1) es"
  obtains s' where "op_Append ops s es = (None, s')" "sinv s'" "slog s' = slog s @ es"
    "shs s' = shs s" "ssnap s' = ssnap s"
  using append_ok [OF assms] append_law [OF assms(1,2)]
  by (metis (full_types) prod.collapse)

lemma truncate_step:
  assumes "sinv s" and "1 \<le> from"
  obtains s' where "op_TruncateSuffix ops s from = (None, s')" "sinv s'"
    "slog s' = take (from - 1) (slog s)" "shs s' = shs s" "ssnap s' = ssnap s"
  using truncate_ok [OF assms] truncate_law [OF assms(1)]
  by (metis (full_types) prod.collapse)

lemma save_hs_step:
  assumes "sinv s"
  obtains s' where "op_SaveHardState ops s hs = (None, s')" "sinv s'" "slog s' = slog s"
    "shs s' = hs" "ssnap s' = ssnap s"
  using save_hs_ok [OF assms] save_hs_law [OF assms]
  by (metis (full_types) prod.collapse)

lemma entries_eq:
  assumes "sinv s" and "1 \<le> lo" and "lo \<le> hi" and "hi \<le> length (slog s) + 1"
  shows "op_Entries ops s lo hi = Inr (take (hi - lo) (drop (lo - 1) (slog s)))"
  using entries_ok [OF assms] entries_law [OF assms(1)] by auto

lemma load_hs_eq: "sinv s \<Longrightarrow> op_LoadHardState ops s = Inr (shs s)"
  using load_hs_ok load_hs_law by fastforce

lemma last_eq: "sinv s \<Longrightarrow> op_LastIndex ops s = Inr (length (slog s))"
  using last_ok last_law by fastforce

lemma first_eq: "sinv s \<Longrightarrow> op_FirstIndex ops s = Inr 1"
  using first_ok first_law by fastforce

lemma load_snap_eq: "sinv s \<Longrightarrow> op_LoadSnapshot ops s = Inr (ssnap s)"
  using load_snap_ok load_snap_law by fastforce

end

end
