(* ===== verification/Raft_Config.thy ===== *)
theory Raft_Config
  imports Raft_Types
begin

text \<open>
  \<^verbatim>\<open>pkg/raft/config.go\<close> (the \<^verbatim>\<open>Config\<close> struct, its defaults and its validation) and
  \<^verbatim>\<open>pkg/raft/rng.go\<close> (the seed of the per-node generator). Durations are \<^verbatim>\<open>int64\<close>
  nanoseconds: integers, with the one product the code forms wrapped to 64 bits.
  Interface fields are only ever compared with nil here, so each is a flag or an option.
\<close>

unbundle bit_operations_syntax

datatype clock_ref = RealClock | GivenClock
datatype logger_ref = DiscardLogger | GivenLogger

record config =
  cfg_NodeID :: nodeid
  cfg_Peers :: "nodeid list"
  cfg_ElectionTimeoutMin :: int
  cfg_ElectionTimeoutMax :: int
  cfg_HeartbeatInterval :: int
  cfg_Seed :: int
  cfg_Clock :: "clock_ref option"
  cfg_hasStorage :: bool
  cfg_hasTransport :: bool
  cfg_hasStateMachine :: bool
  cfg_StopTimeout :: int
  cfg_SnapshotInterval :: nat
  cfg_Logger :: "logger_ref option"

abbreviation millisecond :: int where "millisecond \<equiv> 1000000"
abbreviation second :: int where "second \<equiv> 1000000000"

definition defaultSnapshotInterval :: nat where
  "defaultSnapshotInterval = 1024"

definition applyDefaults :: "config \<Rightarrow> config" where
  "applyDefaults c =
     (let c = (if cfg_ElectionTimeoutMin c = 0 then c\<lparr>cfg_ElectionTimeoutMin := 150 * millisecond\<rparr> else c);
          c = (if cfg_ElectionTimeoutMax c = 0 then c\<lparr>cfg_ElectionTimeoutMax := 300 * millisecond\<rparr> else c);
          c = (if cfg_HeartbeatInterval c = 0 then c\<lparr>cfg_HeartbeatInterval := 50 * millisecond\<rparr> else c);
          c = (if cfg_Clock c = None then c\<lparr>cfg_Clock := Some RealClock\<rparr> else c);
          c = (if cfg_StopTimeout c = 0 then c\<lparr>cfg_StopTimeout := 5 * second\<rparr> else c);
          c = (if cfg_SnapshotInterval c = 0 then c\<lparr>cfg_SnapshotInterval := defaultSnapshotInterval\<rparr> else c);
          c = (if cfg_Logger c = None then c\<lparr>cfg_Logger := Some DiscardLogger\<rparr> else c)
      in c)"

text \<open>\<^verbatim>\<open>int64\<close> arithmetic wraps in two's complement.\<close>

definition s64_wrap :: "int \<Rightarrow> int" where
  "s64_wrap x = (x + 2 ^ 63) mod 2 ^ 64 - 2 ^ 63"

lemma s64_wrap_id: "- (2 ^ 63) \<le> x \<Longrightarrow> x < 2 ^ 63 \<Longrightarrow> s64_wrap x = x"
  by (simp add: s64_wrap_def)

definition Validate :: "config \<Rightarrow> goerr option" where
  "Validate c =
     (if cfg_NodeID c = '''' then Some (Wrapped ''NodeID is empty'' ErrInvalidConfig)
      else if \<not> cfg_hasStorage c then Some (Wrapped ''Storage is nil'' ErrInvalidConfig)
      else if cfg_NodeID c \<notin> set (cfg_Peers c) then Some (Wrapped ''Peers does not contain NodeID'' ErrInvalidConfig)
      else if length (cfg_Peers c) mod 2 = 0 then Some (Wrapped ''Peers must be odd'' ErrInvalidConfig)
      else if \<not> cfg_hasTransport c then Some (Wrapped ''Transport is nil'' ErrInvalidConfig)
      else if \<not> cfg_hasStateMachine c then Some (Wrapped ''StateMachine is nil'' ErrInvalidConfig)
      else if cfg_ElectionTimeoutMin c \<ge> cfg_ElectionTimeoutMax c
        then Some (Wrapped ''ElectionTimeoutMin must be < ElectionTimeoutMax'' ErrInvalidConfig)
      else if s64_wrap (cfg_HeartbeatInterval c * 3) > cfg_ElectionTimeoutMin c
        then Some (Wrapped ''HeartbeatInterval*3 > ElectionTimeoutMin'' ErrInvalidConfig)
      else None)"

definition tickInterval :: "config \<Rightarrow> int" where
  "tickInterval c = cfg_HeartbeatInterval c"

lemma applyDefaults_sel [simp]:
  "cfg_NodeID (applyDefaults c) = cfg_NodeID c"
  "cfg_Peers (applyDefaults c) = cfg_Peers c"
  "cfg_Seed (applyDefaults c) = cfg_Seed c"
  "cfg_hasStorage (applyDefaults c) = cfg_hasStorage c"
  "cfg_hasTransport (applyDefaults c) = cfg_hasTransport c"
  "cfg_hasStateMachine (applyDefaults c) = cfg_hasStateMachine c"
  "cfg_ElectionTimeoutMin (applyDefaults c) =
     (if cfg_ElectionTimeoutMin c = 0 then 150 * millisecond else cfg_ElectionTimeoutMin c)"
  "cfg_ElectionTimeoutMax (applyDefaults c) =
     (if cfg_ElectionTimeoutMax c = 0 then 300 * millisecond else cfg_ElectionTimeoutMax c)"
  "cfg_HeartbeatInterval (applyDefaults c) =
     (if cfg_HeartbeatInterval c = 0 then 50 * millisecond else cfg_HeartbeatInterval c)"
  "cfg_StopTimeout (applyDefaults c) =
     (if cfg_StopTimeout c = 0 then 5 * second else cfg_StopTimeout c)"
  "cfg_SnapshotInterval (applyDefaults c) =
     (if cfg_SnapshotInterval c = 0 then defaultSnapshotInterval else cfg_SnapshotInterval c)"
  "cfg_Clock (applyDefaults c) = (if cfg_Clock c = None then Some RealClock else cfg_Clock c)"
  "cfg_Logger (applyDefaults c) = (if cfg_Logger c = None then Some DiscardLogger else cfg_Logger c)"
  by (simp_all add: applyDefaults_def Let_def)

lemma applyDefaults_idem: "applyDefaults (applyDefaults c) = applyDefaults c"
  by (rule config.equality) (simp_all add: defaultSnapshotInterval_def)

lemma Validate_None_iff:
  "Validate c = None \<longleftrightarrow>
     cfg_NodeID c \<noteq> '''' \<and> cfg_hasStorage c \<and> cfg_NodeID c \<in> set (cfg_Peers c) \<and>
     odd (length (cfg_Peers c)) \<and> cfg_hasTransport c \<and> cfg_hasStateMachine c \<and>
     cfg_ElectionTimeoutMin c < cfg_ElectionTimeoutMax c \<and>
     s64_wrap (cfg_HeartbeatInterval c * 3) \<le> cfg_ElectionTimeoutMin c"
  unfolding Validate_def even_iff_mod_2_eq_zero by (simp add: not_le not_less)

lemma Validate_error: "Validate c = Some e \<Longrightarrow> errors_Is e ErrInvalidConfig"
  by (auto simp: Validate_def split: if_splits)

section \<open>The generator\<close>

text \<open>
  \<^verbatim>\<open>math/rand/v2\<close> supplies the draws. A generator is the list of the values it will
  return, reduced by \<^verbatim>\<open>IntN\<close> to the requested range: the run of any real generator is
  the run of the list of its own results, so a statement about every list covers it.
\<close>

type_synonym rng = "nat list"

fun IntN :: "rng \<Rightarrow> nat \<Rightarrow> nat \<times> rng" where
  "IntN [] n = (0, [])"
| "IntN (x # xs) n = (x mod n, xs)"

lemma IntN_bound: "0 < n \<Longrightarrow> fst (IntN r n) < n"
  by (cases r) auto

text \<open>The seed: FNV-1a over the identifier, mixed with the configured seed or the clock.\<close>

definition fnv64a :: "string \<Rightarrow> 64 word" where
  "fnv64a s = fold (\<lambda>c h. (h XOR word_of_nat (of_char c)) * 1099511628211) s 14695981039346656037"

definition splitmix_next :: "64 word \<Rightarrow> 64 word \<times> 64 word" where
  "splitmix_next x =
     (let x = x + 0x9E3779B97F4A7C15;
          z = x;
          z = (z XOR drop_bit 30 z) * 0xBF58476D1CE4E5B9;
          z = (z XOR drop_bit 27 z) * 0x94D049BB133111EB
      in (z XOR drop_bit 31 z, x))"

definition splitmix64 :: "64 word \<Rightarrow> 64 word \<times> 64 word" where
  "splitmix64 x = (case splitmix_next x of (a, x') \<Rightarrow> (a, fst (splitmix_next x')))"

text \<open>\<open>now\<close> is \<^verbatim>\<open>clk.Now().UnixNano()\<close>; the result is the pair given to \<^verbatim>\<open>NewPCG\<close>.\<close>

definition newNodeRNG :: "int \<Rightarrow> nodeid \<Rightarrow> int \<Rightarrow> 64 word \<times> 64 word" where
  "newNodeRNG cfgSeed nid now =
     (let nodeHash = fnv64a nid;
          seed = (if cfgSeed = 0 then nodeHash XOR word_of_int now else nodeHash XOR word_of_int cfgSeed);
          (lo, hi) = splitmix64 seed
      in (hi, lo))"

lemma drop_bit_fixpoint:
  fixes d :: "64 word"
  assumes "drop_bit k d = d" and "0 < k"
  shows "d = 0"
proof -
  have "unat d div 2 ^ k = unat d"
    using assms(1) by (metis drop_bit_eq_div unat_drop_bit_eq)
  moreover have "(1::nat) < 2 ^ k"
    using assms(2) by (simp add: one_less_power del: One_nat_def)
  ultimately have "\<not> 0 < unat d"
    using div_less_dividend [of "2 ^ k" "unat d"] by linarith
  then show ?thesis by (simp add: unat_eq_zero)
qed

lemma xorshift_inj:
  fixes x y :: "64 word"
  assumes "x XOR drop_bit k x = y XOR drop_bit k y" and "0 < k"
  shows "x = y"
proof -
  have "drop_bit k (x XOR y) = x XOR y"
    using assms(1)
    by (metis (no_types, lifting) drop_bit_xor xor.assoc xor.commute xor.left_neutral xor_self_eq)
  then have "x XOR y = 0"
    using assms(2) by (rule drop_bit_fixpoint)
  moreover have "x = (x XOR y) XOR y"
    by (simp add: xor.assoc)
  ultimately show ?thesis by simp
qed

lemma mult_inverse_inj:
  fixes a b c d :: "64 word"
  assumes "a * c = b * c" and "c * d = 1"
  shows "a = b"
proof -
  have "a = (a * c) * d"
    by (simp only: mult.assoc assms(2) mult_1_right)
  also have "\<dots> = (b * c) * d"
    by (simp only: assms(1))
  also have "\<dots> = b"
    by (simp only: mult.assoc assms(2) mult_1_right)
  finally show ?thesis .
qed

lemma splitmix_next_inj:
  assumes "fst (splitmix_next x) = fst (splitmix_next y)"
  shows "x = y"
proof -
  let ?s = "\<lambda>k z::64 word. z XOR drop_bit k z"
  let ?f = "\<lambda>x::64 word. ?s 30 (x + 0x9E3779B97F4A7C15)"
  let ?g = "\<lambda>x. ?s 27 (?f x * 0xBF58476D1CE4E5B9)"
  have "?s 31 (?g x * 0x94D049BB133111EB) = ?s 31 (?g y * 0x94D049BB133111EB)"
    using assms unfolding splitmix_next_def Let_def fst_conv .
  then have "?g x * 0x94D049BB133111EB = ?g y * 0x94D049BB133111EB"
    by (rule xorshift_inj) simp
  then have "?g x = ?g y"
    by (rule mult_inverse_inj [where d = "0x319642b2d24d8ec3"]) simp
  then have "?f x * 0xBF58476D1CE4E5B9 = ?f y * 0xBF58476D1CE4E5B9"
    by (rule xorshift_inj) simp
  then have "?f x = ?f y"
    by (rule mult_inverse_inj [where d = "0x96de1b173f119089"]) simp
  then have "x + 0x9E3779B97F4A7C15 = y + 0x9E3779B97F4A7C15"
    by (rule xorshift_inj) simp
  then show ?thesis by (rule add_right_imp_eq)
qed

lemma splitmix64_inj: "splitmix64 x = splitmix64 y \<Longrightarrow> x = y"
  by (rule splitmix_next_inj) (auto simp: splitmix64_def split: prod.splits)

end
