(* ===== verification/Raft_Node.thy ===== *)
theory Raft_Node
  imports Raft_Storage Raft_Config
begin

text \<open>
  The consensus core: the \<^verbatim>\<open>node\<close> struct and every method on it, file by file
  (\<^verbatim>\<open>node.go\<close>, \<^verbatim>\<open>step.go\<close>, \<^verbatim>\<open>maybe_step_down.go\<close>, \<^verbatim>\<open>follower.go\<close>, \<^verbatim>\<open>candidate.go\<close>,
  \<^verbatim>\<open>leader_stub.go\<close>, \<^verbatim>\<open>leader.go\<close>, \<^verbatim>\<open>commit.go\<close>, \<^verbatim>\<open>append_entries.go\<close>, \<^verbatim>\<open>ready.go\<close>,
  \<^verbatim>\<open>ready_assert_debug.go\<close>). Every method runs under \<^verbatim>\<open>n.mu\<close>, so each is a function from
  node to node; \<open>None\<close> is a panic. Log lines are left out. The storage's method table is
  the argument \<open>ops\<close>, the store itself the field \<open>n_storage\<close>.
\<close>

record pendingMsg =
  pm_epoch :: nat
  pm_msg :: message

text \<open>
  \<open>n_notifyC\<close> is the one-slot channel: true when a signal is waiting.
  \<open>n_onElectionTrigger\<close> says whether the hook is wired (\<^verbatim>\<open>newNode\<close> always wires it to
  \<^verbatim>\<open>becomeCandidateLocked\<close>). A nil \<^verbatim>\<open>votesReceived\<close> map is \<open>None\<close>.
\<close>

record 's node =
  n_id :: nodeid
  n_peers :: "nodeid list"
  n_currentTerm :: nat
  n_votedFor :: nodeid
  n_role :: role
  n_log :: raft_log
  n_commitIndex :: nat
  n_leaderHint :: nodeid
  n_lastHeartbeat :: int
  n_nextIndex :: "(nodeid \<times> nat) list"
  n_matchIndex :: "(nodeid \<times> nat) list"
  n_votesReceived :: "(nodeid \<times> bool) list option"
  n_rng :: rng
  n_electionTimeout :: int
  n_electionElapsed :: int
  n_heartbeatElapsed :: int
  n_heartbeatTimeout :: int
  n_stepDownEpoch :: nat
  n_pendingMsgs :: "pendingMsg list"
  n_pendingHS :: "hardstate option"
  n_notifyC :: bool
  n_storage :: 's
  n_cfg :: config
  n_started :: bool
  n_onElectionTrigger :: bool

section \<open>step.go, node.go: the outbound buffers\<close>

definition queueMsgLocked :: "'s node \<Rightarrow> message \<Rightarrow> 's node" where
  "queueMsgLocked n m =
     n\<lparr>n_pendingMsgs := n_pendingMsgs n @ [\<lparr>pm_epoch = n_stepDownEpoch n, pm_msg = m\<rparr>]\<rparr>"

definition queueHardStateLocked :: "'s node \<Rightarrow> 's node" where
  "queueHardStateLocked n =
     n\<lparr>n_pendingHS := Some \<lparr>hs_CurrentTerm = n_currentTerm n, hs_VotedFor = n_votedFor n,
                             hs_Commit = n_commitIndex n\<rparr>\<rparr>"

definition notifyProgressLocked :: "'s node \<Rightarrow> 's node" where
  "notifyProgressLocked n = n\<lparr>n_notifyC := True\<rparr>"

section \<open>maybe\_step\_down.go\<close>

definition maybeStepDownLocked :: "'s node \<Rightarrow> nat \<Rightarrow> 's node" where
  "maybeStepDownLocked n rpcTerm =
     (if rpcTerm \<le> n_currentTerm n then n
      else queueHardStateLocked
        (n\<lparr>n_currentTerm := rpcTerm, n_votedFor := '''', n_role := Follower,
           n_leaderHint := '''', n_votesReceived := None,
           n_stepDownEpoch := u64_succ (n_stepDownEpoch n)\<rparr>))"

section \<open>follower.go\<close>

definition resetElectionTimeoutLocked :: "'s node \<Rightarrow> 's node option" where
  "resetElectionTimeoutLocked n =
     (let tick = tickInterval (n_cfg n) in
      if tick = 0 then None
      else
        let minTicks = go_div (cfg_ElectionTimeoutMin (n_cfg n)) tick;
            maxTicks = go_div (cfg_ElectionTimeoutMax (n_cfg n)) tick;
            maxTicks = (if maxTicks \<le> minTicks then minTicks + 1 else maxTicks);
            (r, rng') = IntN (n_rng n) (nat (maxTicks - minTicks))
        in Some (n\<lparr>n_rng := rng', n_electionTimeout := minTicks + int r, n_electionElapsed := 0\<rparr>))"

definition isCandidateUpToDate :: "nat \<Rightarrow> nat \<Rightarrow> nat \<Rightarrow> nat \<Rightarrow> bool" where
  "isCandidateUpToDate candLastTerm candLastIndex voterLastTerm voterLastIndex =
     (if candLastTerm \<noteq> voterLastTerm then candLastTerm > voterLastTerm
      else candLastIndex \<ge> voterLastIndex)"

definition canGrantVote :: "'s node \<Rightarrow> message \<Rightarrow> bool" where
  "canGrantVote n m =
     (if m_Term m < n_currentTerm n then False
      else if n_votedFor n \<noteq> '''' \<and> n_votedFor n \<noteq> m_From m then False
      else isCandidateUpToDate (m_LastLogTerm m) (m_LastLogIndex m)
             (LastTerm (n_log n)) (LastIndex (n_log n)))"

definition handleRequestVoteLocked :: "'s node \<Rightarrow> message \<Rightarrow> 's node option" where
  "handleRequestVoteLocked n m =
     (let grant = canGrantVote n m in
      do {
        n \<leftarrow> (if grant
              then map_option queueHardStateLocked
                     (resetElectionTimeoutLocked (n\<lparr>n_votedFor := m_From m\<rparr>))
              else Some n);
        Some (queueMsgLocked n
          (zero_message\<lparr>m_Type := MsgRequestVoteResponse, m_Term := n_currentTerm n,
             m_From := n_id n, m_To := m_From m, m_VoteGranted := grant\<rparr>))
      })"

section \<open>commit.go\<close>

definition quorum :: "'s node \<Rightarrow> nat" where
  "quorum n = length (n_peers n) div 2 + 1"

definition commit_matches :: "'s node \<Rightarrow> nat list" where
  "commit_matches n =
     sort (map (\<lambda>(peer, mi). if peer = n_id n then LastIndex (n_log n) else mi) (n_matchIndex n))"

definition maybeAdvanceCommitLocked :: "'s node \<Rightarrow> 's node option" where
  "maybeAdvanceCommitLocked n =
     (let matches = commit_matches n in
      if quorum n > length matches then Some n
      else
        let quorumIndex = matches ! (length matches - quorum n) in
        if quorumIndex \<le> n_commitIndex n then Some n
        else do {
          t \<leftarrow> log_Term0 (n_log n) quorumIndex;
          if t \<noteq> n_currentTerm n then Some n
          else Some (notifyProgressLocked (queueHardStateLocked (n\<lparr>n_commitIndex := quorumIndex\<rparr>)))
        })"

section \<open>leader.go\<close>

definition sendAppendEntriesLocked :: "'s node \<Rightarrow> nodeid \<Rightarrow> 's node option" where
  "sendAppendEntriesLocked n peer =
     (let prevIndex = u64_pred (get0 (n_nextIndex n) peer) in
      do {
        prevTerm \<leftarrow> log_Term0 (n_log n) prevIndex;
        entries \<leftarrow> log_entriesFrom (n_log n) (get0 (n_nextIndex n) peer);
        Some (queueMsgLocked n
          (zero_message\<lparr>m_Type := MsgAppendEntries, m_Term := n_currentTerm n,
             m_From := n_id n, m_To := peer, m_PrevLogIndex := prevIndex,
             m_PrevLogTerm := prevTerm, m_Entries := entries,
             m_LeaderCommit := n_commitIndex n\<rparr>))
      })"

text \<open>The loop over the peers other than self, written out three times in the source.\<close>

definition fanOutAppendEntries :: "'s node \<Rightarrow> 's node option" where
  "fanOutAppendEntries n =
     fold_opt (\<lambda>peer n. if peer = n_id n then Some n else sendAppendEntriesLocked n peer) (n_peers n) n"

definition tickLeaderLocked :: "'s node \<Rightarrow> 's node option" where
  "tickLeaderLocked n =
     (let n = n\<lparr>n_heartbeatElapsed := n_heartbeatElapsed n + 1\<rparr> in
      if n_heartbeatElapsed n < n_heartbeatTimeout n then Some n
      else Option.bind (fanOutAppendEntries (n\<lparr>n_heartbeatElapsed := 0\<rparr>)) maybeAdvanceCommitLocked)"

definition broadcastAppendEntriesLocked :: "'s node \<Rightarrow> 's node option" where
  "broadcastAppendEntriesLocked n = Option.bind (fanOutAppendEntries n) maybeAdvanceCommitLocked"

definition proposeLocked :: "'s storage_ops \<Rightarrow> 's node \<Rightarrow> byte list \<Rightarrow> ((nat \<times> bool) \<times> 's node) option" where
  "proposeLocked ops n data =
     (if n_role n \<noteq> Leader then Some ((0, False), n)
      else
        let idx = u64_succ (LastIndex (n_log n));
            entry = \<lparr>ent_Term = n_currentTerm n, ent_Index = idx, ent_Data = data\<rparr>;
            n = n\<lparr>n_log := Append (n_log n) [entry]\<rparr>;
            (err, s') = op_Append ops (n_storage n) [entry];
            n = n\<lparr>n_storage := s'\<rparr>
        in case err of
             Some e \<Rightarrow> do { l \<leftarrow> TruncateSuffix (n_log n) idx; Some ((0, False), n\<lparr>n_log := l\<rparr>) }
           | None \<Rightarrow> Some ((idx, True), n\<lparr>n_matchIndex := AList.update (n_id n) idx (n_matchIndex n)\<rparr>))"

definition handleAppendEntriesRespLocked :: "'s node \<Rightarrow> message \<Rightarrow> 's node option" where
  "handleAppendEntriesRespLocked n m =
     (if n_role n \<noteq> Leader \<or> m_Term m \<noteq> n_currentTerm n then Some n
      else if m_Success m then
        maybeAdvanceCommitLocked (notifyProgressLocked
          (n\<lparr>n_matchIndex := AList.update (m_From m) (m_MatchIndex m) (n_matchIndex n),
             n_nextIndex := AList.update (m_From m) (u64_succ (m_MatchIndex m)) (n_nextIndex n)\<rparr>))
      else if get0 (n_nextIndex n) (m_From m) > 1 then
        Some (n\<lparr>n_nextIndex := AList.update (m_From m) (get0 (n_nextIndex n) (m_From m) - 1) (n_nextIndex n)\<rparr>)
      else Some n)"

section \<open>leader\_stub.go, candidate.go\<close>

definition becomeLeaderLocked :: "'s node \<Rightarrow> 's node option" where
  "becomeLeaderLocked n =
     (let n = n\<lparr>n_role := Leader, n_leaderHint := n_id n\<rparr>;
          nextIdx = u64_succ (LastIndex (n_log n));
          n = n\<lparr>n_nextIndex := fold (\<lambda>peer. AList.update peer nextIdx) (n_peers n) (n_nextIndex n),
                n_matchIndex := fold (\<lambda>peer. AList.update peer 0) (n_peers n) (n_matchIndex n)\<rparr>;
          n = n\<lparr>n_heartbeatElapsed := 0, n_heartbeatTimeout := 1\<rparr>
      in fanOutAppendEntries n)"

definition votes_count :: "'s node \<Rightarrow> nat" where
  "votes_count n = (case n_votesReceived n of None \<Rightarrow> 0 | Some votes \<Rightarrow> length votes)"

definition fanOutRequestVote :: "'s node \<Rightarrow> 's node" where
  "fanOutRequestVote n =
     fold (\<lambda>peer n. if peer = n_id n then n
             else queueMsgLocked n
               (zero_message\<lparr>m_Type := MsgRequestVote, m_Term := n_currentTerm n,
                  m_From := n_id n, m_To := peer, m_LastLogIndex := LastIndex (n_log n),
                  m_LastLogTerm := LastTerm (n_log n)\<rparr>)) (n_peers n) n"

definition becomeCandidateLocked :: "'s node \<Rightarrow> 's node option" where
  "becomeCandidateLocked n =
     (let n = n\<lparr>n_role := Candidate, n_currentTerm := u64_succ (n_currentTerm n),
                n_votedFor := n_id n, n_leaderHint := '''',
                n_votesReceived := Some [(n_id n, True)]\<rparr>
      in do {
        n \<leftarrow> resetElectionTimeoutLocked n;
        let n = fanOutRequestVote (queueHardStateLocked n);
        if votes_count n \<ge> quorum n then becomeLeaderLocked n else Some n
      })"

definition tickFollowerLocked :: "'s node \<Rightarrow> 's node option" where
  "tickFollowerLocked n =
     (let n = n\<lparr>n_electionElapsed := n_electionElapsed n + 1, n_lastHeartbeat := n_lastHeartbeat n + 1\<rparr> in
      if n_electionElapsed n \<ge> n_electionTimeout n \<and> n_onElectionTrigger n
      then becomeCandidateLocked n else Some n)"

definition tickCandidateLocked :: "'s node \<Rightarrow> 's node option" where
  "tickCandidateLocked n =
     (let n = n\<lparr>n_electionElapsed := n_electionElapsed n + 1\<rparr> in
      if n_electionElapsed n \<ge> n_electionTimeout n then becomeCandidateLocked n else Some n)"

definition handleRequestVoteResponseLocked :: "'s node \<Rightarrow> message \<Rightarrow> 's node option" where
  "handleRequestVoteResponseLocked n m =
     (if n_role n \<noteq> Candidate \<or> m_Term m \<noteq> n_currentTerm n then Some n
      else if \<not> m_VoteGranted m then Some n
      else case n_votesReceived n of
        None \<Rightarrow> None
      | Some votes \<Rightarrow>
          let n = n\<lparr>n_votesReceived := Some (AList.update (m_From m) True votes)\<rparr>
          in if votes_count n \<ge> quorum n then becomeLeaderLocked n else Some n)"

section \<open>append\_entries.go\<close>

fun firstConflictIndex_loop :: "raft_log \<Rightarrow> nat \<Rightarrow> entry list \<Rightarrow> nat option" where
  "firstConflictIndex_loop l lst [] = Some 0"
| "firstConflictIndex_loop l lst (e # es) =
     (if ent_Index e > lst then Some (ent_Index e)
      else case log_Term0 l (ent_Index e) of
        None \<Rightarrow> None
      | Some localTerm \<Rightarrow>
          if localTerm \<noteq> ent_Term e then Some (ent_Index e) else firstConflictIndex_loop l lst es)"

definition firstConflictIndex :: "'s node \<Rightarrow> entry list \<Rightarrow> nat option" where
  "firstConflictIndex n entries = firstConflictIndex_loop (n_log n) (LastIndex (n_log n)) entries"

definition assertTruncateAboveCommit :: "nat \<Rightarrow> nat \<Rightarrow> unit option" where
  "assertTruncateAboveCommit firstConflict commitIndex =
     (if firstConflict \<le> commitIndex then None else Some ())"

definition replyAppendEntriesLocked :: "'s node \<Rightarrow> nodeid \<Rightarrow> bool \<Rightarrow> nat \<Rightarrow> 's node" where
  "replyAppendEntriesLocked n to success matchIndex =
     queueMsgLocked n
       (zero_message\<lparr>m_Type := MsgAppendEntriesResp, m_Term := n_currentTerm n,
          m_From := n_id n, m_To := to, m_Success := success, m_MatchIndex := matchIndex\<rparr>)"

definition mirrorLogWriteLocked ::
  "'s storage_ops \<Rightarrow> 's node \<Rightarrow> nat \<Rightarrow> entry list \<Rightarrow> goerr option \<times> 's node" where
  "mirrorLogWriteLocked ops n from suffix =
     (case op_TruncateSuffix ops (n_storage n) from of
        (Some e, s') \<Rightarrow> (Some (Wrapped ''raft: mirror truncate'' e), n\<lparr>n_storage := s'\<rparr>)
      | (None, s') \<Rightarrow>
          (case op_Append ops s' suffix of
             (Some e, s'') \<Rightarrow> (Some (Wrapped ''raft: mirror append'' e), n\<lparr>n_storage := s''\<rparr>)
           | (None, s'') \<Rightarrow> (None, n\<lparr>n_storage := s''\<rparr>)))"

text \<open>
  The conflict-resolution block: the node with the log written, and whether the mirror
  into storage failed.
\<close>

definition writeEntriesLocked ::
  "'s storage_ops \<Rightarrow> 's node \<Rightarrow> entry list \<Rightarrow> (goerr option \<times> 's node) option" where
  "writeEntriesLocked ops n entries =
     do {
       firstConflict \<leftarrow> firstConflictIndex n entries;
       if firstConflict = 0 then Some (None, n)
       else do {
         _ \<leftarrow> (if firstConflict \<le> LastIndex (n_log n)
              then assertTruncateAboveCommit firstConflict (n_commitIndex n) else Some ());
         let suffix = entriesFrom entries firstConflict;
         l \<leftarrow> TruncateSuffix (n_log n) firstConflict;
         let n = n\<lparr>n_log := Append l suffix\<rparr>;
         Some (mirrorLogWriteLocked ops n firstConflict suffix)
       }
     }"

definition handleAppendEntriesLocked :: "'s storage_ops \<Rightarrow> 's node \<Rightarrow> message \<Rightarrow> 's node option" where
  "handleAppendEntriesLocked ops n m =
     (if m_Term m < n_currentTerm n then Some (replyAppendEntriesLocked n (m_From m) False 0)
      else
        let n = n\<lparr>n_electionElapsed := 0, n_lastHeartbeat := 0, n_leaderHint := m_From m\<rparr> in
        do {
          matched \<leftarrow> Match (n_log n) (m_PrevLogIndex m) (m_PrevLogTerm m);
          if \<not> matched then Some (replyAppendEntriesLocked n (m_From m) False 0)
          else do {
            (err, n) \<leftarrow> writeEntriesLocked ops n (m_Entries m);
            if err \<noteq> None then Some (replyAppendEntriesLocked n (m_From m) False 0)
            else
              let n = (if m_LeaderCommit m > n_commitIndex n
                       then let lastNew = u64_add (m_PrevLogIndex m) (length (m_Entries m))
                            in queueHardStateLocked (n\<lparr>n_commitIndex := min (m_LeaderCommit m) lastNew\<rparr>)
                       else n)
              in Some (replyAppendEntriesLocked n (m_From m) True (LastIndex (n_log n)))
          }
        })"

section \<open>step.go, node.go: the entry points\<close>

definition stepLocked :: "'s storage_ops \<Rightarrow> 's node \<Rightarrow> message \<Rightarrow> (goerr option \<times> 's node) option" where
  "stepLocked ops n m =
     (let n = (if m_Term m > n_currentTerm n then maybeStepDownLocked n (m_Term m) else n) in
      if m_Type m = MsgTick then
        map_option (Pair None)
          (case n_role n of
             Follower \<Rightarrow> tickFollowerLocked n
           | Candidate \<Rightarrow> tickCandidateLocked n
           | Leader \<Rightarrow> tickLeaderLocked n)
      else if m_Type m = MsgRequestVote then map_option (Pair None) (handleRequestVoteLocked n m)
      else if m_Type m = MsgRequestVoteResponse then map_option (Pair None) (handleRequestVoteResponseLocked n m)
      else if m_Type m = MsgAppendEntries then map_option (Pair None) (handleAppendEntriesLocked ops n m)
      else if m_Type m = MsgAppendEntriesResp then map_option (Pair None) (handleAppendEntriesRespLocked n m)
      else Some (Some (ErrUnknownMessageType (m_Type m)), n))"

definition Step :: "'s storage_ops \<Rightarrow> 's node \<Rightarrow> message \<Rightarrow> (goerr option \<times> 's node) option" where
  "Step ops n m = (if \<not> n_started n then Some (Some ErrStopped, n) else stepLocked ops n m)"

section \<open>ready.go\<close>

definition Ready :: "'s node \<Rightarrow> (message list \<times> hardstate option) \<times> 's node" where
  "Ready n =
     ((map pm_msg (filter (\<lambda>pm. pm_epoch pm = n_stepDownEpoch n) (n_pendingMsgs n)), n_pendingHS n),
      n\<lparr>n_pendingMsgs := [], n_pendingHS := None\<rparr>)"

text \<open>The \<^verbatim>\<open>raftdebug\<close> assertions: true when the debug build does not panic.\<close>

definition assertAppendPrecedesAEResponseLocked :: "'s node \<Rightarrow> bool" where
  "assertAppendPrecedesAEResponseLocked n =
     list_all (\<lambda>pm. let m = pm_msg pm in
        \<not> (m_Type m \<noteq> MsgAppendEntriesResp \<or> \<not> m_Success m \<or> m_MatchIndex m = 0) \<longrightarrow>
        m_MatchIndex m \<le> LastIndex (n_log n)) (n_pendingMsgs n)"

definition assertReadyInvariantsLocked :: "'s node \<Rightarrow> bool" where
  "assertReadyInvariantsLocked n =
     (assertAppendPrecedesAEResponseLocked n \<and>
      (case n_pendingHS n of
         None \<Rightarrow> True
       | Some hs \<Rightarrow>
           list_all (\<lambda>pm. let m = pm_msg pm in
             m_Type m = MsgRequestVoteResponse \<and> m_VoteGranted m \<and> m_Term m = hs_CurrentTerm hs \<longrightarrow>
             hs_VotedFor hs = m_To m) (n_pendingMsgs n)))"

section \<open>node.go: construction\<close>

definition restoreLogFromStorage :: "'s storage_ops \<Rightarrow> 's node \<Rightarrow> goerr + 's node" where
  "restoreLogFromStorage ops n =
     (case op_LastIndex ops (n_storage n) of
        Inl e \<Rightarrow> Inl (Wrapped ''raft: restore log last index'' e)
      | Inr lst \<Rightarrow>
          if lst = 0 then Inr n
          else (case op_FirstIndex ops (n_storage n) of
             Inl e \<Rightarrow> Inl (Wrapped ''raft: restore log first index'' e)
           | Inr first \<Rightarrow>
               (case op_Entries ops (n_storage n) first (u64_succ lst) of
                  Inl e \<Rightarrow> Inl (Wrapped ''raft: restore log entries'' e)
                | Inr ents \<Rightarrow> Inr (n\<lparr>n_log := Append (n_log n) ents\<rparr>))))"

text \<open>
  \<open>mkRand\<close> is \<^verbatim>\<open>rand.New(rand.NewPCG(hi, lo))\<close> and \<open>now\<close> the clock reading
  \<^verbatim>\<open>newNodeRNG\<close> may take.
\<close>

definition newNode ::
  "'s storage_ops \<Rightarrow> (64 word \<times> 64 word \<Rightarrow> rng) \<Rightarrow> int \<Rightarrow> config \<Rightarrow> 's \<Rightarrow> (goerr + 's node) option" where
  "newNode ops mkRand now cfg0 s =
     (let cfg = applyDefaults cfg0 in
      case Validate cfg of
        Some e \<Rightarrow> Some (Inl e)
      | None \<Rightarrow>
          let n = \<lparr>n_id = cfg_NodeID cfg, n_peers = sort (cfg_Peers cfg), n_currentTerm = 0,
                   n_votedFor = '''', n_role = Follower, n_log = empty_log, n_commitIndex = 0,
                   n_leaderHint = '''', n_lastHeartbeat = 0, n_nextIndex = [], n_matchIndex = [],
                   n_votesReceived = None, n_rng = [], n_electionTimeout = 0,
                   n_electionElapsed = 0, n_heartbeatElapsed = 0, n_heartbeatTimeout = 0,
                   n_stepDownEpoch = 0, n_pendingMsgs = [], n_pendingHS = None,
                   n_notifyC = False, n_storage = s, n_cfg = cfg, n_started = False,
                   n_onElectionTrigger = False\<rparr>
          in (case op_LoadHardState ops s of
                Inl e \<Rightarrow> Some (Inl (Wrapped ''raft: load hard state'' e))
              | Inr hs \<Rightarrow>
                  let n = n\<lparr>n_currentTerm := hs_CurrentTerm hs, n_votedFor := hs_VotedFor hs,
                            n_commitIndex := hs_Commit hs\<rparr>
                  in (case restoreLogFromStorage ops n of
                        Inl e \<Rightarrow> Some (Inl e)
                      | Inr n \<Rightarrow>
                          let n = n\<lparr>n_rng := mkRand (newNodeRNG (cfg_Seed cfg) (cfg_NodeID cfg) now)\<rparr>
                          in map_option (\<lambda>n. Inr (n\<lparr>n_onElectionTrigger := True, n_started := True\<rparr>))
                               (resetElectionTimeoutLocked n))))"

end
