(* ===== verification/Raft_Driver.thy ===== *)
theory Raft_Driver
  imports Raft_Node
begin

text \<open>
  The public node: \<^verbatim>\<open>node_public.go\<close> (\<^verbatim>\<open>nodeImpl\<close> and its lifecycle), \<^verbatim>\<open>driver.go\<close> (the tick
  loop, the flush and the commit drain), \<^verbatim>\<open>apply.go\<close> (the applier, checkpoints) and
  \<^verbatim>\<open>driver_testseam.go\<close>. A goroutine's loop body is a function on the shared
  \<open>nodeImpl\<close> record; where it can park (a full channel, a caller waiting for a result) it
  is cut in two, so that any interleaving of the goroutines is a sequence of these
  functions. The state machine is a table of methods \<open>smo\<close> with its state in the record;
  messages given to \<^verbatim>\<open>Transport.Send\<close> are returned in order.
\<close>

text \<open>The consumer's \<^verbatim>\<open>StateMachine\<close>. \<open>sm_Apply\<close> returns \<open>None\<close> when it panics.\<close>

record ('m, 'r) sm_ops =
  sm_Apply :: "'m \<Rightarrow> entry \<Rightarrow> ('r option \<times> goerr option) option \<times> 'm"
  sm_Snapshot :: "'m \<Rightarrow> goerr + (byte list \<times> nat)"
  sm_Restore :: "'m \<Rightarrow> byte list \<Rightarrow> goerr option \<times> 'm"

type_synonym 'r proposeResult = "'r option \<times> goerr option"

text \<open>
  \<open>ni_waiters\<close> maps an index to the name of a result channel and \<open>ni_results\<close> holds what
  has been sent on a channel (each has one slot). \<open>ni_cancel\<close> is \<open>None\<close> before \<^verbatim>\<open>Start\<close>,
  then whether the root context is cancelled. \<open>ni_wake\<close> is the one-slot wake channel.
\<close>

record ('s, 'm, 'r) nodeImpl =
  ni_core :: "'s node"
  ni_cfg :: config
  ni_sm :: 'm
  ni_startOnce :: bool
  ni_stopOnce :: bool
  ni_stopErr :: "goerr option"
  ni_cancel :: "bool option"
  ni_applyCh :: "entry list"
  ni_enqueuedIdx :: nat
  ni_appliedIdx :: nat
  ni_snapshotIdx :: nat
  ni_waiters :: "(nat \<times> nat) list"
  ni_results :: "(nat \<times> 'r proposeResult) list"
  ni_nextCh :: nat
  ni_fatal :: "goerr option"
  ni_stopped :: bool
  ni_wake :: bool

section \<open>node\_public.go\<close>

definition signalWake :: "('s, 'm, 'r) nodeImpl \<Rightarrow> ('s, 'm, 'r) nodeImpl" where
  "signalWake n = n\<lparr>ni_wake := True\<rparr>"

definition defaultApplyBuf :: nat where
  "defaultApplyBuf = 256"

definition applyBuf :: "config \<Rightarrow> nat" where
  "applyBuf cfg = defaultApplyBuf"

definition New ::
  "'s storage_ops \<Rightarrow> ('m, 'r) sm_ops \<Rightarrow> (64 word \<times> 64 word \<Rightarrow> rng) \<Rightarrow> int \<Rightarrow> config \<Rightarrow> 's \<Rightarrow> 'm \<Rightarrow>
   (goerr + ('s, 'm, 'r) nodeImpl) option" where
  "New ops smo mkRand now cfg0 s sm =
     (let cfg = applyDefaults cfg0 in
      case Validate cfg of
        Some e \<Rightarrow> Some (Inl e)
      | None \<Rightarrow>
          (case newNode ops mkRand now cfg s of
             None \<Rightarrow> None
           | Some (Inl e) \<Rightarrow> Some (Inl e)
           | Some (Inr core) \<Rightarrow>
               let n = \<lparr>ni_core = core, ni_cfg = cfg, ni_sm = sm, ni_startOnce = False,
                        ni_stopOnce = False, ni_stopErr = None, ni_cancel = None,
                        ni_applyCh = [], ni_enqueuedIdx = 0, ni_appliedIdx = 0,
                        ni_snapshotIdx = 0, ni_waiters = [], ni_results = [], ni_nextCh = 0,
                        ni_fatal = None, ni_stopped = False, ni_wake = False\<rparr>
               in (case op_LoadSnapshot ops s of
                     Inl e \<Rightarrow> Some (Inl (Wrapped ''raft: load snapshot'' e))
                   | Inr snap \<Rightarrow>
                       if snap_Index snap > 0 then
                         (case sm_Restore smo sm (snap_Data snap) of
                            (err, sm') \<Rightarrow>
                              if err \<noteq> None \<and> \<not> errors_Is (the err) ErrSnapshotUnsupported
                              then Some (Inl (Wrapped ''raft: restore snapshot at index'' (the err)))
                              else Some (Inr (n\<lparr>ni_sm := sm', ni_enqueuedIdx := snap_Index snap,
                                     ni_appliedIdx := snap_Index snap,
                                     ni_snapshotIdx := snap_Index snap\<rparr>)))
                       else Some (Inr n))))"

definition Status :: "('s, 'm, 'r) nodeImpl \<Rightarrow> status" where
  "Status n =
     \<lparr>st_Role = n_role (ni_core n), st_Term = n_currentTerm (ni_core n),
      st_CommitIndex = n_commitIndex (ni_core n), st_ApplyIndex = ni_appliedIdx n,
      st_LastLogIndex = LastIndex (n_log (ni_core n)), st_LeaderHint = n_leaderHint (ni_core n),
      st_MatchIndex = (if n_role (ni_core n) = Leader then Some (n_matchIndex (ni_core n)) else None)\<rparr>"

definition impl_LeaderHint :: "('s, 'm, 'r) nodeImpl \<Rightarrow> nodeid" where
  "impl_LeaderHint n = n_leaderHint (ni_core n)"

definition impl_NodeID :: "('s, 'm, 'r) nodeImpl \<Rightarrow> nodeid" where
  "impl_NodeID n = n_id (ni_core n)"

definition impl_Step ::
  "'s storage_ops \<Rightarrow> ('s, 'm, 'r) nodeImpl \<Rightarrow> bool \<Rightarrow> message \<Rightarrow> (goerr option \<times> ('s, 'm, 'r) nodeImpl) option" where
  "impl_Step ops n ctxDone msg =
     (if ni_stopped n then Some (Some ErrStopped, n)
      else if ctxDone then Some (Some ErrCtxDone, n)
      else map_option (\<lambda>(err, core). (err, n\<lparr>ni_core := core\<rparr>)) (Step ops (ni_core n) msg))"

text \<open>
  \<^verbatim>\<open>Propose\<close> up to the point where it waits: an error, or the index, term and channel it
  waits on. \<open>propose_wait\<close> is the select that ends it: \<open>None\<close> while neither case is ready.
\<close>

definition propose_submit ::
  "'s storage_ops \<Rightarrow> ('s, 'm, 'r) nodeImpl \<Rightarrow> byte list \<Rightarrow>
   ((goerr + (nat \<times> nat \<times> nat)) \<times> ('s, 'm, 'r) nodeImpl) option" where
  "propose_submit ops n data =
     (if ni_stopped n then Some (Inl ErrStopped, n)
      else if n_role (ni_core n) \<noteq> Leader then Some (Inl (ErrNotLeader (n_leaderHint (ni_core n))), n)
      else do {
        ((idx, ok), core) \<leftarrow> proposeLocked ops (ni_core n) data;
        let trm = n_currentTerm core;
        if ok then do {
          let ch = ni_nextCh n;
          let n = n\<lparr>ni_core := core, ni_nextCh := ch + 1, ni_waiters := AList.update idx ch (ni_waiters n)\<rparr>;
          core \<leftarrow> broadcastAppendEntriesLocked (ni_core n);
          Some (Inr (idx, trm, ch), signalWake (n\<lparr>ni_core := core\<rparr>))
        }
        else Some (Inl ErrProposalDropped, n\<lparr>ni_core := core\<rparr>)
      })"

definition propose_wait ::
  "('s, 'm, 'r) nodeImpl \<Rightarrow> bool \<Rightarrow> nat \<Rightarrow> nat \<Rightarrow> nat \<Rightarrow>
   ((nat \<times> nat \<times> 'r option \<times> goerr option) \<times> ('s, 'm, 'r) nodeImpl) option" where
  "propose_wait n ctxDone idx trm ch =
     (case map_of (ni_results n) ch of
        Some (res, err) \<Rightarrow> Some ((idx, trm, res, err), n\<lparr>ni_results := AList.delete ch (ni_results n)\<rparr>)
      | None \<Rightarrow>
          if ctxDone
          then Some ((0, 0, None, Some ErrCtxDone), n\<lparr>ni_waiters := AList.delete idx (ni_waiters n)\<rparr>)
          else None)"

text \<open>\<^verbatim>\<open>Start\<close> also hands the transport its callback, \<open>inbound\<close>.\<close>

definition Start :: "('s, 'm, 'r) nodeImpl \<Rightarrow> goerr option \<times> ('s, 'm, 'r) nodeImpl" where
  "Start n =
     (if ni_startOnce n then (None, n)
      else (None, n\<lparr>ni_startOnce := True, ni_cancel := Some False\<rparr>))"

definition inbound ::
  "'s storage_ops \<Rightarrow> ('s, 'm, 'r) nodeImpl \<Rightarrow> bool \<Rightarrow> message \<Rightarrow> (goerr option \<times> ('s, 'm, 'r) nodeImpl) option" where
  "inbound ops n ctxDone m =
     map_option (\<lambda>(err, n). (err, signalWake n)) (impl_Step ops n ctxDone m)"

section \<open>apply.go\<close>

definition checkpoint ::
  "'s storage_ops \<Rightarrow> ('m, 'r) sm_ops \<Rightarrow> ('s, 'm, 'r) nodeImpl \<Rightarrow> ('s, 'm, 'r) nodeImpl option" where
  "checkpoint ops smo n =
     (case sm_Snapshot smo (ni_sm n) of
        Inl e \<Rightarrow> Some n
      | Inr (data, sidx) \<Rightarrow>
          if sidx = 0 then Some n
          else do {
            trm \<leftarrow> log_Term0 (n_log (ni_core n)) sidx;
            let (err, s') = op_SaveSnapshot ops (n_storage (ni_core n))
                  \<lparr>snap_Index = sidx, snap_Term = trm, snap_Data = data\<rparr>;
            let n = n\<lparr>ni_core := (ni_core n)\<lparr>n_storage := s'\<rparr>\<rparr>;
            Some (if err \<noteq> None then n else n\<lparr>ni_snapshotIdx := sidx\<rparr>)
          })"

definition resolve_waiter :: "('s, 'm, 'r) nodeImpl \<Rightarrow> nat \<Rightarrow> 'r proposeResult \<Rightarrow> ('s, 'm, 'r) nodeImpl" where
  "resolve_waiter n idx r =
     (case map_of (ni_waiters n) idx of
        None \<Rightarrow> n
      | Some ch \<Rightarrow> n\<lparr>ni_waiters := AList.delete idx (ni_waiters n),
                     ni_results := AList.update ch r (ni_results n)\<rparr>)"

definition applyPanicError :: "nat \<Rightarrow> goerr" where
  "applyPanicError idx = ErrOther (''apply panic at index '' @ dec_digits idx)"

text \<open>The deferred function of \<^verbatim>\<open>applyOne\<close>, run when its body panics.\<close>

definition applyRecover :: "('s, 'm, 'r) nodeImpl \<Rightarrow> entry \<Rightarrow> ('s, 'm, 'r) nodeImpl" where
  "applyRecover n e =
     (let err = applyPanicError (ent_Index e);
          n = n\<lparr>ni_fatal := Some err, ni_appliedIdx := ent_Index e\<rparr>
      in resolve_waiter n (ent_Index e) (None, Some err))"

definition applyOne ::
  "'s storage_ops \<Rightarrow> ('m, 'r) sm_ops \<Rightarrow> ('s, 'm, 'r) nodeImpl \<Rightarrow> entry \<Rightarrow> ('s, 'm, 'r) nodeImpl" where
  "applyOne ops smo n e =
     (case sm_Apply smo (ni_sm n) e of
        (None, sm') \<Rightarrow> applyRecover (n\<lparr>ni_sm := sm'\<rparr>) e
      | (Some r, sm') \<Rightarrow>
          let n = resolve_waiter (n\<lparr>ni_sm := sm', ni_appliedIdx := ent_Index e\<rparr>) (ent_Index e) r
          in if ent_Index e \<ge> u64_add (ni_snapshotIdx n) (cfg_SnapshotInterval (ni_cfg n))
             then (case checkpoint ops smo n of None \<Rightarrow> applyRecover n e | Some n' \<Rightarrow> n')
             else n)"

text \<open>One turn of \<^verbatim>\<open>runApply\<close>; nothing changes while the channel is empty.\<close>

definition runApply ::
  "'s storage_ops \<Rightarrow> ('m, 'r) sm_ops \<Rightarrow> ('s, 'm, 'r) nodeImpl \<Rightarrow> ('s, 'm, 'r) nodeImpl" where
  "runApply ops smo n =
     (case ni_applyCh n of
        [] \<Rightarrow> n
      | e # es \<Rightarrow> applyOne ops smo (n\<lparr>ni_applyCh := es\<rparr>) e)"

definition Fatal :: "('s, 'm, 'r) nodeImpl \<Rightarrow> goerr option" where
  "Fatal n = ni_fatal n"

section \<open>driver.go\<close>

text \<open>
  The drain loop from \<^verbatim>\<open>i = enqueuedIdx + 1\<close>. It stops at the commit index read on entry or
  at a read error. When the channel is full it parks on the send: \<open>DrainParked ci i e\<close>
  keeps the loop's variables and the entry already read, and \<open>drainResume\<close> goes on from
  there once the applier has taken an entry.
\<close>

datatype drain_state = DrainDone | DrainReadError | DrainParked nat nat entry

function (sequential) drainLoop ::
  "'s storage_ops \<Rightarrow> nat \<Rightarrow> nat \<Rightarrow> ('s, 'm, 'r) nodeImpl \<Rightarrow> drain_state \<times> ('s, 'm, 'r) nodeImpl" where
  "drainLoop ops ci i n =
     (if i > ci then (DrainDone, n)
      else case op_Entries ops (n_storage (ni_core n)) i (u64_succ i) of
        Inl e \<Rightarrow> (DrainReadError, n)
      | Inr [] \<Rightarrow> (DrainReadError, n)
      | Inr (e # es) \<Rightarrow>
          if length (ni_applyCh n) \<ge> applyBuf (ni_cfg n) then (DrainParked ci i e, n)
          else drainLoop ops ci (i + 1) (n\<lparr>ni_applyCh := ni_applyCh n @ [e], ni_enqueuedIdx := i\<rparr>))"
  by pat_completeness auto

termination drainLoop
  by (relation "measure (\<lambda>(ops, ci, i, n). ci + 1 - i)") auto

definition drainCommitsToApply ::
  "'s storage_ops \<Rightarrow> ('s, 'm, 'r) nodeImpl \<Rightarrow> drain_state \<times> ('s, 'm, 'r) nodeImpl" where
  "drainCommitsToApply ops n =
     drainLoop ops (n_commitIndex (ni_core n)) (u64_succ (ni_enqueuedIdx n)) n"

definition drainResume ::
  "'s storage_ops \<Rightarrow> nat \<Rightarrow> nat \<Rightarrow> entry \<Rightarrow> ('s, 'm, 'r) nodeImpl \<Rightarrow> drain_state \<times> ('s, 'm, 'r) nodeImpl" where
  "drainResume ops ci i e n =
     (if length (ni_applyCh n) \<ge> applyBuf (ni_cfg n) then (DrainParked ci i e, n)
      else drainLoop ops ci (i + 1) (n\<lparr>ni_applyCh := ni_applyCh n @ [e], ni_enqueuedIdx := i\<rparr>))"

text \<open>
  \<^verbatim>\<open>flush\<close>: \<^verbatim>\<open>Ready\<close>, then \<^verbatim>\<open>SaveHardState\<close> with its error dropped, then the sends.
\<close>

definition saveHS :: "'s storage_ops \<Rightarrow> 's node \<Rightarrow> hardstate option \<Rightarrow> 's node" where
  "saveHS ops core hs =
     (case hs of
        None \<Rightarrow> core
      | Some h \<Rightarrow> core\<lparr>n_storage := snd (op_SaveHardState ops (n_storage core) h)\<rparr>)"

definition flush ::
  "'s storage_ops \<Rightarrow> ('s, 'm, 'r) nodeImpl \<Rightarrow> message list \<times> drain_state \<times> ('s, 'm, 'r) nodeImpl" where
  "flush ops n =
     (let ((msgs, hs), core) = Ready (ni_core n);
          n = n\<lparr>ni_core := saveHS ops core hs\<rparr>;
          (d, n) = drainCommitsToApply ops n
      in (msgs, d, n))"

definition tickMessage :: message where
  "tickMessage = zero_message\<lparr>m_Type := MsgTick\<rparr>"

text \<open>The two productive cases of the ticker's select: a tick and a wake.\<close>

definition runTicker_tick ::
  "'s storage_ops \<Rightarrow> ('s, 'm, 'r) nodeImpl \<Rightarrow> (message list \<times> drain_state \<times> ('s, 'm, 'r) nodeImpl) option" where
  "runTicker_tick ops n =
     map_option (\<lambda>(err, core). flush ops (n\<lparr>ni_core := core\<rparr>)) (Step ops (ni_core n) tickMessage)"

definition runTicker_wake ::
  "'s storage_ops \<Rightarrow> ('s, 'm, 'r) nodeImpl \<Rightarrow> message list \<times> drain_state \<times> ('s, 'm, 'r) nodeImpl" where
  "runTicker_wake ops n = flush ops (n\<lparr>ni_wake := False\<rparr>)"

text \<open>
  \<^verbatim>\<open>Stop\<close>: \<open>joined\<close> says whether the goroutines were joined before \<^verbatim>\<open>StopTimeout\<close>.
\<close>

definition Stop ::
  "'s storage_ops \<Rightarrow> ('m, 'r) sm_ops \<Rightarrow> ('s, 'm, 'r) nodeImpl \<Rightarrow> bool \<Rightarrow>
   (goerr option \<times> ('s, 'm, 'r) nodeImpl) option" where
  "Stop ops smo n joined =
     (if ni_stopOnce n then Some (ni_stopErr n, n)
      else
        let n = n\<lparr>ni_stopOnce := True, ni_stopped := True, ni_cancel := map_option (\<lambda>_. True) (ni_cancel n)\<rparr> in
        do {
          n \<leftarrow> (if joined then checkpoint ops smo n
                else Some (n\<lparr>ni_stopErr := Some (ErrOther ''raft: Stop timed out'')\<rparr>));
          Some (ni_stopErr n, n)
        })"

section \<open>driver\_testseam.go\<close>

function (sequential) applyCommittedForTest_loop ::
  "'s storage_ops \<Rightarrow> ('m, 'r) sm_ops \<Rightarrow> nat \<Rightarrow> nat \<Rightarrow> ('s, 'm, 'r) nodeImpl \<Rightarrow> ('s, 'm, 'r) nodeImpl" where
  "applyCommittedForTest_loop ops smo ci i n =
     (if i > ci then n
      else case op_Entries ops (n_storage (ni_core n)) i (u64_succ i) of
        Inl e \<Rightarrow> n
      | Inr [] \<Rightarrow> n
      | Inr (e # es) \<Rightarrow> applyCommittedForTest_loop ops smo ci (i + 1) (applyOne ops smo n e))"
  by pat_completeness auto

termination applyCommittedForTest_loop
  by (relation "measure (\<lambda>(ops, smo, ci, i, n). ci + 1 - i)") auto

definition applyCommittedForTest ::
  "'s storage_ops \<Rightarrow> ('m, 'r) sm_ops \<Rightarrow> ('s, 'm, 'r) nodeImpl \<Rightarrow> ('s, 'm, 'r) nodeImpl" where
  "applyCommittedForTest ops smo n =
     applyCommittedForTest_loop ops smo (n_commitIndex (ni_core n)) (u64_succ (ni_appliedIdx n)) n"

definition drainAndApplyForTest ::
  "'s storage_ops \<Rightarrow> ('m, 'r) sm_ops \<Rightarrow> ('s, 'm, 'r) nodeImpl \<Rightarrow> message list \<times> ('s, 'm, 'r) nodeImpl" where
  "drainAndApplyForTest ops smo n =
     (let ((msgs, hs), core) = Ready (ni_core n);
          n = n\<lparr>ni_core := saveHS ops core hs\<rparr>
      in (msgs, applyCommittedForTest ops smo n))"

definition DrainForTest ::
  "'s storage_ops \<Rightarrow> ('m, 'r) sm_ops \<Rightarrow> ('s, 'm, 'r) nodeImpl \<Rightarrow> message list \<times> ('s, 'm, 'r) nodeImpl" where
  "DrainForTest ops smo n = drainAndApplyForTest ops smo n"

definition TickForTest ::
  "'s storage_ops \<Rightarrow> ('m, 'r) sm_ops \<Rightarrow> ('s, 'm, 'r) nodeImpl \<Rightarrow> (message list \<times> ('s, 'm, 'r) nodeImpl) option" where
  "TickForTest ops smo n =
     map_option (\<lambda>(err, core). drainAndApplyForTest ops smo (n\<lparr>ni_core := core\<rparr>))
       (Step ops (ni_core n) tickMessage)"

end
