(* ===== verification/Storage_Memory.thy ===== *)
theory Storage_Memory
  imports Raft_Storage
begin

text \<open>
  The in-RAM store, \<^verbatim>\<open>pkg/storage/memory/memory.go\<close>. Its methods hold one mutex, so
  each is a function on the store. Deep copies of \<^verbatim>\<open>Data\<close> are the identity on immutable
  lists. The interpretation \<open>mem\<close> shows that the store meets the storage contract and
  never fails a valid call.
\<close>

record mem_storage =
  mem_entries :: "entry list"
  mem_hs :: hardstate
  mem_snap :: snapshot

definition mem_New :: mem_storage where
  "mem_New = \<lparr>mem_entries = [], mem_hs = zero_hardstate, mem_snap = zero_snapshot\<rparr>"

definition mem_Append :: "mem_storage \<Rightarrow> entry list \<Rightarrow> goerr option \<times> mem_storage" where
  "mem_Append m entries =
     (case entries of
        [] \<Rightarrow> (None, m)
      | e # _ \<Rightarrow>
          let expected = u64_succ (length (mem_entries m)) in
          if ent_Index e \<noteq> expected then (Some (Wrapped ''memory storage: append'' ErrNonContiguous), m)
          else if \<not> batch_contiguous entries then (Some (Wrapped ''memory storage: append'' ErrNonContiguous), m)
          else (None, m\<lparr>mem_entries := mem_entries m @ entries\<rparr>))"

definition mem_TruncateSuffix :: "mem_storage \<Rightarrow> nat \<Rightarrow> goerr option \<times> mem_storage" where
  "mem_TruncateSuffix m from =
     (let last = length (mem_entries m) in
      if from > last then (None, m)
      else if from < 1 then (Some (ErrOther ''memory storage: truncate at invalid index''), m)
      else (None, m\<lparr>mem_entries := take (from - 1) (mem_entries m)\<rparr>))"

definition mem_Entries :: "mem_storage \<Rightarrow> nat \<Rightarrow> nat \<Rightarrow> goerr + entry list" where
  "mem_Entries m lo hi =
     (let last = length (mem_entries m) in
      if lo < 1 \<or> lo > hi then Inl ErrInvalidRange
      else if hi > u64_succ last then Inl (Wrapped ''memory storage: hi > LastIndex+1'' ErrUnexpectedEOF)
      else if lo = hi then Inr []
      else Inr (take (hi - lo) (drop (lo - 1) (mem_entries m))))"

definition mem_Term :: "mem_storage \<Rightarrow> nat \<Rightarrow> goerr + nat" where
  "mem_Term m index =
     (if index = 0 then Inr 0
      else if index > length (mem_entries m) then Inl (Wrapped ''memory storage: term'' ErrUnexpectedEOF)
      else Inr (ent_Term (mem_entries m ! (index - 1))))"

definition mem_FirstIndex :: "mem_storage \<Rightarrow> goerr + nat" where
  "mem_FirstIndex m = Inr 1"

definition mem_LastIndex :: "mem_storage \<Rightarrow> goerr + nat" where
  "mem_LastIndex m = Inr (length (mem_entries m))"

definition mem_SaveHardState :: "mem_storage \<Rightarrow> hardstate \<Rightarrow> goerr option \<times> mem_storage" where
  "mem_SaveHardState m hs = (None, m\<lparr>mem_hs := hs\<rparr>)"

definition mem_LoadHardState :: "mem_storage \<Rightarrow> goerr + hardstate" where
  "mem_LoadHardState m = Inr (mem_hs m)"

definition mem_Snapshot :: "mem_storage \<Rightarrow> goerr + (byte list \<times> nat)" where
  "mem_Snapshot m = Inl ErrSnapshotUnsupported"

definition mem_Restore :: "mem_storage \<Rightarrow> byte list \<Rightarrow> goerr option \<times> mem_storage" where
  "mem_Restore m data = (Some ErrSnapshotUnsupported, m)"

definition mem_SaveSnapshot :: "mem_storage \<Rightarrow> snapshot \<Rightarrow> goerr option \<times> mem_storage" where
  "mem_SaveSnapshot m snap = (None, m\<lparr>mem_snap := snap\<rparr>)"

definition mem_LoadSnapshot :: "mem_storage \<Rightarrow> goerr + snapshot" where
  "mem_LoadSnapshot m = Inr (mem_snap m)"

definition mem_ops :: "mem_storage storage_ops" where
  "mem_ops =
     \<lparr>op_Append = mem_Append, op_TruncateSuffix = mem_TruncateSuffix,
      op_Entries = mem_Entries, op_Term = mem_Term, op_FirstIndex = mem_FirstIndex,
      op_LastIndex = mem_LastIndex, op_SaveHardState = mem_SaveHardState,
      op_LoadHardState = mem_LoadHardState, op_Snapshot = mem_Snapshot,
      op_Restore = mem_Restore, op_SaveSnapshot = mem_SaveSnapshot,
      op_LoadSnapshot = mem_LoadSnapshot\<rparr>"

lemma mem_ops_sel [simp]:
  "op_Append mem_ops = mem_Append" "op_TruncateSuffix mem_ops = mem_TruncateSuffix"
  "op_Entries mem_ops = mem_Entries" "op_Term mem_ops = mem_Term"
  "op_FirstIndex mem_ops = mem_FirstIndex" "op_LastIndex mem_ops = mem_LastIndex"
  "op_SaveHardState mem_ops = mem_SaveHardState" "op_LoadHardState mem_ops = mem_LoadHardState"
  "op_Snapshot mem_ops = mem_Snapshot" "op_Restore mem_ops = mem_Restore"
  "op_SaveSnapshot mem_ops = mem_SaveSnapshot" "op_LoadSnapshot mem_ops = mem_LoadSnapshot"
  by (simp_all add: mem_ops_def)

lemmas mem_state_defs = mem_SaveHardState_def mem_LoadHardState_def mem_SaveSnapshot_def
  mem_LoadSnapshot_def mem_FirstIndex_def mem_LastIndex_def mem_Snapshot_def mem_Restore_def

definition mem_wf :: "mem_storage \<Rightarrow> bool" where
  "mem_wf m \<longleftrightarrow> contiguous_from 1 (mem_entries m) \<and> length (mem_entries m) + 1 < u64_size"

lemma mem_wf_New: "mem_wf mem_New"
  by (simp add: mem_wf_def mem_New_def)

text \<open>\<^verbatim>\<open>Append\<close>: accepted exactly when the batch continues the log.\<close>

lemma mem_Append_eq:
  assumes "mem_wf m" and "length (mem_entries m) + length es + 1 < u64_size"
  shows "mem_Append m es =
    (if contiguous_from (length (mem_entries m) + 1) es
     then (None, m\<lparr>mem_entries := mem_entries m @ es\<rparr>)
     else (Some (Wrapped ''memory storage: append'' ErrNonContiguous), m))"
proof (cases es)
  case Nil
  then show ?thesis by (simp add: mem_Append_def)
next
  case (Cons e es')
  have succ: "u64_succ (length (mem_entries m)) = length (mem_entries m) + 1"
    using assms(2) by (simp add: u64_succ_id)
  have "batch_contiguous es \<longleftrightarrow> contiguous_from (length (mem_entries m) + 1) es"
    if "ent_Index e = length (mem_entries m) + 1"
    using assms(2) that Cons by (intro batch_contiguous_iff) auto
  then show ?thesis
    using Cons succ by (auto simp: mem_Append_def Let_def)
qed

lemma mem_Entries_eq:
  "mem_wf m \<Longrightarrow> mem_Entries m lo hi =
     (if lo < 1 \<or> hi < lo then Inl ErrInvalidRange
      else if length (mem_entries m) + 1 < hi
        then Inl (Wrapped ''memory storage: hi > LastIndex+1'' ErrUnexpectedEOF)
      else Inr (take (hi - lo) (drop (lo - 1) (mem_entries m))))"
  by (auto simp: mem_Entries_def mem_wf_def Let_def u64_succ_id)

interpretation mem: reliable_storage mem_ops mem_entries mem_hs mem_snap mem_wf
proof (unfold_locales, goal_cases)
  case (2 s es r s')
  then show ?case
    by (auto simp: mem_Append_eq mem_wf_def contiguous_from_append split: if_splits)
next
  case (3 s "from" r s')
  then show ?case
    by (auto simp: mem_TruncateSuffix_def mem_wf_def Let_def contiguous_from_take split: if_splits)
next
  case (4 s lo hi es)
  then show ?case by (auto simp: mem_Entries_eq split: if_splits)
next
  case (11 s es)
  then show ?case by (simp add: mem_Append_eq)
next
  case (12 s "from")
  then show ?case by (simp add: mem_TruncateSuffix_def Let_def)
next
  case (13 s lo hi)
  then show ?case by (simp add: mem_Entries_eq)
qed (auto simp: mem_state_defs mem_wf_def)

end
