(* ===== verification/Raft_Demo.thy ===== *)
theory Raft_Demo
  imports Raft_Node Storage_Memory "HOL-Library.Code_Target_Nat"
begin

text \<open>
  Concrete nodes over memory stores with the default configuration: the inputs at which the
  theorems are applied. Natural numbers are evaluated in binary.
\<close>

definition abc :: "nodeid list" where
  "abc = [''a'', ''b'', ''c'']"

definition demo_cfg :: "nodeid list \<Rightarrow> nodeid \<Rightarrow> config" where
  "demo_cfg peers i =
     \<lparr>cfg_NodeID = i, cfg_Peers = peers, cfg_ElectionTimeoutMin = 0, cfg_ElectionTimeoutMax = 0,
      cfg_HeartbeatInterval = 0, cfg_Seed = 1, cfg_Clock = None, cfg_hasStorage = True,
      cfg_hasTransport = True, cfg_hasStateMachine = True, cfg_StopTimeout = 0,
      cfg_SnapshotInterval = 0, cfg_Logger = None\<rparr>"

text \<open>The node \<^verbatim>\<open>newNode\<close> builds over a store, the generator returning its least draw.\<close>

definition demo_node :: "nodeid list \<Rightarrow> mem_storage \<Rightarrow> nodeid \<Rightarrow> mem_storage node" where
  "demo_node peers s i =
     \<lparr>n_id = i, n_peers = sort peers, n_currentTerm = hs_CurrentTerm (mem_hs s),
      n_votedFor = hs_VotedFor (mem_hs s), n_role = Follower, n_log = \<lparr>l_entries = mem_entries s\<rparr>,
      n_commitIndex = hs_Commit (mem_hs s), n_leaderHint = '''', n_lastHeartbeat = 0,
      n_nextIndex = [], n_matchIndex = [], n_votesReceived = None, n_rng = [],
      n_electionTimeout = 3, n_electionElapsed = 0, n_heartbeatElapsed = 0, n_heartbeatTimeout = 0,
      n_stepDownEpoch = 0, n_pendingMsgs = [], n_pendingHS = None, n_notifyC = False,
      n_storage = s, n_cfg = applyDefaults (demo_cfg peers i), n_started = True,
      n_onElectionTrigger = True\<rparr>"

lemma restore_demo:
  assumes "mem_wf s" and "n_storage n = s" and "n_log n = empty_log"
  shows "restoreLogFromStorage mem_ops n = Inr (n\<lparr>n_log := \<lparr>l_entries = mem_entries s\<rparr>\<rparr>)"
proof -
  have "u64_succ (length (mem_entries s)) = length (mem_entries s) + 1"
    using assms(1) by (simp add: mem_wf_def u64_succ_id)
  moreover note mem.last_eq [OF assms(1)] mem.first_eq [OF assms(1)]
    mem.entries_eq [OF assms(1), of 1 "length (mem_entries s) + 1"]
  moreover have "n\<lparr>n_log := \<lparr>l_entries = []\<rparr>\<rparr> = n" using assms(3) by (simp add: empty_log_def)
  ultimately show ?thesis
    unfolding restoreLogFromStorage_def assms(2)
    by (auto simp: Append_def assms(3) empty_log_def simp del: mem_ops_sel)
qed

lemma newNode_demo:
  assumes "i \<in> set peers" and "odd (length peers)" and "i \<noteq> ''''" and "mem_wf s"
  shows "newNode mem_ops (\<lambda>_. []) 0 (demo_cfg peers i) s = Some (Inr (demo_node peers s i))"
proof -
  have "Validate (applyDefaults (demo_cfg peers i)) = None"
    using assms by (simp add: Validate_None_iff demo_cfg_def s64_wrap_def)
  then show ?thesis
    using assms(4)
    by (simp add: newNode_def mem_state_defs restore_demo resetElectionTimeoutLocked_def tickInterval_def
          Let_def demo_node_def demo_cfg_def go_div_def)
qed

end
