(* ===== verification/Raft_Node_Votes.thy ===== *)
theory Raft_Node_Votes
  imports Raft_Demo
begin

text \<open>
  What every entry point of the core does to the term, the vote, the tally and the two
  outbound buffers. \<open>evolves\<close> is the summary, proved once per handler; the voting
  properties of one node and of the cluster rest on it.
\<close>

section \<open>Batches of queued messages\<close>

definition queue_all :: "'s node \<Rightarrow> message list \<Rightarrow> 's node" where
  "queue_all n ms =
     n\<lparr>n_pendingMsgs := n_pendingMsgs n @ map (\<lambda>m. \<lparr>pm_epoch = n_stepDownEpoch n, pm_msg = m\<rparr>) ms\<rparr>"

lemma queue_all_Nil [simp]: "queue_all n [] = n"
  by (simp add: queue_all_def)

lemma queue_all_queue_all [simp]: "queue_all (queue_all n ms) ms' = queue_all n (ms @ ms')"
  by (simp add: queue_all_def)

lemma queueMsgLocked_queue_all: "queueMsgLocked n m = queue_all n [m]"
  by (simp add: queue_all_def queueMsgLocked_def)

lemma queue_all_sel [simp]:
  "n_id (queue_all n ms) = n_id n" "n_peers (queue_all n ms) = n_peers n"
  "n_currentTerm (queue_all n ms) = n_currentTerm n" "n_votedFor (queue_all n ms) = n_votedFor n"
  "n_role (queue_all n ms) = n_role n" "n_log (queue_all n ms) = n_log n"
  "n_commitIndex (queue_all n ms) = n_commitIndex n"
  "n_nextIndex (queue_all n ms) = n_nextIndex n" "n_matchIndex (queue_all n ms) = n_matchIndex n"
  "n_votesReceived (queue_all n ms) = n_votesReceived n"
  "n_stepDownEpoch (queue_all n ms) = n_stepDownEpoch n" "n_pendingHS (queue_all n ms) = n_pendingHS n"
  "n_storage (queue_all n ms) = n_storage n" "n_cfg (queue_all n ms) = n_cfg n"
  "n_started (queue_all n ms) = n_started n" "n_rng (queue_all n ms) = n_rng n"
  "n_electionTimeout (queue_all n ms) = n_electionTimeout n"
  "n_electionElapsed (queue_all n ms) = n_electionElapsed n"
  "n_heartbeatElapsed (queue_all n ms) = n_heartbeatElapsed n"
  "n_heartbeatTimeout (queue_all n ms) = n_heartbeatTimeout n"
  "n_leaderHint (queue_all n ms) = n_leaderHint n"
  "n_lastHeartbeat (queue_all n ms) = n_lastHeartbeat n" "n_notifyC (queue_all n ms) = n_notifyC n"
  "n_onElectionTrigger (queue_all n ms) = n_onElectionTrigger n"
  "n_pendingMsgs (queue_all n ms) =
     n_pendingMsgs n @ map (\<lambda>m. \<lparr>pm_epoch = n_stepDownEpoch n, pm_msg = m\<rparr>) ms"
  by (simp_all add: queue_all_def)

text \<open>The AppendEntries request the leader builds for a peer.\<close>

definition is_ae_from :: "'s node \<Rightarrow> message \<Rightarrow> bool" where
  "is_ae_from n m \<longleftrightarrow> m_Type m = MsgAppendEntries \<and> m_Term m = n_currentTerm n \<and> m_From m = n_id n"

lemma sendAppendEntriesLocked_frame:
  "sendAppendEntriesLocked n peer = Some n' \<Longrightarrow>
   \<exists>m. n' = queue_all n [m] \<and> is_ae_from n m"
  by (auto simp: sendAppendEntriesLocked_def queueMsgLocked_queue_all is_ae_from_def Let_def
                 Option.bind_eq_Some_conv)

lemma fanOutAppendEntries_frame:
  assumes "fanOutAppendEntries n = Some n'"
  shows "\<exists>ms. n' = queue_all n ms \<and> (\<forall>m \<in> set ms. is_ae_from n m)"
proof (rule fold_opt_preserves [OF assms [unfolded fanOutAppendEntries_def]])
  show "\<exists>ms. n = queue_all n ms \<and> (\<forall>m \<in> set ms. is_ae_from n m)"
    by (rule exI [of _ "[]"]) simp
next
  fix peer n1 n2
  assume "\<exists>ms. n1 = queue_all n ms \<and> (\<forall>m \<in> set ms. is_ae_from n m)"
  then obtain ms where ms: "n1 = queue_all n ms" "\<forall>m \<in> set ms. is_ae_from n m" by blast
  assume step: "(if peer = n_id n1 then Some n1 else sendAppendEntriesLocked n1 peer) = Some n2"
  show "\<exists>ms. n2 = queue_all n ms \<and> (\<forall>m \<in> set ms. is_ae_from n m)"
  proof (cases "peer = n_id n1")
    case True
    with step ms show ?thesis by auto
  next
    case False
    with step obtain m where "n2 = queue_all n1 [m]" "is_ae_from n1 m"
      using sendAppendEntriesLocked_frame by fastforce
    with ms show ?thesis
      by (intro exI [of _ "ms @ [m]"]) (auto simp: is_ae_from_def)
  qed
qed

text \<open>The RequestVote request of a candidate.\<close>

definition rv_message :: "'s node \<Rightarrow> nodeid \<Rightarrow> message" where
  "rv_message n peer =
     zero_message\<lparr>m_Type := MsgRequestVote, m_Term := n_currentTerm n, m_From := n_id n,
       m_To := peer, m_LastLogIndex := LastIndex (n_log n), m_LastLogTerm := LastTerm (n_log n)\<rparr>"

lemma fanOutRequestVote_eq:
  "fanOutRequestVote n = queue_all n (map (rv_message n) (filter (\<lambda>p. p \<noteq> n_id n) (n_peers n)))"
proof -
  have "fold (\<lambda>peer n. if peer = n_id n then n else queueMsgLocked n (rv_message n peer)) ps n =
        queue_all n (map (rv_message n) (filter (\<lambda>p. p \<noteq> n_id n) ps))" for ps
  proof (induction ps arbitrary: n)
    case Nil
    then show ?case by simp
  next
    case (Cons p ps)
    have "rv_message (queue_all n ms) = rv_message n" for ms
      by (simp add: rv_message_def fun_eq_iff)
    with Cons.IH show ?case by (simp add: queueMsgLocked_queue_all)
  qed
  then show ?thesis
    unfolding fanOutRequestVote_def rv_message_def [symmetric] .
qed

lemma resetElectionTimeoutLocked_frame:
  "resetElectionTimeoutLocked n = Some n' \<Longrightarrow>
   \<exists>r t. n' = n\<lparr>n_rng := r, n_electionTimeout := t, n_electionElapsed := 0\<rparr>"
  by (auto simp: resetElectionTimeoutLocked_def Let_def split: if_splits prod.splits)

lemma becomeLeaderLocked_frame:
  "becomeLeaderLocked n = Some n' \<Longrightarrow>
   \<exists>ni mi ms. n' = queue_all (n\<lparr>n_role := Leader, n_leaderHint := n_id n, n_nextIndex := ni,
       n_matchIndex := mi, n_heartbeatElapsed := 0, n_heartbeatTimeout := 1\<rparr>) ms \<and>
     (\<forall>m \<in> set ms. is_ae_from n m)"
  unfolding becomeLeaderLocked_def Let_def
  by (drule fanOutAppendEntries_frame) (fastforce simp: is_ae_from_def)

lemma maybeAdvanceCommitLocked_frame:
  "maybeAdvanceCommitLocked n = Some n' \<Longrightarrow>
   n' = n \<or> (\<exists>c > n_commitIndex n. n' = notifyProgressLocked (queueHardStateLocked (n\<lparr>n_commitIndex := c\<rparr>)))"
  by (auto simp: maybeAdvanceCommitLocked_def Let_def Option.bind_eq_Some_conv not_le split: if_splits)

section \<open>The summary of a step\<close>

text \<open>
  \<open>tv_le\<close> orders the states of a voter: the term grows, or stays and a vote already cast
  stays. \<open>vote_of\<close> reads the vote a message carries: a request for votes tells of the
  candidate's vote for itself, a granting response of the vote it grants.
\<close>

definition tv :: "'s node \<Rightarrow> nat \<times> nodeid" where
  "tv n = (n_currentTerm n, n_votedFor n)"

definition hs_tv :: "hardstate \<Rightarrow> nat \<times> nodeid" where
  "hs_tv hs = (hs_CurrentTerm hs, hs_VotedFor hs)"

definition tv_le :: "nat \<times> nodeid \<Rightarrow> nat \<times> nodeid \<Rightarrow> bool" where
  "tv_le a b \<longleftrightarrow> fst a < fst b \<or> fst a = fst b \<and> (snd a = '''' \<or> snd a = snd b)"

lemma tv_le_refl [simp]: "tv_le a a"
  by (simp add: tv_le_def)

lemma tv_le_trans: "tv_le a b \<Longrightarrow> tv_le b c \<Longrightarrow> tv_le a c"
  by (auto simp: tv_le_def)

lemma tv_le_unique: "tv_le (t, v) b \<Longrightarrow> tv_le b (t, w) \<Longrightarrow> v \<noteq> '''' \<Longrightarrow> v = w"
  by (auto simp: tv_le_def)

definition vote_of :: "message \<Rightarrow> (nat \<times> nodeid) option" where
  "vote_of m =
     (if m_Type m = MsgRequestVote then Some (m_Term m, m_From m)
      else if m_Type m = MsgRequestVoteResponse \<and> m_VoteGranted m then Some (m_Term m, m_To m)
      else None)"

definition hs_of :: "'s node \<Rightarrow> hardstate" where
  "hs_of n = \<lparr>hs_CurrentTerm = n_currentTerm n, hs_VotedFor = n_votedFor n, hs_Commit = n_commitIndex n\<rparr>"

lemma queueHardStateLocked_eq: "queueHardStateLocked n = n\<lparr>n_pendingHS := Some (hs_of n)\<rparr>"
  by (simp add: queueHardStateLocked_def hs_of_def)

lemma hs_tv_hs_of [simp]: "hs_tv (hs_of n) = tv n"
  by (simp add: hs_tv_def hs_of_def tv_def)

definition voters :: "'s node \<Rightarrow> nodeid set" where
  "voters n = (case n_votesReceived n of None \<Rightarrow> {} | Some votes \<Rightarrow> fst ` set votes)"

text \<open>
  A node that is not a follower has voted for itself, a candidate has a vote map, and
  its keys are distinct (it is a map).
\<close>

definition cand_ok :: "'s node \<Rightarrow> bool" where
  "cand_ok n \<longleftrightarrow>
     n_id n \<noteq> '''' \<and>
     (n_role n \<noteq> Follower \<longrightarrow> n_votedFor n = n_id n) \<and>
     (n_role n = Candidate \<longrightarrow> n_votesReceived n \<noteq> None) \<and>
     (\<forall>votes. n_votesReceived n = Some votes \<longrightarrow> distinct (map fst votes))"

text \<open>The voters a tally may gain from one message, and the tally it starts from.\<close>

definition grants_to :: "'s node \<Rightarrow> message \<Rightarrow> nodeid set" where
  "grants_to n m =
     (if m_Type m = MsgRequestVoteResponse \<and> m_VoteGranted m \<and> m_Term m = n_currentTerm n
      then {m_From m} else {})"

definition tally_before :: "'s node \<Rightarrow> 's node \<Rightarrow> nodeid set" where
  "tally_before n n' =
     (if n_role n = Candidate \<and> n_currentTerm n = n_currentTerm n' then voters n else {})"

definition still_leader :: "'s node \<Rightarrow> 's node \<Rightarrow> bool" where
  "still_leader n n' \<longleftrightarrow>
     n_role n = Leader \<and> n_role n' = Leader \<and> n_currentTerm n = n_currentTerm n'"

definition same_identity :: "'s node \<Rightarrow> 's node \<Rightarrow> bool" where
  "same_identity n n' \<longleftrightarrow>
     n_id n' = n_id n \<and> n_peers n' = n_peers n \<and> n_cfg n' = n_cfg n \<and> n_started n' = n_started n"

definition queues_only :: "message \<Rightarrow> 's node \<Rightarrow> 's node \<Rightarrow> bool" where
  "queues_only msg n n' \<longleftrightarrow>
     (\<exists>ms. n_pendingMsgs n' =
             n_pendingMsgs n @ map (\<lambda>m. \<lparr>pm_epoch = n_stepDownEpoch n', pm_msg = m\<rparr>) ms \<and>
           (\<forall>m \<in> set ms. m_From m = n_id n \<and> m_Term m = n_currentTerm n' \<and>
              (\<forall>tc. vote_of m = Some tc \<longrightarrow>
                 tc = tv n' \<and>
                 (if m_Type m = MsgRequestVote then n_votedFor n' = n_id n
                  else m_Type msg = MsgRequestVote \<and> n_votedFor n' = m_From msg \<and>
                    m_Term msg = n_currentTerm n'))))"

definition keeps_hs :: "'s node \<Rightarrow> 's node \<Rightarrow> bool" where
  "keeps_hs n n' \<longleftrightarrow>
     n_pendingHS n' = Some (hs_of n') \<or> n_pendingHS n' = n_pendingHS n \<and> hs_of n' = hs_of n"

definition counts_votes :: "message \<Rightarrow> 's node \<Rightarrow> 's node \<Rightarrow> bool" where
  "counts_votes m n n' \<longleftrightarrow>
     (n_role n' \<noteq> Follower \<and> \<not> still_leader n n' \<longrightarrow>
        voters n' \<subseteq> insert (n_id n) (tally_before n n' \<union> grants_to n' m)) \<and>
     (n_role n' = Leader \<and> \<not> still_leader n n' \<longrightarrow> quorum n' \<le> card (voters n'))"

definition evolves :: "message \<Rightarrow> 's node \<Rightarrow> 's node \<Rightarrow> bool" where
  "evolves m n n' \<longleftrightarrow>
     same_identity n n' \<and> tv_le (tv n) (tv n') \<and> queues_only m n n' \<and> keeps_hs n n' \<and>
     (cand_ok n \<longrightarrow> cand_ok n' \<and> counts_votes m n n')"

lemmas evolves_defs = evolves_def same_identity_def queues_only_def keeps_hs_def counts_votes_def
  cand_ok_def still_leader_def tally_before_def

text \<open>Steps that only queue messages without a vote and refresh the HardState.\<close>

lemma quiet_evolves:
  assumes "same_identity n n'" and "tv n' = tv n" and "keeps_hs n n'"
    and "n_pendingMsgs n' =
         n_pendingMsgs n @ map (\<lambda>m. \<lparr>pm_epoch = n_stepDownEpoch n', pm_msg = m\<rparr>) ms"
    and "n_role n' = n_role n" and "n_votesReceived n' = n_votesReceived n"
    and "\<forall>m \<in> set ms. m_From m = n_id n \<and> m_Term m = n_currentTerm n \<and> vote_of m = None"
  shows "evolves m n n'"
proof -
  have "queues_only m n n'"
    unfolding queues_only_def by (rule exI [of _ ms]) (use assms in \<open>auto simp: tv_def\<close>)
  moreover have "voters n' = voters n"
    using assms(6) by (simp add: voters_def)
  then have "counts_votes m n n'"
    using assms(2,5)
    by (cases "n_role n") (auto simp: counts_votes_def still_leader_def tally_before_def tv_def)
  moreover have "cand_ok n \<Longrightarrow> cand_ok n'"
    using assms(1,2,5,6) by (simp add: cand_ok_def tv_def same_identity_def)
  ultimately show ?thesis
    using assms(1-3) by (simp add: evolves_def)
qed

lemmas quiet_evolves_0 = quiet_evolves [where ms = "[]", simplified]

lemmas quiet_simps = same_identity_def tv_def keeps_hs_def notifyProgressLocked_def
  queueHardStateLocked_eq hs_of_def

lemma is_ae_from_vote: "is_ae_from n m \<Longrightarrow> m_From m = n_id n \<and> m_Term m = n_currentTerm n \<and> vote_of m = None"
  by (simp add: is_ae_from_def vote_of_def)

lemma maybeAdvanceCommitLocked_evolves:
  "maybeAdvanceCommitLocked n = Some n' \<Longrightarrow> evolves m n n'"
  by (drule maybeAdvanceCommitLocked_frame, rule quiet_evolves_0) (auto simp: quiet_simps)

lemma fanOut_commit_evolves:
  assumes "fanOutAppendEntries n = Some n1" and "maybeAdvanceCommitLocked n1 = Some n'"
  shows "evolves m n n'"
proof -
  obtain ms where ms: "n1 = queue_all n ms" "\<forall>m \<in> set ms. is_ae_from n m"
    using fanOutAppendEntries_frame [OF assms(1)] by blast
  show ?thesis
    by (rule quiet_evolves [where ms = ms])
       (use maybeAdvanceCommitLocked_frame [OF assms(2)] ms in \<open>auto simp: quiet_simps dest: is_ae_from_vote\<close>)
qed

lemma maybeStepDownLocked_evolves:
  assumes "evolves m (maybeStepDownLocked n t) n'"
  shows "evolves m n n'"
proof (cases "t \<le> n_currentTerm n")
  case True
  with assms show ?thesis by (simp add: maybeStepDownLocked_def)
next
  case False
  define n1 where "n1 = maybeStepDownLocked n t"
  have n1: "n_id n1 = n_id n" "n_peers n1 = n_peers n" "n_cfg n1 = n_cfg n"
    "n_started n1 = n_started n" "n_currentTerm n1 = t" "n_votedFor n1 = ''''"
    "n_role n1 = Follower" "n_votesReceived n1 = None" "n_pendingMsgs n1 = n_pendingMsgs n"
    "n_pendingHS n1 = Some (hs_of n1)"
    using False by (simp_all add: n1_def maybeStepDownLocked_def queueHardStateLocked_eq hs_of_def)
  have ev: "evolves m n1 n'" using assms by (simp add: n1_def)
  have "n_currentTerm n < n_currentTerm n'"
    using ev False by (auto simp: evolves_def tv_le_def tv_def n1)
  then have "counts_votes m n1 n' \<Longrightarrow> counts_votes m n n'"
    by (simp add: counts_votes_def still_leader_def tally_before_def n1)
  moreover have "cand_ok n \<Longrightarrow> cand_ok n1" by (simp add: cand_ok_def n1)
  moreover have "tv_le (tv n) (tv n1)" using False by (simp add: tv_le_def tv_def n1)
  then have "tv_le (tv n) (tv n')" using ev unfolding evolves_def by (blast intro: tv_le_trans)
  moreover have "queues_only m n1 n'" using ev by (simp add: evolves_def)
  then have "queues_only m n n'" unfolding queues_only_def n1 .
  moreover have "keeps_hs n n'" using ev by (auto simp: evolves_def keeps_hs_def n1)
  moreover have "same_identity n n'" using ev by (simp add: evolves_def same_identity_def n1)
  ultimately show ?thesis using ev by (simp add: evolves_def)
qed

section \<open>The summary, handler by handler\<close>

text \<open>The fields \<open>evolves\<close> does not read.\<close>

lemma evolves_update [simp]:
  "evolves m (n\<lparr>n_heartbeatElapsed := h\<rparr>) n' = evolves m n n'"
  "evolves m (n\<lparr>n_electionElapsed := h\<rparr>) n' = evolves m n n'"
  "evolves m (n\<lparr>n_lastHeartbeat := h\<rparr>) n' = evolves m n n'"
  "evolves m (n\<lparr>n_leaderHint := p\<rparr>) n' = evolves m n n'"
  "evolves m (n\<lparr>n_log := l\<rparr>) n' = evolves m n n'"
  "evolves m (n\<lparr>n_storage := s\<rparr>) n' = evolves m n n'"
  "evolves m (n\<lparr>n_matchIndex := mi\<rparr>) n' = evolves m n n'"
  "evolves m (n\<lparr>n_nextIndex := mi\<rparr>) n' = evolves m n n'"
  "evolves m (n\<lparr>n_notifyC := c\<rparr>) n' = evolves m n n'"
  by (simp_all add: evolves_defs voters_def tv_def hs_of_def)

lemma evolves_refl [simp]: "evolves m n n"
  by (rule quiet_evolves_0) (simp_all add: same_identity_def keeps_hs_def)

lemma tickLeaderLocked_evolves: "tickLeaderLocked n = Some n' \<Longrightarrow> evolves m n n'"
  by (auto simp: tickLeaderLocked_def Let_def Option.bind_eq_Some_conv quiet_simps
           split: if_splits intro: quiet_evolves_0 dest: fanOut_commit_evolves [where m = m])

lemma broadcastAppendEntriesLocked_evolves:
  "broadcastAppendEntriesLocked n = Some n' \<Longrightarrow> evolves m n n'"
  by (auto simp: broadcastAppendEntriesLocked_def Option.bind_eq_Some_conv
           dest: fanOut_commit_evolves [where m = m])

lemma proposeLocked_frame:
  "proposeLocked ops n data = Some (r, n') \<Longrightarrow>
   n' = n\<lparr>n_log := n_log n', n_storage := n_storage n', n_matchIndex := n_matchIndex n'\<rparr>"
  by (auto simp: proposeLocked_def Let_def Option.bind_eq_Some_conv
           split: if_splits prod.splits option.splits)

lemma proposeLocked_shape:
  assumes "proposeLocked ops n data = Some (r, n')"
  obtains l s mi where "n' = n\<lparr>n_log := l, n_storage := s, n_matchIndex := mi\<rparr>"
  using that proposeLocked_frame [OF assms] .

lemma proposeLocked_evolves:
  assumes "proposeLocked ops n data = Some (r, n')"
  shows "evolves m n n'"
  using assms
  by (rule proposeLocked_shape) (rule quiet_evolves_0, simp_all add: quiet_simps)

lemma propose_broadcast_evolves:
  assumes "proposeLocked ops n data = Some (r, n1)" and "broadcastAppendEntriesLocked n1 = Some n'"
  shows "evolves m n n'"
  using assms(1)
  by (rule proposeLocked_shape) (use broadcastAppendEntriesLocked_evolves [OF assms(2), of m] in simp)

lemma handleAppendEntriesRespLocked_evolves:
  assumes "handleAppendEntriesRespLocked n msg = Some n'"
  shows "evolves m n n'"
proof -
  have "evolves m n (n\<lparr>n_nextIndex := ni\<rparr>)" for ni
    by (rule quiet_evolves_0) (simp_all add: quiet_simps)
  moreover have "evolves m n n1"
    if "maybeAdvanceCommitLocked (notifyProgressLocked (n\<lparr>n_matchIndex := mi, n_nextIndex := ni\<rparr>)) = Some n1"
    for mi ni n1
    using maybeAdvanceCommitLocked_evolves [OF that, of m] by (simp add: notifyProgressLocked_def)
  ultimately show ?thesis
    using assms by (auto simp: handleAppendEntriesRespLocked_def split: if_splits)
qed

lemma mirrorLogWriteLocked_frame:
  "mirrorLogWriteLocked ops n from suffix = (err, n') \<Longrightarrow> \<exists>s. n' = n\<lparr>n_storage := s\<rparr>"
  by (auto simp: mirrorLogWriteLocked_def split: prod.splits option.splits)

lemma writeEntriesLocked_frame:
  assumes "writeEntriesLocked ops n es = Some (err, n')"
  shows "\<exists>l s. n' = n\<lparr>n_log := l, n_storage := s\<rparr>"
proof -
  have "n' = n \<or> (\<exists>l c suf. mirrorLogWriteLocked ops (n\<lparr>n_log := l\<rparr>) c suf = (err, n'))"
    using assms by (auto simp: writeEntriesLocked_def Let_def Option.bind_eq_Some_conv split: if_splits)
  then show ?thesis
  proof
    assume "n' = n"
    then show ?thesis by (intro exI [of _ "n_log n"] exI [of _ "n_storage n"]) simp
  next
    assume "\<exists>l c suf. mirrorLogWriteLocked ops (n\<lparr>n_log := l\<rparr>) c suf = (err, n')"
    then show ?thesis by (blast dest: mirrorLogWriteLocked_frame)
  qed
qed

lemma replyAppendEntriesLocked_evolves:
  "evolves m n (replyAppendEntriesLocked n1 p ok mi)"
  if "same_identity n n1" "tv n1 = tv n" "keeps_hs n n1" "n_pendingMsgs n1 = n_pendingMsgs n"
    "n_role n1 = n_role n" "n_votesReceived n1 = n_votesReceived n"
  by (rule quiet_evolves [where ms = "[zero_message\<lparr>m_Type := MsgAppendEntriesResp,
        m_Term := n_currentTerm n1, m_From := n_id n1, m_To := p, m_Success := ok, m_MatchIndex := mi\<rparr>]"])
     (use that in \<open>simp_all add: replyAppendEntriesLocked_def queueMsgLocked_def quiet_simps vote_of_def\<close>)

text \<open>The receiver after its heartbeat bookkeeping, and the two ways it can go on.\<close>

definition heard :: "'s node \<Rightarrow> message \<Rightarrow> 's node" where
  "heard n m = n\<lparr>n_electionElapsed := 0, n_lastHeartbeat := 0, n_leaderHint := m_From m\<rparr>"

lemma handleAppendEntriesLocked_cases:
  assumes "handleAppendEntriesLocked ops n msg = Some n'"
  obtains (early) n1 where "n1 = n \<or> n1 = heard n msg" "n' = replyAppendEntriesLocked n1 (m_From msg) False 0"
    | (failed) err n1 where "writeEntriesLocked ops (heard n msg) (m_Entries msg) = Some (err, n1)"
        "n' = replyAppendEntriesLocked n1 (m_From msg) False 0"
    | (written) n1 n2 i where "writeEntriesLocked ops (heard n msg) (m_Entries msg) = Some (None, n1)"
        "n2 = n1 \<or> (\<exists>c. n2 = queueHardStateLocked (n1\<lparr>n_commitIndex := c\<rparr>))"
        "n' = replyAppendEntriesLocked n2 (m_From msg) True i"
  using assms unfolding handleAppendEntriesLocked_def heard_def [symmetric] Let_def
  by (auto simp: Option.bind_eq_Some_conv split: if_splits) blast+

lemma handleAppendEntriesLocked_evolves:
  assumes "handleAppendEntriesLocked ops n msg = Some n'"
  shows "evolves m n n'"
  using assms
proof (cases rule: handleAppendEntriesLocked_cases)
  case early
  then show ?thesis
    by (auto simp: heard_def intro!: replyAppendEntriesLocked_evolves simp: quiet_simps)
next
  case failed
  then show ?thesis
    using writeEntriesLocked_frame [OF failed(1)]
    by (auto simp: heard_def intro!: replyAppendEntriesLocked_evolves simp: quiet_simps)
next
  case written
  then show ?thesis
    using writeEntriesLocked_frame [OF written(1)]
    by (auto simp: heard_def intro!: replyAppendEntriesLocked_evolves simp: quiet_simps)
qed

lemma canGrantVote_vote: "canGrantVote n m \<Longrightarrow> n_votedFor n = '''' \<or> n_votedFor n = m_From m"
  by (auto simp: canGrantVote_def split: if_splits)

lemma handleRequestVoteLocked_frame:
  assumes "handleRequestVoteLocked n msg = Some n'"
  shows "\<exists>r t e hs.
     n' = queue_all (n\<lparr>n_votedFor := if canGrantVote n msg then m_From msg else n_votedFor n,
                       n_rng := r, n_electionTimeout := t, n_electionElapsed := e, n_pendingHS := hs\<rparr>)
            [zero_message\<lparr>m_Type := MsgRequestVoteResponse, m_Term := n_currentTerm n,
               m_From := n_id n, m_To := m_From msg, m_VoteGranted := canGrantVote n msg\<rparr>] \<and>
     (if canGrantVote n msg then hs = Some (hs_of (n\<lparr>n_votedFor := m_From msg\<rparr>))
      else hs = n_pendingHS n)"
proof (cases "canGrantVote n msg")
  case True
  obtain n1 where n1: "resetElectionTimeoutLocked (n\<lparr>n_votedFor := m_From msg\<rparr>) = Some n1"
    and n': "n' = queueMsgLocked (queueHardStateLocked n1)
      (zero_message\<lparr>m_Type := MsgRequestVoteResponse, m_Term := n_currentTerm n1,
         m_From := n_id n1, m_To := m_From msg, m_VoteGranted := True\<rparr>)"
    using assms True
    by (auto simp: handleRequestVoteLocked_def Option.bind_eq_Some_conv queueHardStateLocked_eq)
  obtain r t where "n1 = n\<lparr>n_votedFor := m_From msg, n_rng := r, n_electionTimeout := t, n_electionElapsed := 0\<rparr>"
    using resetElectionTimeoutLocked_frame [OF n1] by auto
  with n' True show ?thesis
    by (intro exI [of _ r] exI [of _ t] exI [of _ 0] exI [of _ "n_pendingHS n'"])
       (simp add: queueMsgLocked_queue_all queueHardStateLocked_eq hs_of_def)
next
  case False
  with assms show ?thesis
    by (intro exI [of _ "n_rng n"] exI [of _ "n_electionTimeout n"] exI [of _ "n_electionElapsed n"]
              exI [of _ "n_pendingHS n"])
       (simp add: handleRequestVoteLocked_def queueMsgLocked_queue_all)
qed

lemma handleRequestVoteLocked_evolves:
  assumes "handleRequestVoteLocked n msg = Some n'" and "m_Type msg = MsgRequestVote"
    and "m_Term msg \<le> n_currentTerm n"
  shows "evolves msg n n'"
proof (cases "canGrantVote n msg")
  case True
  define g where "g = zero_message\<lparr>m_Type := MsgRequestVoteResponse, m_Term := n_currentTerm n,
     m_From := n_id n, m_To := m_From msg, m_VoteGranted := True\<rparr>"
  obtain r t e where n': "n' = queue_all (n\<lparr>n_votedFor := m_From msg, n_rng := r, n_electionTimeout := t,
      n_electionElapsed := e, n_pendingHS := Some (hs_of (n\<lparr>n_votedFor := m_From msg\<rparr>))\<rparr>) [g]"
    using handleRequestVoteLocked_frame [OF assms(1)] True by (auto simp: g_def)
  have "queues_only msg n n'"
    unfolding queues_only_def
    using True assms(2,3)
    by (intro exI [of _ "[g]"]) (auto simp: n' g_def vote_of_def tv_def canGrantVote_def split: if_splits)
  moreover have "tv_le (tv n) (tv n')"
    using canGrantVote_vote [OF True] by (auto simp: n' tv_le_def tv_def)
  moreover have "voters n' = voters n" by (simp add: n' voters_def)
  then have "counts_votes msg n n'"
    by (cases "n_role n") (auto simp: n' counts_votes_def still_leader_def tally_before_def)
  moreover have "cand_ok n \<Longrightarrow> cand_ok n'"
    using canGrantVote_vote [OF True] by (auto simp: n' cand_ok_def)
  ultimately show ?thesis
    by (simp add: evolves_def) (simp add: n' same_identity_def keeps_hs_def hs_of_def)
next
  case False
  define g where "g = zero_message\<lparr>m_Type := MsgRequestVoteResponse, m_Term := n_currentTerm n,
     m_From := n_id n, m_To := m_From msg, m_VoteGranted := False\<rparr>"
  obtain r t e where n': "n' = queue_all (n\<lparr>n_votedFor := n_votedFor n, n_rng := r, n_electionTimeout := t,
      n_electionElapsed := e, n_pendingHS := n_pendingHS n\<rparr>) [g]"
    using handleRequestVoteLocked_frame [OF assms(1)] False by (auto simp: g_def)
  show ?thesis
    by (rule quiet_evolves [where ms = "[g]"]) (simp_all add: n' g_def vote_of_def quiet_simps)
qed

text \<open>What starting an election leaves behind, also when the node elects itself.\<close>

definition campaigned :: "'s node \<Rightarrow> 's node \<Rightarrow> bool" where
  "campaigned n n' \<longleftrightarrow>
     same_identity n n' \<and> n_currentTerm n' = u64_succ (n_currentTerm n) \<and> n_votedFor n' = n_id n \<and>
     n_role n' = (if quorum n \<le> 1 then Leader else Candidate) \<and>
     n_votesReceived n' = Some [(n_id n, True)] \<and> n_pendingHS n' = Some (hs_of n') \<and>
     n_stepDownEpoch n' = n_stepDownEpoch n \<and> n_commitIndex n' = n_commitIndex n \<and>
     n_log n' = n_log n \<and> n_storage n' = n_storage n \<and> n_electionElapsed n' = 0 \<and>
     (\<exists>ms. n_pendingMsgs n' =
             n_pendingMsgs n @ map (\<lambda>m. \<lparr>pm_epoch = n_stepDownEpoch n, pm_msg = m\<rparr>)
               (map (rv_message n') (filter (\<lambda>p. p \<noteq> n_id n) (n_peers n)) @ ms) \<and>
           (\<forall>m \<in> set ms. is_ae_from n' m))"

lemma becomeCandidateLocked_campaigned:
  assumes "becomeCandidateLocked n = Some n'"
  shows "campaigned n n'"
proof -
  define n0 where "n0 = n\<lparr>n_role := Candidate, n_currentTerm := u64_succ (n_currentTerm n),
    n_votedFor := n_id n, n_leaderHint := '''', n_votesReceived := Some [(n_id n, True)]\<rparr>"
  obtain n1 where n1: "resetElectionTimeoutLocked n0 = Some n1"
    and n': "(if votes_count (fanOutRequestVote (queueHardStateLocked n1)) \<ge>
                 quorum (fanOutRequestVote (queueHardStateLocked n1))
              then becomeLeaderLocked (fanOutRequestVote (queueHardStateLocked n1))
              else Some (fanOutRequestVote (queueHardStateLocked n1))) = Some n'"
    using assms unfolding becomeCandidateLocked_def n0_def Let_def by (auto simp: Option.bind_eq_Some_conv)
  obtain r t where n1_eq: "n1 = n0\<lparr>n_rng := r, n_electionTimeout := t, n_electionElapsed := 0\<rparr>"
    using resetElectionTimeoutLocked_frame [OF n1] by blast
  define n2 where "n2 = fanOutRequestVote (queueHardStateLocked n1)"
  have n2_eq: "n2 = queue_all (n1\<lparr>n_pendingHS := Some (hs_of n1)\<rparr>)
      (map (rv_message n1) (filter (\<lambda>p. p \<noteq> n_id n) (n_peers n)))"
    by (simp add: n2_def fanOutRequestVote_eq queueHardStateLocked_eq n1_eq n0_def rv_message_def [abs_def])
  have q: "votes_count n2 \<ge> quorum n2 \<longleftrightarrow> quorum n \<le> 1"
    by (simp add: n2_eq n1_eq n0_def votes_count_def quorum_def)
  show ?thesis
  proof (cases "quorum n \<le> 1")
    case True
    then have "becomeLeaderLocked n2 = Some n'" using n' q by (simp add: n2_def)
    then show ?thesis
      using True by (auto dest!: becomeLeaderLocked_frame
        simp: campaigned_def n2_eq n1_eq n0_def same_identity_def hs_of_def rv_message_def [abs_def] is_ae_from_def)
  next
    case False
    then have "n2 = n'" using n' q by (simp add: n2_def)
    then show ?thesis
      using False
      by (auto simp: campaigned_def n2_eq n1_eq n0_def same_identity_def hs_of_def rv_message_def [abs_def])
  qed
qed

lemma campaigned_evolves:
  assumes "campaigned n n'" and "n_currentTerm n + 1 < u64_size"
  shows "evolves m n n'"
proof -
  have t: "n_currentTerm n' = n_currentTerm n + 1"
    using assms by (simp add: campaigned_def u64_simps)
  let ?rvs = "map (rv_message n') (filter (\<lambda>p. p \<noteq> n_id n) (n_peers n))"
  obtain ms where "n_pendingMsgs n' =
      n_pendingMsgs n @ map (\<lambda>m. \<lparr>pm_epoch = n_stepDownEpoch n', pm_msg = m\<rparr>) (?rvs @ ms)"
    and "\<forall>m \<in> set ms. is_ae_from n' m"
    using assms(1) by (auto simp: campaigned_def)
  then have "queues_only m n n'"
    unfolding queues_only_def using assms(1)
    by (intro exI [of _ "?rvs @ ms"])
       (auto simp: campaigned_def same_identity_def rv_message_def vote_of_def tv_def is_ae_from_def)
  moreover have "cand_ok n' \<and> counts_votes m n n'" if "cand_ok n"
    using assms(1) t that
    by (auto simp: campaigned_def cand_ok_def counts_votes_def same_identity_def voters_def quorum_def
             split: if_splits)
  ultimately show ?thesis
    using assms(1) t by (simp add: evolves_def campaigned_def keeps_hs_def tv_le_def tv_def)
qed

lemma card_voters:
  "n_votesReceived n = Some votes \<Longrightarrow> distinct (map fst votes) \<Longrightarrow> votes_count n = card (voters n)"
  using distinct_card [of "map fst votes"] by (simp add: voters_def votes_count_def)

lemma handleRequestVoteResponseLocked_evolves:
  assumes "handleRequestVoteResponseLocked n msg = Some n'" and "m_Type msg = MsgRequestVoteResponse"
  shows "evolves msg n n'"
proof (cases "n_role n = Candidate \<and> m_Term msg = n_currentTerm n \<and> m_VoteGranted msg")
  case False
  with assms(1) have "n' = n" by (auto simp: handleRequestVoteResponseLocked_def split: if_splits)
  then show ?thesis by simp
next
  case True
  then obtain votes where votes: "n_votesReceived n = Some votes"
    using assms(1) by (auto simp: handleRequestVoteResponseLocked_def split: option.splits)
  define n1 where "n1 = n\<lparr>n_votesReceived := Some (AList.update (m_From msg) True votes)\<rparr>"
  let ?led = "\<lambda>r h ni mi he ht. n1\<lparr>n_role := r, n_leaderHint := h, n_nextIndex := ni,
     n_matchIndex := mi, n_heartbeatElapsed := he, n_heartbeatTimeout := ht\<rparr>"
  have "\<exists>r h ni mi he ht ms. n' = queue_all (?led r h ni mi he ht) ms \<and>
      (\<forall>m \<in> set ms. is_ae_from n m) \<and> r \<noteq> Follower \<and> (r = Leader \<longrightarrow> quorum n1 \<le> votes_count n1)"
  proof (cases "quorum n1 \<le> votes_count n1")
    case True
    with assms(1) \<open>_ \<and> _ \<and> _\<close> votes have "becomeLeaderLocked n1 = Some n'"
      by (simp add: handleRequestVoteResponseLocked_def n1_def)
    then obtain ni mi ms where "n' = queue_all (?led Leader (n_id n1) ni mi 0 1) ms"
      "\<forall>m \<in> set ms. is_ae_from n1 m"
      using becomeLeaderLocked_frame by blast
    moreover have "is_ae_from n1 = is_ae_from n" by (simp add: is_ae_from_def [abs_def] n1_def)
    ultimately show ?thesis using True by (metis role.distinct(3))
  next
    case False
    with assms(1) \<open>_ \<and> _ \<and> _\<close> votes have "n' = n1"
      by (simp add: handleRequestVoteResponseLocked_def n1_def)
    moreover have "n_role n1 = Candidate" using \<open>_ \<and> _ \<and> _\<close> by (simp add: n1_def)
    ultimately show ?thesis
      by (intro exI [of _ "n_role n1"] exI [of _ "n_leaderHint n1"] exI [of _ "n_nextIndex n1"]
            exI [of _ "n_matchIndex n1"] exI [of _ "n_heartbeatElapsed n1"]
            exI [of _ "n_heartbeatTimeout n1"] exI [of _ "[]"]) simp
  qed
  then obtain r h ni mi he ht ms where n': "n' = queue_all (?led r h ni mi he ht) ms"
    and ms: "\<forall>m \<in> set ms. is_ae_from n m"
    and role: "r \<noteq> Follower" "r = Leader \<longrightarrow> quorum n1 \<le> votes_count n1" by blast
  have same: "same_identity n n'" "tv n' = tv n" "hs_of n' = hs_of n" "n_pendingHS n' = n_pendingHS n"
      "n_votesReceived n' = n_votesReceived n1" "n_role n' = r"
    by (simp_all add: n' n1_def quiet_simps)
  have "queues_only msg n n'"
    unfolding queues_only_def
    by (rule exI [of _ ms]) (use ms is_ae_from_vote [of n] in \<open>simp add: n' n1_def\<close>)
  moreover have "cand_ok n' \<and> counts_votes msg n n'" if "cand_ok n"
  proof -
    have d: "distinct (map fst (AList.update (m_From msg) True votes))"
      using that votes by (simp add: cand_ok_def distinct_keys_update)
    have v: "voters n' = insert (m_From msg) (voters n)"
      using same(5) votes by (simp add: voters_def n1_def keys_update)
    have "votes_count n1 = card (voters n')"
      using card_voters [OF _ d, of n1] same(5) by (simp add: n1_def voters_def)
    then have "counts_votes msg n n'"
      using True role same(1,2,6) v assms(2)
      by (auto simp: counts_votes_def tally_before_def grants_to_def still_leader_def tv_def
                     same_identity_def quorum_def n1_def)
    moreover have "cand_ok n'"
      using that True same d by (auto simp: cand_ok_def same_identity_def tv_def n1_def)
    ultimately show ?thesis by blast
  qed
  ultimately show ?thesis
    using same by (simp add: evolves_def keeps_hs_def)
qed

lemma tickFollowerLocked_evolves:
  assumes "tickFollowerLocked n = Some n'" and "n_currentTerm n + 1 < u64_size"
  shows "evolves m n n'"
proof -
  let ?n = "n\<lparr>n_electionElapsed := n_electionElapsed n + 1, n_lastHeartbeat := n_lastHeartbeat n + 1\<rparr>"
  have "n' = ?n \<or> campaigned ?n n'"
    using assms(1) by (auto simp: tickFollowerLocked_def Let_def split: if_splits
      dest: becomeCandidateLocked_campaigned)
  moreover have "evolves m n ?n" by (rule quiet_evolves_0) (simp_all add: quiet_simps)
  ultimately show ?thesis
    using campaigned_evolves [of ?n n' m] assms(2) by auto
qed

lemma tickCandidateLocked_evolves:
  assumes "tickCandidateLocked n = Some n'" and "n_currentTerm n + 1 < u64_size"
  shows "evolves m n n'"
proof -
  let ?n = "n\<lparr>n_electionElapsed := n_electionElapsed n + 1\<rparr>"
  have "n' = ?n \<or> campaigned ?n n'"
    using assms(1) by (auto simp: tickCandidateLocked_def Let_def split: if_splits
      dest: becomeCandidateLocked_campaigned)
  moreover have "evolves m n ?n" by (rule quiet_evolves_0) (simp_all add: quiet_simps)
  ultimately show ?thesis
    using campaigned_evolves [of ?n n' m] assms(2) by auto
qed

lemma stepLocked_evolves:
  assumes "stepLocked ops n m = Some (err, n')"
    and "n_currentTerm n + 1 < u64_size" and "m_Term m + 1 < u64_size"
  shows "evolves m n n'"
proof -
  define n1 where "n1 = (if m_Term m > n_currentTerm n then maybeStepDownLocked n (m_Term m) else n)"
  have t: "n_currentTerm n1 + 1 < u64_size" "m_Term m \<le> n_currentTerm n1"
    using assms(2,3) by (simp_all add: n1_def maybeStepDownLocked_def queueHardStateLocked_def)
  have "evolves m n1 n'"
    using assms(1) t unfolding stepLocked_def n1_def [symmetric] Let_def
    by (auto split: if_splits role.splits
          intro: tickFollowerLocked_evolves tickCandidateLocked_evolves tickLeaderLocked_evolves
            handleRequestVoteLocked_evolves handleRequestVoteResponseLocked_evolves
            handleAppendEntriesLocked_evolves handleAppendEntriesRespLocked_evolves)
  then show ?thesis
    by (auto simp: n1_def split: if_splits intro: maybeStepDownLocked_evolves)
qed

lemma Step_evolves:
  assumes "Step ops n m = Some (err, n')"
    and "n_currentTerm n + 1 < u64_size" and "m_Term m + 1 < u64_size"
  shows "evolves m n n'"
  using assms stepLocked_evolves by (auto simp: Step_def split: if_splits)

section \<open>Runs of the core\<close>

text \<open>
  The states the core can be in between two calls: \<^verbatim>\<open>newNode\<close>, then any mix of \<^verbatim>\<open>Step\<close>,
  proposals and \<^verbatim>\<open>Ready\<close>, whatever the storage answers. The bounds keep the 64-bit term
  counter from wrapping; a vote request names its sender.
\<close>

inductive core_reachable :: "'s storage_ops \<Rightarrow> 's node \<Rightarrow> bool" for ops where
  init: "newNode ops mk now cfg s = Some (Inr n) \<Longrightarrow> core_reachable ops n"
| step: "core_reachable ops n \<Longrightarrow> Step ops n m = Some (err, n') \<Longrightarrow>
    n_currentTerm n + 1 < u64_size \<Longrightarrow> m_Term m + 1 < u64_size \<Longrightarrow>
    (m_Type m = MsgRequestVote \<longrightarrow> m_From m \<noteq> '''') \<Longrightarrow> core_reachable ops n'"
| propose: "core_reachable ops n \<Longrightarrow> proposeLocked ops n data = Some (r, n') \<Longrightarrow> core_reachable ops n'"
| broadcast: "core_reachable ops n \<Longrightarrow> broadcastAppendEntriesLocked n = Some n' \<Longrightarrow> core_reachable ops n'"
| ready: "core_reachable ops n \<Longrightarrow> Ready n = (out, n') \<Longrightarrow> core_reachable ops n'"

definition ready_inv :: "'s node \<Rightarrow> bool" where
  "ready_inv n \<longleftrightarrow>
     cand_ok n \<and> (\<forall>hs. n_pendingHS n = Some hs \<longrightarrow> hs = hs_of n) \<and>
     (\<forall>pm \<in> set (n_pendingMsgs n). \<forall>tc. vote_of (pm_msg pm) = Some tc \<longrightarrow>
        tv_le tc (tv n) \<and> snd tc \<noteq> '''')"

lemma ready_inv_evolves:
  assumes "ready_inv n" and "evolves m n n'" and "m_Type m = MsgRequestVote \<longrightarrow> m_From m \<noteq> ''''"
  shows "ready_inv n'"
proof -
  obtain ms where ms: "n_pendingMsgs n' =
      n_pendingMsgs n @ map (\<lambda>m. \<lparr>pm_epoch = n_stepDownEpoch n', pm_msg = m\<rparr>) ms"
    "\<forall>x \<in> set ms. \<forall>tc. vote_of x = Some tc \<longrightarrow> tc = tv n' \<and>
       (n_votedFor n' = n_id n \<or> m_Type m = MsgRequestVote \<and> n_votedFor n' = m_From m)"
    using assms(2) unfolding evolves_def queues_only_def by metis
  have le: "tv_le (tv n) (tv n')" and hs: "keeps_hs n n'" and cand: "cand_ok n'"
    using assms(1,2) by (simp_all add: evolves_def ready_inv_def)
  have "tv_le tc (tv n') \<and> snd tc \<noteq> ''''"
    if "pm \<in> set (n_pendingMsgs n')" and v: "vote_of (pm_msg pm) = Some tc" for pm tc
  proof -
    from that(1) consider "pm \<in> set (n_pendingMsgs n)" | "pm_msg pm \<in> set ms"
      using ms(1) by auto
    then show ?thesis
    proof cases
      case 1
      with assms(1) v le show ?thesis
        unfolding ready_inv_def by (blast intro: tv_le_trans)
    next
      case 2
      with ms(2) v have "tc = tv n'"
        "n_votedFor n' = n_id n \<or> m_Type m = MsgRequestVote \<and> n_votedFor n' = m_From m"
        by blast+
      moreover have "n_id n \<noteq> ''''" using assms(1) by (simp add: ready_inv_def cand_ok_def)
      ultimately show ?thesis using assms(3) by (auto simp: tv_def)
    qed
  qed
  moreover have "n_pendingHS n' = Some h \<Longrightarrow> h = hs_of n'" for h
    using hs assms(1) by (auto simp: keeps_hs_def ready_inv_def)
  ultimately show ?thesis using cand by (simp add: ready_inv_def)
qed

lemma newNode_fresh:
  assumes "newNode ops mk now cfg s = Some (Inr n)"
  shows "n_id n = cfg_NodeID cfg" "n_id n \<noteq> ''''" "n_peers n = sort (cfg_Peers cfg)" "n_role n = Follower"
    "n_votesReceived n = None" "n_pendingMsgs n = []" "n_pendingHS n = None" "n_started n"
    "n_storage n = s" "op_LoadHardState ops s = Inr (hs_of n)" "n_cfg n = applyDefaults cfg"
    "Validate (applyDefaults cfg) = None"
proof -
  define ini where "ini = (\<lambda>(hs :: hardstate) (r :: rng). \<lparr>n_id = cfg_NodeID cfg, n_peers = sort (cfg_Peers cfg),
      n_currentTerm = hs_CurrentTerm hs, n_votedFor = hs_VotedFor hs, n_role = Follower,
      n_log = empty_log, n_commitIndex = hs_Commit hs, n_leaderHint = '''', n_lastHeartbeat = 0,
      n_nextIndex = [], n_matchIndex = [], n_votesReceived = None, n_rng = r,
      n_electionTimeout = 0, n_electionElapsed = 0, n_heartbeatElapsed = 0, n_heartbeatTimeout = 0,
      n_stepDownEpoch = 0, n_pendingMsgs = [], n_pendingHS = None, n_notifyC = False,
      n_storage = s, n_cfg = applyDefaults cfg, n_started = False, n_onElectionTrigger = False\<rparr>)"
  have v: "Validate (applyDefaults cfg) = None"
    using assms by (auto simp: newNode_def Let_def split: option.splits)
  obtain hs n1 r n2 where hs: "op_LoadHardState ops s = Inr hs"
    and n1: "restoreLogFromStorage ops (ini hs []) = Inr n1"
    and n2: "resetElectionTimeoutLocked (n1\<lparr>n_rng := r\<rparr>) = Some n2"
    and n: "n = n2\<lparr>n_onElectionTrigger := True, n_started := True\<rparr>"
    using assms v by (auto simp: newNode_def Let_def ini_def split: sum.splits)
  obtain l where "n1 = (ini hs [])\<lparr>n_log := l\<rparr>"
  proof -
    have "n1 = (ini hs [])\<lparr>n_log := n_log n1\<rparr>"
      using n1 by (auto simp: restoreLogFromStorage_def ini_def split: sum.splits if_splits)
    then show ?thesis by (rule that)
  qed
  moreover obtain rr t where "n2 = n1\<lparr>n_rng := rr, n_electionTimeout := t, n_electionElapsed := 0\<rparr>"
    using resetElectionTimeoutLocked_frame [OF n2] by auto
  ultimately show "n_id n = cfg_NodeID cfg" "n_id n \<noteq> ''''" "n_peers n = sort (cfg_Peers cfg)"
    "n_role n = Follower" "n_votesReceived n = None" "n_pendingMsgs n = []" "n_pendingHS n = None"
    "n_started n" "n_storage n = s" "op_LoadHardState ops s = Inr (hs_of n)" "n_cfg n = applyDefaults cfg"
    using n hs v by (simp_all add: ini_def hs_of_def Validate_None_iff)
  show "Validate (applyDefaults cfg) = None" by (rule v)
qed

lemma newNode_ready_inv: "newNode ops mk now cfg s = Some (Inr n) \<Longrightarrow> ready_inv n"
  using newNode_fresh [of ops mk now cfg s n] by (simp add: ready_inv_def cand_ok_def)

lemma Ready_ready_inv: "ready_inv n \<Longrightarrow> Ready n = (out, n') \<Longrightarrow> ready_inv n'"
  by (auto simp: Ready_def ready_inv_def cand_ok_def)

lemma core_reachable_ready_inv: "core_reachable ops n \<Longrightarrow> ready_inv n"
proof (induction rule: core_reachable.induct)
  case (propose n data r n')
  then show ?case
    using ready_inv_evolves [OF _ proposeLocked_evolves, of n ops data r n' "zero_message\<lparr>m_Type := MsgTick\<rparr>"]
    by simp
next
  case (broadcast n n')
  then show ?case
    using ready_inv_evolves [OF _ broadcastAppendEntriesLocked_evolves, of n n' "zero_message\<lparr>m_Type := MsgTick\<rparr>"]
    by simp
next
  case (step n m err n')
  then show ?case using ready_inv_evolves [OF _ Step_evolves] by blast
qed (auto intro: newNode_ready_inv Ready_ready_inv)

section \<open>Properties\<close>

text \<open>
  C4: the term of a node never goes back, and within a term a vote once cast never
  changes, whatever message \<^verbatim>\<open>Step\<close> is given.
\<close>

theorem Step_vote_stable:
  assumes "Step ops n m = Some (err, n')"
    and "n_currentTerm n + 1 < u64_size" and "m_Term m + 1 < u64_size"
  shows "n_currentTerm n \<le> n_currentTerm n' \<and>
    (n_currentTerm n' = n_currentTerm n \<and> n_votedFor n \<noteq> '''' \<longrightarrow> n_votedFor n' = n_votedFor n)"
  using Step_evolves [OF assms] by (auto simp: evolves_def tv_le_def tv_def)

text \<open>
  C14: in every reachable state the queued HardState is the node's current term, vote and
  commit index, so \<^verbatim>\<open>Ready\<close> never hands out a stale one, and every granted vote still
  queued for the current term names \<^verbatim>\<open>votedFor\<close>: the vote assertion of the debug build
  cannot panic.
\<close>

theorem ready_vote_assertion:
  assumes "core_reachable ops n"
  shows "(\<forall>hs. n_pendingHS n = Some hs \<longrightarrow> hs = hs_of n) \<and>
    (assertAppendPrecedesAEResponseLocked n \<longrightarrow> assertReadyInvariantsLocked n)"
proof -
  have inv: "ready_inv n" using core_reachable_ready_inv [OF assms] .
  have "n_votedFor n = m_To (pm_msg pm)"
    if "pm \<in> set (n_pendingMsgs n)" "m_Type (pm_msg pm) = MsgRequestVoteResponse"
      "m_VoteGranted (pm_msg pm)" "m_Term (pm_msg pm) = n_currentTerm n" for pm
  proof -
    have "vote_of (pm_msg pm) = Some (m_Term (pm_msg pm), m_To (pm_msg pm))"
      using that by (simp add: vote_of_def)
    with inv that(1,4) show ?thesis by (fastforce simp: ready_inv_def tv_le_def tv_def)
  qed
  with inv show ?thesis
    by (auto simp: ready_inv_def assertReadyInvariantsLocked_def list_all_iff Let_def hs_of_def
             split: option.splits)
qed

definition demo_rv :: message where
  "demo_rv = zero_message\<lparr>m_Type := MsgRequestVote, m_Term := 1, m_From := ''b'', m_To := ''a''\<rparr>"

text \<open>The state and result of a step that returns, for evaluation.\<close>

definition step_of :: "'s storage_ops \<Rightarrow> 's node \<Rightarrow> message \<Rightarrow> 's node" where
  "step_of ops n m = (case Step ops n m of Some (err, n') \<Rightarrow> n' | None \<Rightarrow> n)"

definition step_ok :: "'s storage_ops \<Rightarrow> 's node \<Rightarrow> message \<Rightarrow> bool" where
  "step_ok ops n m = (case Step ops n m of Some (None, n') \<Rightarrow> True | _ \<Rightarrow> False)"

lemma step_ok_eq: "step_ok ops n m \<Longrightarrow> Step ops n m = Some (None, step_of ops n m)"
  by (auto simp: step_ok_def step_of_def split: option.splits prod.splits)

lemma demo_vote:
  "step_ok mem_ops (demo_node abc mem_New ''a'') demo_rv"
  "n_votedFor (step_of mem_ops (demo_node abc mem_New ''a'') demo_rv) = ''b''"
  "n_pendingHS (step_of mem_ops (demo_node abc mem_New ''a'') demo_rv) \<noteq> None"
  by code_simp+

theorem Step_vote_stable_witness:
  "let n = step_of mem_ops (demo_node abc mem_New ''a'') demo_rv;
       m = demo_rv\<lparr>m_From := ''c''\<rparr>
   in n_votedFor n = ''b'' \<and> (\<exists>n'. Step mem_ops n m = Some (None, n') \<and> n_currentTerm n \<le> n_currentTerm n' \<and>
        (n_currentTerm n' = n_currentTerm n \<longrightarrow> n_votedFor n' = ''b''))"
proof -
  define n where "n = step_of mem_ops (demo_node abc mem_New ''a'') demo_rv"
  define m where "m = demo_rv\<lparr>m_From := ''c''\<rparr>"
  have ok: "step_ok mem_ops n m" and t: "n_currentTerm n + 1 < u64_size"
    unfolding n_def m_def by code_simp+
  have v: "n_votedFor n = ''b''" unfolding n_def by (rule demo_vote)
  have "m_Term m + 1 < u64_size" by (simp add: m_def demo_rv_def)
  from Step_vote_stable [OF step_ok_eq [OF ok] t this] v step_ok_eq [OF ok] show ?thesis
    unfolding Let_def n_def [symmetric] m_def [symmetric] by simp
qed

lemma demo_core_reachable:
  "i \<in> set abc \<Longrightarrow> mem_wf s \<Longrightarrow> core_reachable mem_ops (demo_node abc s i)"
  by (rule core_reachable.init [OF newNode_demo]) (auto simp: abc_def)

theorem ready_vote_assertion_witness:
  "let n = step_of mem_ops (demo_node abc mem_New ''a'') demo_rv
   in core_reachable mem_ops n \<and> n_pendingHS n = Some (hs_of n) \<and> assertReadyInvariantsLocked n"
proof -
  define n where "n = step_of mem_ops (demo_node abc mem_New ''a'') demo_rv"
  have "n_currentTerm (demo_node abc mem_New ''a'') + 1 < u64_size" by code_simp
  then have r: "core_reachable mem_ops n"
    unfolding n_def
    using core_reachable.step [OF demo_core_reachable [of "''a''" mem_New] step_ok_eq [OF demo_vote(1)]]
    by (simp add: abc_def mem_wf_New demo_rv_def)
  have a: "assertAppendPrecedesAEResponseLocked n" unfolding n_def by code_simp
  have "n_pendingHS n \<noteq> None" unfolding n_def by (rule demo_vote)
  with ready_vote_assertion [OF r] a r show ?thesis
    unfolding Let_def n_def [symmetric] by auto
qed

end
