(* ===== verification/Raft_Node_Log.thy ===== *)
theory Raft_Node_Log
  imports Raft_Node_Votes
begin

text \<open>
  The replicated log under the core's operations: which handlers touch it, what the
  AppendEntries receiver makes of it, that it stays well formed and in step with the
  store, when a commit index may advance.
\<close>

section \<open>Handlers that leave the log alone\<close>

definition same_log :: "'s node \<Rightarrow> 's node \<Rightarrow> bool" where
  "same_log n n' \<longleftrightarrow> n_log n' = n_log n \<and> n_storage n' = n_storage n"

lemma maybeStepDownLocked_same_log: "same_log n (maybeStepDownLocked n t)"
  by (simp add: maybeStepDownLocked_def same_log_def queueHardStateLocked_def)

lemma maybeAdvanceCommitLocked_same_log: "maybeAdvanceCommitLocked n = Some n' \<Longrightarrow> same_log n n'"
  by (drule maybeAdvanceCommitLocked_frame)
     (auto simp: same_log_def notifyProgressLocked_def queueHardStateLocked_def)

lemma fanOutAppendEntries_same_log: "fanOutAppendEntries n = Some n' \<Longrightarrow> same_log n n'"
  by (drule fanOutAppendEntries_frame) (auto simp: same_log_def)

lemma broadcastAppendEntriesLocked_same_log: "broadcastAppendEntriesLocked n = Some n' \<Longrightarrow> same_log n n'"
  by (auto simp: broadcastAppendEntriesLocked_def Option.bind_eq_Some_conv same_log_def
           dest!: fanOutAppendEntries_same_log maybeAdvanceCommitLocked_same_log)

lemma becomeLeaderLocked_same_log: "becomeLeaderLocked n = Some n' \<Longrightarrow> same_log n n'"
  by (drule becomeLeaderLocked_frame) (auto simp: same_log_def)

lemma becomeCandidateLocked_same_log: "becomeCandidateLocked n = Some n' \<Longrightarrow> same_log n n'"
  by (drule becomeCandidateLocked_campaigned) (simp add: campaigned_def same_log_def)

lemma tick_same_log:
  "tickFollowerLocked n = Some n' \<Longrightarrow> same_log n n'"
  "tickCandidateLocked n = Some n' \<Longrightarrow> same_log n n'"
  "tickLeaderLocked n = Some n' \<Longrightarrow> same_log n n'"
  by (auto simp: tickFollowerLocked_def tickCandidateLocked_def tickLeaderLocked_def Let_def
                 Option.bind_eq_Some_conv same_log_def split: if_splits
           dest!: becomeCandidateLocked_same_log fanOutAppendEntries_same_log
                  maybeAdvanceCommitLocked_same_log)

lemma handleRequestVoteLocked_same_log: "handleRequestVoteLocked n m = Some n' \<Longrightarrow> same_log n n'"
  by (drule handleRequestVoteLocked_frame) (auto simp: same_log_def)

lemma handleRequestVoteResponseLocked_same_log:
  "handleRequestVoteResponseLocked n m = Some n' \<Longrightarrow> same_log n n'"
  by (auto simp: handleRequestVoteResponseLocked_def Let_def same_log_def
           split: if_splits option.splits dest!: becomeLeaderLocked_same_log)

lemma handleAppendEntriesRespLocked_same_log:
  "handleAppendEntriesRespLocked n m = Some n' \<Longrightarrow> same_log n n'"
  by (auto simp: handleAppendEntriesRespLocked_def same_log_def notifyProgressLocked_def
           split: if_splits dest!: maybeAdvanceCommitLocked_same_log)

lemma stepLocked_log_cases:
  assumes "stepLocked ops n m = Some (err, n')"
  obtains (other) "same_log n n'"
    | (ae) n1 where "m_Type m = MsgAppendEntries" "same_log n n1" "n1 = maybeStepDownLocked n (m_Term m)"
        "handleAppendEntriesLocked ops n1 m = Some n'"
proof -
  define n1 where "n1 = maybeStepDownLocked n (m_Term m)"
  have n1_eq: "(if m_Term m > n_currentTerm n then maybeStepDownLocked n (m_Term m) else n) = n1"
    by (simp add: n1_def maybeStepDownLocked_def)
  have n1: "same_log n n1"
    unfolding n1_def by (rule maybeStepDownLocked_same_log)
  show thesis
  proof (cases "m_Type m = MsgAppendEntries")
    case True
    then show ?thesis
      using assms n1 ae [OF True n1 n1_def] unfolding stepLocked_def n1_eq by auto
  next
    case False
    have "same_log n1 n'"
      using assms False unfolding stepLocked_def n1_eq Let_def
      by (auto split: if_splits role.splits
            intro: tick_same_log handleRequestVoteLocked_same_log handleRequestVoteResponseLocked_same_log
              handleAppendEntriesRespLocked_same_log) (simp add: same_log_def)
    with n1 show ?thesis by (intro other) (simp add: same_log_def)
  qed
qed

section \<open>What the receiver makes of a batch\<close>

text \<open>
  The reference: entries already present (same index and term) are passed over, the first
  that is missing or differs replaces everything from its position on.
\<close>

fun merge_at :: "nat \<Rightarrow> entry list \<Rightarrow> entry list \<Rightarrow> entry list" where
  "merge_at i es [] = es"
| "merge_at i es (e # new) =
     (if i < length es \<and> ent_Term (es ! i) = ent_Term e then merge_at (i + 1) es new
      else take i es @ e # new)"

text \<open>The position of the first entry that is missing or differs, if any.\<close>

fun divergence :: "nat \<Rightarrow> entry list \<Rightarrow> entry list \<Rightarrow> nat option" where
  "divergence i es [] = None"
| "divergence i es (e # new) =
     (if i < length es \<and> ent_Term (es ! i) = ent_Term e then divergence (i + 1) es new else Some i)"

lemma divergence_bounds: "divergence i es new = Some k \<Longrightarrow> i \<le> k \<and> k < i + length new"
  by (induction i es new rule: divergence.induct) (auto split: if_splits)

lemma merge_at_divergence:
  "merge_at i es new =
     (case divergence i es new of None \<Rightarrow> es | Some k \<Rightarrow> take k es @ drop (k - i) new)"
proof (induction i es new rule: merge_at.induct)
  case (2 i es e new)
  show ?case
  proof (cases "i < length es \<and> ent_Term (es ! i) = ent_Term e")
    case True
    with 2 show ?thesis
      by (auto split: option.splits dest!: divergence_bounds simp: Suc_diff_le drop_Cons')
  next
    case False
    then show ?thesis by auto
  qed
qed simp

lemma divergence_length:
  "divergence i es new = Some k \<Longrightarrow> i \<le> length es \<Longrightarrow> k \<le> length es"
  by (induction i es new rule: divergence.induct) (auto split: if_splits)

lemma firstConflictIndex_divergence:
  assumes "log_wf l" and "contiguous_from (i + 1) new" and "i + length new < u64_size"
  shows "firstConflictIndex_loop l (LastIndex l) new =
    Some (case divergence i (l_entries l) new of None \<Rightarrow> 0 | Some k \<Rightarrow> k + 1)"
  using assms(2,3)
proof (induction i "l_entries l" new rule: divergence.induct)
  case (2 i e new)
  then have idx: "ent_Index e = i + 1" and rest: "contiguous_from (i + 1 + 1) new" by auto
  show ?case
  proof (cases "i < length (l_entries l) \<and> ent_Term (l_entries l ! i) = ent_Term e")
    case True
    then show ?thesis
      using 2 idx rest assms(1) by (simp add: log_simps term_at_def)
  next
    case False
    then show ?thesis
      using idx assms(1) by (auto simp: log_simps term_at_def)
  qed
qed simp

lemma merge_at_prefix: "i \<le> length es \<Longrightarrow> take i (merge_at i es new) = take i es"
  by (auto simp: merge_at_divergence min_def split: option.splits dest!: divergence_bounds)

lemma divergence_None: "divergence i es new = None \<Longrightarrow> i \<le> length es \<Longrightarrow> i + length new \<le> length es"
  by (induction i es new rule: divergence.induct) (auto split: if_splits)

lemma merge_at_long: "i \<le> length es \<Longrightarrow> i + length new \<le> length (merge_at i es new)"
  by (cases "divergence i es new")
     (use divergence_bounds [of i es new] divergence_length [of i es new] divergence_None [of i es new]
      in \<open>auto simp: merge_at_divergence min_def\<close>)

lemma merge_at_terms:
  "i \<le> length es \<Longrightarrow> j < length new \<Longrightarrow>
   i + j < length (merge_at i es new) \<and> ent_Term (merge_at i es new ! (i + j)) = ent_Term (new ! j)"
proof (induction i es new arbitrary: j rule: merge_at.induct)
  case (2 i es e new)
  show ?case
  proof (cases "i < length es \<and> ent_Term (es ! i) = ent_Term e")
    case True
    show ?thesis
    proof (cases j)
      case 0
      have "take (i + 1) (merge_at (i + 1) es new) ! i = take (i + 1) es ! i"
        using True by (subst merge_at_prefix) simp_all
      then have "merge_at (i + 1) es new ! i = es ! i" by simp
      with True 0 merge_at_long [of "i + 1" es new] show ?thesis by simp
    next
      case (Suc j')
      with True 2 show ?thesis by auto
    qed
  next
    case False
    with 2 show ?thesis by (auto simp: nth_append min_def)
  qed
qed simp

lemma merge_at_contiguous:
  assumes "contiguous_from 1 es" and "contiguous_from (i + 1) new" and "i \<le> length es"
  shows "contiguous_from 1 (merge_at i es new)"
proof (cases "divergence i es new")
  case None
  with assms(1) show ?thesis by (simp add: merge_at_divergence)
next
  case (Some k)
  have k: "i \<le> k" "k \<le> length es"
    using divergence_bounds [OF Some] divergence_length [OF Some assms(3)] by auto
  have "contiguous_from (i + 1 + (k - i)) (drop (k - i) new)"
    by (rule contiguous_from_drop [OF assms(2)])
  with k assms(1) Some show ?thesis
    by (simp add: merge_at_divergence contiguous_from_append contiguous_from_take)
qed

lemma merge_at_length: "i \<le> length es \<Longrightarrow> length (merge_at i es new) \<le> max (length es) (i + length new)"
  by (auto simp: merge_at_divergence split: option.splits dest!: divergence_bounds)

lemma merge_at_idem: "i \<le> length es \<Longrightarrow> merge_at i (merge_at i es new) new = merge_at i es new"
proof -
  assume i: "i \<le> length es"
  have "divergence j xs ys = None"
    if "\<And>k. k < length ys \<Longrightarrow> j + k < length xs \<and> ent_Term (xs ! (j + k)) = ent_Term (ys ! k)" for j xs ys
    using that
  proof (induction j xs ys rule: divergence.induct)
    case (2 j xs y ys)
    have "divergence (j + 1) xs ys = None"
      using 2(2) [of 0] 2(2) [of "Suc _"] by (intro 2(1)) auto
    with 2(2) [of 0] show ?case by simp
  qed simp
  then have "divergence i (merge_at i es new) new = None"
    using merge_at_terms [OF i] by blast
  then show ?thesis by (simp add: merge_at_divergence [of i "merge_at i es new"])
qed

section \<open>The store in step with the log\<close>

definition in_step :: "('s \<Rightarrow> entry list) \<Rightarrow> ('s \<Rightarrow> bool) \<Rightarrow> 's node \<Rightarrow> bool" where
  "in_step slog sinv n \<longleftrightarrow>
     log_wf (n_log n) \<and> sinv (n_storage n) \<and> slog (n_storage n) = l_entries (n_log n)"

lemma in_step_same_log: "same_log n n' \<Longrightarrow> in_step slog sinv n' = in_step slog sinv n"
  by (simp add: in_step_def same_log_def)

text \<open>A batch as a leader builds it: consecutive indices after \<open>PrevLogIndex\<close>, no overflow.\<close>

definition ae_ok :: "message \<Rightarrow> bool" where
  "ae_ok m \<longleftrightarrow> contiguous_from (m_PrevLogIndex m + 1) (m_Entries m) \<and>
     m_PrevLogIndex m + length (m_Entries m) + 1 < u64_size"

definition ae_matches :: "'s node \<Rightarrow> message \<Rightarrow> bool" where
  "ae_matches n m \<longleftrightarrow> m_PrevLogIndex m \<le> length (l_entries (n_log n)) \<and>
     term_at (l_entries (n_log n)) (m_PrevLogIndex m) = m_PrevLogTerm m"

text \<open>The batch would overwrite an entry at or below the commit index.\<close>

definition ae_overwrites_commit :: "'s node \<Rightarrow> message \<Rightarrow> bool" where
  "ae_overwrites_commit n m \<longleftrightarrow>
     (case divergence (m_PrevLogIndex m) (l_entries (n_log n)) (m_Entries m) of
        None \<Rightarrow> False
      | Some k \<Rightarrow> k < length (l_entries (n_log n)) \<and> k < n_commitIndex n)"

text \<open>The answer to an AppendEntries request.\<close>

definition ae_reply :: "'s node \<Rightarrow> message \<Rightarrow> bool \<Rightarrow> nat \<Rightarrow> pendingMsg" where
  "ae_reply n m ok mi =
     \<lparr>pm_epoch = n_stepDownEpoch n, pm_msg = zero_message\<lparr>m_Type := MsgAppendEntriesResp,
        m_Term := n_currentTerm n, m_From := n_id n, m_To := m_From m, m_Success := ok, m_MatchIndex := mi\<rparr>\<rparr>"

lemma handleAppendEntriesLocked_reject:
  assumes "log_wf (n_log n)" and "m_Term m < n_currentTerm n \<or> \<not> ae_matches n m"
  shows "\<exists>n'. handleAppendEntriesLocked ops n m = Some n' \<and> same_log n n' \<and>
    n_commitIndex n' = n_commitIndex n \<and> n_pendingMsgs n' = n_pendingMsgs n @ [ae_reply n m False 0]"
proof (cases "m_Term m < n_currentTerm n")
  case True
  then show ?thesis
    by (simp add: handleAppendEntriesLocked_def same_log_def replyAppendEntriesLocked_def
          queueMsgLocked_def ae_reply_def)
next
  case False
  with assms have "Match (n_log (heard n m)) (m_PrevLogIndex m) (m_PrevLogTerm m) = Some False"
    by (simp add: heard_def log_simps ae_matches_def)
  with False show ?thesis
    unfolding handleAppendEntriesLocked_def heard_def [symmetric]
    by (simp add: same_log_def replyAppendEntriesLocked_def queueMsgLocked_def ae_reply_def heard_def)
qed

context reliable_storage
begin

lemma mirrorLogWriteLocked_ok:
  assumes "sinv (n_storage n)" and "1 \<le> i" and "i \<le> length (slog (n_storage n)) + 1"
    and "contiguous_from i es" and "i + length es < u64_size"
  shows "\<exists>s. mirrorLogWriteLocked ops n i es = (None, n\<lparr>n_storage := s\<rparr>) \<and> sinv s \<and>
    slog s = take (i - 1) (slog (n_storage n)) @ es"
proof -
  obtain s1 where s1: "op_TruncateSuffix ops (n_storage n) i = (None, s1)" "sinv s1"
      "slog s1 = take (i - 1) (slog (n_storage n))"
    using truncate_step [OF assms(1,2)] .
  have len: "length (slog s1) = i - 1" using s1(3) assms(2,3) by simp
  obtain s2 where "op_Append ops s1 es = (None, s2)" "sinv s2" "slog s2 = slog s1 @ es"
    using append_step [OF s1(2), of es] len assms(2,4,5) by auto
  with s1 show ?thesis by (intro exI [of _ s2]) (simp add: mirrorLogWriteLocked_def)
qed

lemma writeEntriesLocked_ok:
  assumes st: "in_step slog sinv n" and i: "i \<le> length (l_entries (n_log n))"
    and es: "contiguous_from (i + 1) es" "i + length es + 1 < u64_size"
    and keep: "\<And>k. divergence i (l_entries (n_log n)) es = Some k \<Longrightarrow>
      k < length (l_entries (n_log n)) \<Longrightarrow> n_commitIndex n \<le> k"
  shows "\<exists>n'. writeEntriesLocked ops n es = Some (None, n') \<and> in_step slog sinv n' \<and>
    l_entries (n_log n') = merge_at i (l_entries (n_log n)) es"
proof -
  have wf: "log_wf (n_log n)" using st by (simp add: in_step_def)
  have fc: "firstConflictIndex n es = Some (case divergence i (l_entries (n_log n)) es of None \<Rightarrow> 0 | Some k \<Rightarrow> k + 1)"
    unfolding firstConflictIndex_def
    using firstConflictIndex_divergence [OF wf es(1)] es(2) by simp
  show ?thesis
  proof (cases "divergence i (l_entries (n_log n)) es")
    case None
    with fc st show ?thesis by (simp add: writeEntriesLocked_def merge_at_divergence)
  next
    case (Some k)
    have k: "i \<le> k" "k < i + length es" "k \<le> length (l_entries (n_log n))"
      using divergence_bounds [OF Some] divergence_length [OF Some i] by auto
    define suf where "suf = drop (k - i) es"
    have suf: "entriesFrom es (k + 1) = suf" "contiguous_from (k + 1) suf" "length suf = i + length es - k"
      using entriesFrom_contiguous [OF es(1), of "k + 1"] contiguous_from_drop [OF es(1), of "k - i"] k
      by (simp_all add: suf_def)
    define l where "l = Append ((n_log n)\<lparr>l_entries := take k (l_entries (n_log n))\<rparr>) suf"
    have l: "l_entries l = merge_at i (l_entries (n_log n)) es"
      using Some by (simp add: l_def suf_def merge_at_divergence)
    have wfl: "log_wf l"
      unfolding l_def by (rule log_wf_Append [OF log_wf_take [OF wf]]) (use suf k es(2) in auto)
    obtain s where s: "mirrorLogWriteLocked ops (n\<lparr>n_log := l\<rparr>) (k + 1) suf = (None, n\<lparr>n_log := l, n_storage := s\<rparr>)"
        "sinv s" "slog s = take k (slog (n_storage n)) @ suf"
      using mirrorLogWriteLocked_ok [of "n\<lparr>n_log := l\<rparr>" "k + 1" suf] st suf k es(2)
      by (auto simp: in_step_def)
    have "k + 1 \<le> LastIndex (n_log n) \<Longrightarrow> assertTruncateAboveCommit (k + 1) (n_commitIndex n) = Some ()"
      using keep [OF Some] wf by (simp add: assertTruncateAboveCommit_def log_simps)
    then have "writeEntriesLocked ops n es = Some (None, n\<lparr>n_log := l, n_storage := s\<rparr>)"
      using fc Some suf(1) s(1) wf by (simp add: writeEntriesLocked_def log_simps l_def)
    moreover have "in_step slog sinv (n\<lparr>n_log := l, n_storage := s\<rparr>)"
      using s wfl st by (simp add: in_step_def l_def)
    ultimately show ?thesis using l by (intro exI [of _ "n\<lparr>n_log := l, n_storage := s\<rparr>"]) simp
  qed
qed

lemma handleAppendEntriesLocked_accept:
  assumes st: "in_step slog sinv n" and ok: "ae_ok m" and tm: "n_currentTerm n \<le> m_Term m"
    and mt: "ae_matches n m" and keep: "\<not> ae_overwrites_commit n m"
  shows "\<exists>n'. handleAppendEntriesLocked ops n m = Some n' \<and> in_step slog sinv n' \<and>
    l_entries (n_log n') = merge_at (m_PrevLogIndex m) (l_entries (n_log n)) (m_Entries m) \<and>
    n_commitIndex n' = (if n_commitIndex n < m_LeaderCommit m
      then min (m_LeaderCommit m) (m_PrevLogIndex m + length (m_Entries m)) else n_commitIndex n) \<and>
    n_pendingMsgs n' = n_pendingMsgs n @ [ae_reply n m True (length (l_entries (n_log n')))]"
proof -
  have st0: "in_step slog sinv (heard n m)" and l0: "n_log (heard n m) = n_log n"
    using st by (simp_all add: in_step_def heard_def)
  have keep0: "n_commitIndex (heard n m) \<le> k"
    if "divergence (m_PrevLogIndex m) (l_entries (n_log (heard n m))) (m_Entries m) = Some k"
      "k < length (l_entries (n_log (heard n m)))" for k
    using that keep by (simp add: ae_overwrites_commit_def heard_def)
  obtain n1 where n1: "writeEntriesLocked ops (heard n m) (m_Entries m) = Some (None, n1)"
      "in_step slog sinv n1"
      "l_entries (n_log n1) = merge_at (m_PrevLogIndex m) (l_entries (n_log n)) (m_Entries m)"
    using writeEntriesLocked_ok [OF st0 _ _ _ keep0] ok mt by (auto simp: l0 ae_ok_def ae_matches_def)
  obtain l s where fr: "n1 = (heard n m)\<lparr>n_log := l, n_storage := s\<rparr>"
    using writeEntriesLocked_frame [OF n1(1)] by blast
  define n2 where "n2 = (if m_LeaderCommit m > n_commitIndex n1
    then queueHardStateLocked (n1\<lparr>n_commitIndex := min (m_LeaderCommit m) (m_PrevLogIndex m + length (m_Entries m))\<rparr>)
    else n1)"
  have "Match (n_log (heard n m)) (m_PrevLogIndex m) (m_PrevLogTerm m) = Some True"
    using st0 mt by (simp add: in_step_def l0 log_simps ae_matches_def)
  then have "handleAppendEntriesLocked ops n m =
      Some (replyAppendEntriesLocked n2 (m_From m) True (LastIndex (n_log n2)))"
    using tm n1(1) ok unfolding handleAppendEntriesLocked_def heard_def [symmetric]
    by (simp add: n2_def ae_ok_def u64_simps Let_def)
  moreover have "LastIndex (n_log n2) = length (l_entries (n_log n1))"
    using n1(2) by (simp add: n2_def in_step_def log_simps queueHardStateLocked_def)
  ultimately show ?thesis
    using n1(2,3) fr
    by (intro exI [of _ "replyAppendEntriesLocked n2 (m_From m) True (LastIndex (n_log n2))"])
       (simp add: n2_def in_step_def heard_def replyAppendEntriesLocked_def queueMsgLocked_def
          queueHardStateLocked_def ae_reply_def)
qed

lemma handleAppendEntriesLocked_panics:
  assumes "in_step slog sinv n" and "ae_ok m" and "n_currentTerm n \<le> m_Term m"
    and "ae_matches n m" and "ae_overwrites_commit n m"
  shows "handleAppendEntriesLocked ops n m = None"
proof -
  have wf: "log_wf (n_log n)" using assms(1) by (simp add: in_step_def)
  obtain k where k: "divergence (m_PrevLogIndex m) (l_entries (n_log n)) (m_Entries m) = Some k"
      "k < length (l_entries (n_log n))" "k < n_commitIndex n"
    using assms(5) by (auto simp: ae_overwrites_commit_def split: option.splits)
  have "firstConflictIndex (heard n m) (m_Entries m) = Some (k + 1)"
    using firstConflictIndex_divergence [OF wf, of "m_PrevLogIndex m" "m_Entries m"] assms(2) k(1)
    by (simp add: firstConflictIndex_def heard_def ae_ok_def)
  then have "writeEntriesLocked ops (heard n m) (m_Entries m) = None"
    using k wf by (simp add: writeEntriesLocked_def heard_def log_simps assertTruncateAboveCommit_def)
  moreover have "Match (n_log (heard n m)) (m_PrevLogIndex m) (m_PrevLogTerm m) = Some True"
    using wf assms(4) by (simp add: log_simps ae_matches_def heard_def)
  ultimately show ?thesis
    using assms(3) unfolding handleAppendEntriesLocked_def heard_def [symmetric] by simp
qed

lemma handleAppendEntriesLocked_outcome:
  assumes "in_step slog sinv n" and "ae_ok m"
  shows "(handleAppendEntriesLocked ops n m = None \<longleftrightarrow>
      n_currentTerm n \<le> m_Term m \<and> ae_matches n m \<and> ae_overwrites_commit n m) \<and>
    (\<forall>n'. handleAppendEntriesLocked ops n m = Some n' \<longrightarrow> in_step slog sinv n')"
proof -
  have wf: "log_wf (n_log n)" using assms(1) by (simp add: in_step_def)
  consider (reject) "m_Term m < n_currentTerm n \<or> \<not> ae_matches n m"
    | (accept) "n_currentTerm n \<le> m_Term m" "ae_matches n m" "\<not> ae_overwrites_commit n m"
    | (panic) "n_currentTerm n \<le> m_Term m" "ae_matches n m" "ae_overwrites_commit n m"
    by force
  then show ?thesis
  proof cases
    case reject
    from handleAppendEntriesLocked_reject [OF wf reject, of ops] obtain n'
      where n': "handleAppendEntriesLocked ops n m = Some n'" "same_log n n'" by blast
    with reject assms(1) show ?thesis by (auto simp: in_step_same_log [OF n'(2)])
  next
    case accept
    with handleAppendEntriesLocked_accept [OF assms accept] show ?thesis by auto
  next
    case panic
    with handleAppendEntriesLocked_panics [OF assms panic] show ?thesis by simp
  qed
qed

end

section \<open>No panics\<close>

text \<open>What the handlers other than AppendEntries need in order to return.\<close>

definition core_ok :: "'s node \<Rightarrow> bool" where
  "core_ok n \<longleftrightarrow> log_wf (n_log n) \<and> cand_ok n \<and> tickInterval (n_cfg n) \<noteq> 0"

lemma sendAppendEntriesLocked_total:
  "log_wf (n_log n) \<Longrightarrow> \<exists>n'. sendAppendEntriesLocked n peer = Some n' \<and> same_log n n'"
  by (simp add: sendAppendEntriesLocked_def log_simps same_log_def queueMsgLocked_def Let_def)

lemma fanOutAppendEntries_total:
  assumes "log_wf (n_log n)"
  shows "\<exists>n'. fanOutAppendEntries n = Some n' \<and> same_log n n'"
  unfolding fanOutAppendEntries_def
proof (rule fold_opt_total)
  fix peer n1 assume n1: "same_log n n1"
  then have "log_wf (n_log n1)" using assms by (simp add: same_log_def)
  from sendAppendEntriesLocked_total [OF this, of peer] n1
  show "\<exists>n2. (if peer = n_id n1 then Some n1 else sendAppendEntriesLocked n1 peer) = Some n2 \<and> same_log n n2"
    by (auto simp: same_log_def)
qed (simp add: same_log_def)

lemma maybeAdvanceCommitLocked_total:
  "log_wf (n_log n) \<Longrightarrow> \<exists>n'. maybeAdvanceCommitLocked n = Some n'"
  by (simp add: maybeAdvanceCommitLocked_def Let_def log_simps)

lemma broadcastAppendEntriesLocked_total:
  assumes "log_wf (n_log n)"
  shows "\<exists>n'. broadcastAppendEntriesLocked n = Some n'"
proof -
  obtain n1 where n1: "fanOutAppendEntries n = Some n1" "same_log n n1"
    using fanOutAppendEntries_total [OF assms] by blast
  with assms maybeAdvanceCommitLocked_total [of n1] show ?thesis
    by (auto simp: broadcastAppendEntriesLocked_def same_log_def)
qed

lemma becomeLeaderLocked_total:
  assumes "log_wf (n_log n)"
  shows "\<exists>n'. becomeLeaderLocked n = Some n'"
proof -
  have "\<exists>n'. fanOutAppendEntries n1 = Some n'" if "n_log n1 = n_log n" for n1 :: "'a node"
    using fanOutAppendEntries_total [of n1] assms that by auto
  then show ?thesis by (simp add: becomeLeaderLocked_def Let_def)
qed

lemma resetElectionTimeoutLocked_total:
  "tickInterval (n_cfg n) \<noteq> 0 \<Longrightarrow> \<exists>n'. resetElectionTimeoutLocked n = Some n'"
  by (simp add: resetElectionTimeoutLocked_def Let_def split: prod.splits)

lemma becomeCandidateLocked_total:
  assumes "core_ok n"
  shows "\<exists>n'. becomeCandidateLocked n = Some n'"
proof -
  let ?n = "n\<lparr>n_role := Candidate, n_currentTerm := u64_succ (n_currentTerm n),
    n_votedFor := n_id n, n_leaderHint := '''', n_votesReceived := Some [(n_id n, True)]\<rparr>"
  obtain n1 where n1: "resetElectionTimeoutLocked ?n = Some n1"
    using resetElectionTimeoutLocked_total [of ?n] assms by (auto simp: core_ok_def)
  have "n_log n1 = n_log n" using resetElectionTimeoutLocked_frame [OF n1] by auto
  then have "\<exists>n'. becomeLeaderLocked (fanOutRequestVote (queueHardStateLocked n1)) = Some n'"
    using assms by (intro becomeLeaderLocked_total)
      (simp add: core_ok_def fanOutRequestVote_eq queueHardStateLocked_def)
  with n1 show ?thesis by (simp add: becomeCandidateLocked_def Let_def)
qed

lemma core_ok_update [simp]:
  "core_ok (n\<lparr>n_electionElapsed := e\<rparr>) = core_ok n" "core_ok (n\<lparr>n_lastHeartbeat := e\<rparr>) = core_ok n"
  "core_ok (n\<lparr>n_heartbeatElapsed := e\<rparr>) = core_ok n"
  by (simp_all add: core_ok_def cand_ok_def)

lemma tickFollowerLocked_total: "core_ok n \<Longrightarrow> \<exists>n'. tickFollowerLocked n = Some n'"
  unfolding tickFollowerLocked_def Let_def
  by (cases "n_onElectionTrigger n") (simp_all add: becomeCandidateLocked_total)

lemma tickCandidateLocked_total: "core_ok n \<Longrightarrow> \<exists>n'. tickCandidateLocked n = Some n'"
  unfolding tickCandidateLocked_def Let_def by (simp add: becomeCandidateLocked_total)

lemma tickLeaderLocked_total:
  assumes "core_ok n"
  shows "\<exists>n'. tickLeaderLocked n = Some n'"
proof -
  have "\<exists>n'. broadcastAppendEntriesLocked (n\<lparr>n_heartbeatElapsed := 0\<rparr>) = Some n'"
    using assms by (intro broadcastAppendEntriesLocked_total) (simp add: core_ok_def)
  then show ?thesis by (simp add: tickLeaderLocked_def broadcastAppendEntriesLocked_def Let_def)
qed

lemma handleRequestVoteLocked_total: "core_ok n \<Longrightarrow> \<exists>n'. handleRequestVoteLocked n m = Some n'"
  using resetElectionTimeoutLocked_total [of "n\<lparr>n_votedFor := m_From m\<rparr>"]
  by (auto simp: handleRequestVoteLocked_def Let_def core_ok_def)

lemma handleRequestVoteResponseLocked_total:
  assumes "core_ok n"
  shows "\<exists>n'. handleRequestVoteResponseLocked n m = Some n'"
proof -
  have "\<exists>n'. becomeLeaderLocked (n\<lparr>n_votesReceived := v\<rparr>) = Some n'" for v
    using assms by (intro becomeLeaderLocked_total) (simp add: core_ok_def)
  then show ?thesis
    using assms by (auto simp: handleRequestVoteResponseLocked_def Let_def core_ok_def cand_ok_def)
qed

lemma handleAppendEntriesRespLocked_total:
  assumes "core_ok n"
  shows "\<exists>n'. handleAppendEntriesRespLocked n m = Some n'"
proof -
  have "\<exists>n'. maybeAdvanceCommitLocked (notifyProgressLocked (n\<lparr>n_matchIndex := a, n_nextIndex := b\<rparr>)) = Some n'" for a b
    using assms by (intro maybeAdvanceCommitLocked_total) (simp add: core_ok_def notifyProgressLocked_def)
  then show ?thesis by (simp add: handleAppendEntriesRespLocked_def)
qed

lemma maybeStepDownLocked_core_ok: "core_ok n \<Longrightarrow> core_ok (maybeStepDownLocked n t)"
  by (simp add: core_ok_def cand_ok_def maybeStepDownLocked_def queueHardStateLocked_def)

lemma stepLocked_total:
  assumes "core_ok n" and "m_Type m \<noteq> MsgAppendEntries"
  shows "\<exists>err n'. stepLocked ops n m = Some (err, n')"
proof -
  define n1 where "n1 = (if m_Term m > n_currentTerm n then maybeStepDownLocked n (m_Term m) else n)"
  have "core_ok n1" using assms(1) by (simp add: n1_def maybeStepDownLocked_core_ok)
  note total = tickFollowerLocked_total [OF this] tickCandidateLocked_total [OF this]
    tickLeaderLocked_total [OF this] handleRequestVoteLocked_total [OF this, of m]
    handleRequestVoteResponseLocked_total [OF this, of m] handleAppendEntriesRespLocked_total [OF this, of m]
  show ?thesis
    using assms(2) total unfolding stepLocked_def n1_def [symmetric] Let_def
    by (auto split: role.splits)
qed

section \<open>The commit rule\<close>

text \<open>What the leader believes a peer holds: its own log, or the last acknowledged index.\<close>

definition replicated :: "'s node \<Rightarrow> nodeid \<Rightarrow> nat" where
  "replicated n p = (if p = n_id n then length (l_entries (n_log n)) else get0 (n_matchIndex n) p)"

definition holders :: "'s node \<Rightarrow> nat \<Rightarrow> nodeid set" where
  "holders n i = {p \<in> fst ` set (n_matchIndex n). i \<le> replicated n p}"

lemma commit_matches_count:
  assumes "log_wf (n_log n)" and "distinct (map fst (n_matchIndex n))"
  shows "length (filter (\<lambda>x. i \<le> x) (commit_matches n)) = card (holders n i)"
proof -
  let ?f = "\<lambda>(peer, mi). if peer = n_id n then LastIndex (n_log n) else mi"
  have val: "?f (p, v) = replicated n p" if "(p, v) \<in> set (n_matchIndex n)" for p v
    using that assms by (simp add: replicated_def get0_mem log_simps)
  have "length (filter (\<lambda>x. i \<le> x) (commit_matches n)) =
      length (filter (\<lambda>x. i \<le> ?f x) (n_matchIndex n))"
    by (simp add: commit_matches_def filter_sort filter_map o_def)
  also have "filter (\<lambda>x. i \<le> ?f x) (n_matchIndex n) = filter (\<lambda>x. i \<le> replicated n (fst x)) (n_matchIndex n)"
    using val by (intro filter_cong) auto
  also have "length \<dots> = card (fst ` set (filter (\<lambda>x. i \<le> replicated n (fst x)) (n_matchIndex n)))"
  proof -
    have "distinct (map fst (filter (\<lambda>x. i \<le> replicated n (fst x)) (n_matchIndex n)))"
      using assms(2) by (rule distinct_map_filter)
    from distinct_card [OF this] show ?thesis by simp
  qed
  also have "fst ` set (filter (\<lambda>x. i \<le> replicated n (fst x)) (n_matchIndex n)) = holders n i"
    by (auto simp: holders_def)
  finally show ?thesis .
qed

text \<open>
  C7: the commit rule. A leader whose match table has at least a quorum of entries moves its
  commit index exactly to the highest index that a quorum holds, and only when that index
  is new and its entry is of the current term; otherwise the commit index stays.
\<close>

theorem commit_rule:
  assumes "log_wf (n_log n)" and "distinct (map fst (n_matchIndex n))"
    and "quorum n \<le> length (n_matchIndex n)" and "maybeAdvanceCommitLocked n = Some n'"
  shows "\<exists>q. quorum n \<le> card (holders n q) \<and>
    (\<forall>i. quorum n \<le> card (holders n i) \<longrightarrow> i \<le> q) \<and>
    n_commitIndex n' = (if n_commitIndex n < q \<and> term_at (l_entries (n_log n)) q = n_currentTerm n
                        then q else n_commitIndex n)"
proof -
  let ?xs = "commit_matches n"
  let ?q = "?xs ! (length ?xs - quorum n)"
  have sorted: "sorted ?xs" and len: "length ?xs = length (n_matchIndex n)"
    by (simp_all add: commit_matches_def)
  have pos: "0 < quorum n" by (simp add: quorum_def)
  have "quorum n \<le> card (holders n ?q)"
    using sorted_top_count [OF sorted _ pos] assms(3) len commit_matches_count [OF assms(1,2)] by simp
  moreover have "i \<le> ?q" if "quorum n \<le> card (holders n i)" for i
    using sorted_top_greatest [OF sorted _ pos, of i] assms(3) len commit_matches_count [OF assms(1,2)] that
    by simp
  moreover have "n_commitIndex n' = (if n_commitIndex n < ?q \<and> term_at (l_entries (n_log n)) ?q = n_currentTerm n
      then ?q else n_commitIndex n)"
    using assms(3,4) len
    by (auto simp: maybeAdvanceCommitLocked_def Let_def log_simps assms(1) notifyProgressLocked_def
          queueHardStateLocked_def split: if_splits)
  ultimately show ?thesis by blast
qed

text \<open>A leader of term 1 with one entry, held by \<open>b\<close> as well.\<close>

definition demo_entry :: "nat \<Rightarrow> nat \<Rightarrow> entry" where
  "demo_entry t i = \<lparr>ent_Term = t, ent_Index = i, ent_Data = []\<rparr>"

definition demo_leader :: "mem_storage node" where
  "demo_leader =
     (demo_node abc (mem_New\<lparr>mem_entries := [demo_entry 1 1]\<rparr>) ''a'')
       \<lparr>n_currentTerm := 1, n_votedFor := ''a'', n_role := Leader, n_heartbeatTimeout := 1,
        n_nextIndex := [(''a'', 2), (''b'', 2), (''c'', 1)],
        n_matchIndex := [(''a'', 1), (''b'', 1), (''c'', 0)]\<rparr>"

theorem commit_rule_witness:
  "\<exists>n'. maybeAdvanceCommitLocked demo_leader = Some n' \<and> n_commitIndex n' = 1 \<and>
    (\<exists>q. quorum demo_leader \<le> card (holders demo_leader q) \<and>
      n_commitIndex n' = (if 0 < q \<and> term_at (l_entries (n_log demo_leader)) q = 1 then q else 0))"
proof -
  have wf: "log_wf (n_log demo_leader)" and d: "distinct (map fst (n_matchIndex demo_leader))"
    and q: "quorum demo_leader \<le> length (n_matchIndex demo_leader)"
    and t: "n_currentTerm demo_leader = 1" "n_commitIndex demo_leader = 0"
    by code_simp+
  obtain n' where n': "maybeAdvanceCommitLocked demo_leader = Some n'"
    using maybeAdvanceCommitLocked_total [OF wf] by blast
  have "case maybeAdvanceCommitLocked demo_leader of Some n' \<Rightarrow> n_commitIndex n' = 1 | None \<Rightarrow> False"
    by code_simp
  with n' have "n_commitIndex n' = 1" by simp
  with commit_rule [OF wf d q n'] n' show ?thesis unfolding t by blast
qed

section \<open>The receiver\<close>

text \<open>
  C5: an AppendEntries request of the current or a newer term whose previous entry is in the
  log is answered with success. The node's log, and with it the store's, becomes the
  reference merge: everything up to \<^verbatim>\<open>PrevLogIndex\<close> stays, each entry of the batch is
  present with its term, nothing is removed unless an entry differs, and delivering the
  same batch again changes nothing.
\<close>

theorem append_entries_accept:
  assumes "reliable_storage ops slog shs ssnap sinv" and "in_step slog sinv n" and "ae_ok m"
    and "n_currentTerm n \<le> m_Term m" and "ae_matches n m" and "\<not> ae_overwrites_commit n m"
  shows "\<exists>n'. handleAppendEntriesLocked ops n m = Some n' \<and> in_step slog sinv n' \<and>
    l_entries (n_log n') = merge_at (m_PrevLogIndex m) (l_entries (n_log n)) (m_Entries m) \<and>
    take (m_PrevLogIndex m) (l_entries (n_log n')) = take (m_PrevLogIndex m) (l_entries (n_log n)) \<and>
    (\<forall>j < length (m_Entries m). m_PrevLogIndex m + j < length (l_entries (n_log n')) \<and>
       ent_Term (l_entries (n_log n') ! (m_PrevLogIndex m + j)) = ent_Term (m_Entries m ! j)) \<and>
    merge_at (m_PrevLogIndex m) (l_entries (n_log n')) (m_Entries m) = l_entries (n_log n') \<and>
    n_pendingMsgs n' = n_pendingMsgs n @ [ae_reply n m True (length (l_entries (n_log n')))]"
proof -
  have i: "m_PrevLogIndex m \<le> length (l_entries (n_log n))" using assms(5) by (simp add: ae_matches_def)
  from reliable_storage.handleAppendEntriesLocked_accept [OF assms]
  obtain n' where n': "handleAppendEntriesLocked ops n m = Some n'" "in_step slog sinv n'"
    and l: "l_entries (n_log n') = merge_at (m_PrevLogIndex m) (l_entries (n_log n)) (m_Entries m)"
    and reply: "n_pendingMsgs n' = n_pendingMsgs n @ [ae_reply n m True (length (l_entries (n_log n')))]"
    by blast
  show ?thesis
    using n' reply merge_at_prefix [OF i] merge_at_terms [OF i] merge_at_idem [OF i]
    by (intro exI [of _ n']) (simp add: l)
qed

text \<open>A batch of one entry of term 2 for a follower holding a longer log of term 1.\<close>

definition demo_follower :: "mem_storage node" where
  "demo_follower =
     (demo_node abc (mem_New\<lparr>mem_entries := [demo_entry 1 1, demo_entry 1 2, demo_entry 1 3]\<rparr>) ''b'')
       \<lparr>n_currentTerm := 2, n_commitIndex := 1\<rparr>"

definition demo_ae :: message where
  "demo_ae = zero_message\<lparr>m_Type := MsgAppendEntries, m_Term := 2, m_From := ''a'', m_To := ''b'',
     m_PrevLogIndex := 1, m_PrevLogTerm := 1, m_Entries := [demo_entry 2 2], m_LeaderCommit := 2\<rparr>"

lemma demo_follower_ok: "in_step mem_entries mem_wf demo_follower" "ae_ok demo_ae"
  "n_currentTerm demo_follower \<le> m_Term demo_ae" "ae_matches demo_follower demo_ae"
  "\<not> ae_overwrites_commit demo_follower demo_ae"
  by code_simp+

theorem append_entries_accept_witness:
  "\<exists>n'. handleAppendEntriesLocked mem_ops demo_follower demo_ae = Some n' \<and>
    l_entries (n_log n') = [demo_entry 1 1, demo_entry 2 2] \<and> mem_entries (n_storage n') = [demo_entry 1 1, demo_entry 2 2]"
proof -
  have "merge_at (m_PrevLogIndex demo_ae) (l_entries (n_log demo_follower)) (m_Entries demo_ae) =
      [demo_entry 1 1, demo_entry 2 2]"
    by code_simp
  with append_entries_accept [OF mem.reliable_storage_axioms demo_follower_ok] show ?thesis
    by (auto simp: in_step_def)
qed

text \<open>
  C6: on a reliable store the core panics in one situation only: an AppendEntries request
  that matches at \<^verbatim>\<open>PrevLogIndex\<close> and would overwrite an entry at or below the commit index.
  Every other message is handled, and afterwards the store still holds the node's log.
\<close>

theorem step_panics_iff:
  assumes "reliable_storage ops slog shs ssnap sinv" and "in_step slog sinv n" and "core_ok n"
    and "m_Type m = MsgAppendEntries \<longrightarrow> ae_ok m"
  shows "(stepLocked ops n m = None \<longleftrightarrow>
      m_Type m = MsgAppendEntries \<and> n_currentTerm n \<le> m_Term m \<and> ae_matches n m \<and> ae_overwrites_commit n m) \<and>
    (\<forall>err n'. stepLocked ops n m = Some (err, n') \<longrightarrow> in_step slog sinv n')"
proof (cases "m_Type m = MsgAppendEntries")
  case False
  from stepLocked_total [OF assms(3) False, of ops] obtain err n'
    where ok: "stepLocked ops n m = Some (err, n')" by blast
  from ok have "same_log n n'" using False by (cases rule: stepLocked_log_cases) auto
  with ok False assms(2) show ?thesis by (auto simp: in_step_same_log [of n n'])
next
  case True
  let ?n1 = "maybeStepDownLocked n (m_Term m)"
  have same: "same_log n ?n1" by (rule maybeStepDownLocked_same_log)
  have eq: "stepLocked ops n m = map_option (Pair None) (handleAppendEntriesLocked ops ?n1 m)"
    using True by (simp add: stepLocked_def Let_def maybeStepDownLocked_def)
  have tm: "n_currentTerm ?n1 \<le> m_Term m \<longleftrightarrow> n_currentTerm n \<le> m_Term m"
    and ci: "n_commitIndex ?n1 = n_commitIndex n"
    by (auto simp: maybeStepDownLocked_def queueHardStateLocked_def)
  have "in_step slog sinv ?n1" "ae_ok m"
    using assms(2,4) True by (simp_all add: in_step_same_log [OF same])
  note outcome = reliable_storage.handleAppendEntriesLocked_outcome [OF assms(1) this]
  have "ae_matches ?n1 m = ae_matches n m" "ae_overwrites_commit ?n1 m = ae_overwrites_commit n m"
    using same ci by (auto simp: same_log_def ae_matches_def ae_overwrites_commit_def split: option.splits)
  with outcome show ?thesis using True tm by (simp add: eq)
qed

lemma demo_follower_core: "core_ok (demo_follower\<lparr>n_commitIndex := c\<rparr>)"
proof -
  have "log_wf (n_log demo_follower)" "n_role demo_follower = Follower"
    "n_id demo_follower = ''b''" "n_votesReceived demo_follower = None" "tickInterval (n_cfg demo_follower) \<noteq> 0"
    by code_simp+
  then show ?thesis by (simp add: core_ok_def cand_ok_def)
qed

text \<open>The follower above with three entries committed refuses to lose the second one.\<close>

theorem step_panics_iff_witness:
  "stepLocked mem_ops (demo_follower\<lparr>n_commitIndex := 3\<rparr>) demo_ae = None \<and>
   stepLocked mem_ops demo_follower demo_ae \<noteq> None"
proof -
  have a: "in_step mem_entries mem_wf (demo_follower\<lparr>n_commitIndex := 3\<rparr>)"
    and m: "m_Type demo_ae = MsgAppendEntries \<longrightarrow> ae_ok demo_ae"
    and b: "in_step mem_entries mem_wf (demo_follower\<lparr>n_commitIndex := 1\<rparr>)"
    and d: "demo_follower\<lparr>n_commitIndex := 1\<rparr> = demo_follower"
    and c: "m_Type demo_ae = MsgAppendEntries" "n_currentTerm (demo_follower\<lparr>n_commitIndex := 3\<rparr>) \<le> m_Term demo_ae"
      "ae_matches (demo_follower\<lparr>n_commitIndex := 3\<rparr>) demo_ae"
      "ae_overwrites_commit (demo_follower\<lparr>n_commitIndex := 3\<rparr>) demo_ae"
      "\<not> ae_overwrites_commit demo_follower demo_ae"
    by (code_simp | simp add: demo_follower_def)+
  have "stepLocked mem_ops (demo_follower\<lparr>n_commitIndex := 3\<rparr>) demo_ae = None"
    using step_panics_iff [OF mem.reliable_storage_axioms a demo_follower_core m] c(1-4) by simp
  moreover have "stepLocked mem_ops demo_follower demo_ae \<noteq> None"
    using step_panics_iff [OF mem.reliable_storage_axioms b demo_follower_core m] c(5)
    unfolding d by simp
  ultimately show ?thesis by simp
qed

end
