(* ===== verification/Raft_Apply.thy ===== *)
theory Raft_Apply
  imports Raft_Driver Raft_Node_Log
begin

text \<open>
  The delivery of committed entries to the state machine. A run of one public node is any
  interleaving of its goroutines and callers (\<open>ni_step\<close>); the ghost list beside the node
  records the entries handed to \<^verbatim>\<open>StateMachine.Apply\<close>. Shown: entries are applied in index
  order without gap or repetition, a drain delivers exactly the committed entries, what a
  checkpoint saves is where the next incarnation resumes, and a stopped node refuses work.
\<close>

section \<open>What a predicate on the store survives\<close>

text \<open>
  The core touches its store by \<^verbatim>\<open>Append\<close> and \<^verbatim>\<open>TruncateSuffix\<close> only; any predicate those two
  keep survives every step of the core.
\<close>

locale log_writes =
  fixes ops :: "'s storage_ops" and Q :: "'s \<Rightarrow> bool"
  assumes append_keeps: "Q s \<Longrightarrow> op_Append ops s es = (r, s') \<Longrightarrow> Q s'"
    and truncate_keeps: "Q s \<Longrightarrow> op_TruncateSuffix ops s i = (r, s') \<Longrightarrow> Q s'"
begin

lemma mirrorLogWriteLocked_keeps:
  assumes "mirrorLogWriteLocked ops n i es = (err, n')" and "Q (n_storage n)"
  shows "Q (n_storage n')"
proof -
  obtain r1 s1 where t: "op_TruncateSuffix ops (n_storage n) i = (r1, s1)" by fastforce
  obtain r2 s2 where a: "op_Append ops s1 es = (r2, s2)" by fastforce
  have "n' = n\<lparr>n_storage := s1\<rparr> \<or> n' = n\<lparr>n_storage := s2\<rparr>"
    using assms(1) t a by (auto simp: mirrorLogWriteLocked_def split: option.splits)
  then show ?thesis
    using truncate_keeps [OF assms(2) t] append_keeps [OF _ a] by auto
qed

lemma writeEntriesLocked_keeps:
  "writeEntriesLocked ops n es = Some (err, n') \<Longrightarrow> Q (n_storage n) \<Longrightarrow> Q (n_storage n')"
  by (auto simp: writeEntriesLocked_def Let_def Option.bind_eq_Some_conv split: if_splits
           dest!: mirrorLogWriteLocked_keeps)

lemma handleAppendEntriesLocked_keeps:
  assumes "handleAppendEntriesLocked ops n m = Some n'" and "Q (n_storage n)"
  shows "Q (n_storage n')"
proof -
  have reply: "n_storage (replyAppendEntriesLocked n1 p ok i) = n_storage n1" for n1 p ok i
    by (simp add: replyAppendEntriesLocked_def queueMsgLocked_def)
  have Q: "Q (n_storage (heard n m))" using assms(2) by (simp add: heard_def)
  from assms(1) show ?thesis
  proof (cases rule: handleAppendEntriesLocked_cases)
    case early
    then show ?thesis using assms(2) by (auto simp: reply heard_def)
  next
    case failed
    then show ?thesis using writeEntriesLocked_keeps [OF failed(1) Q] by (auto simp: reply)
  next
    case written
    then show ?thesis
      using writeEntriesLocked_keeps [OF written(1) Q] by (auto simp: reply queueHardStateLocked_def)
  qed
qed

lemma proposeLocked_keeps:
  assumes "proposeLocked ops n data = Some (r, n')" and "Q (n_storage n)"
  shows "Q (n_storage n')"
proof -
  have "\<exists>e s. n_storage n' = n_storage n \<or> op_Append ops (n_storage n) [e] = (s, n_storage n')"
    using assms(1)
    by (auto simp: proposeLocked_def Let_def Option.bind_eq_Some_conv split: if_splits prod.splits option.splits)
  then show ?thesis using append_keeps assms(2) by auto
qed

lemma Step_keeps:
  assumes "Step ops n m = Some (err, n')" and "Q (n_storage n)"
  shows "Q (n_storage n')"
proof -
  have "Q (n_storage n')" if "stepLocked ops n m = Some (err, n')"
    using that
  proof (cases rule: stepLocked_log_cases)
    case other
    with assms(2) show ?thesis by (simp add: same_log_def)
  next
    case (ae n1)
    then show ?thesis
      using handleAppendEntriesLocked_keeps [OF ae(4)] assms(2) by (simp add: same_log_def)
  qed
  with assms show ?thesis by (auto simp: Step_def split: if_splits)
qed

end

section \<open>Runs of a node\<close>

text \<open>
  The middle component is where the driver's drain stands, the last one the entries
  given to \<^verbatim>\<open>Apply\<close> so far. A step is labelled with the message it receives and the
  messages it sends.
\<close>

type_synonym ('s, 'm, 'r) run_state = "('s, 'm, 'r) nodeImpl \<times> drain_state \<times> entry list"

fun parked :: "drain_state \<Rightarrow> bool" where
  "parked (DrainParked ci i e) = True"
| "parked _ = False"

inductive ni_step ::
  "'s storage_ops \<Rightarrow> ('m, 'r) sm_ops \<Rightarrow> ('s, 'm, 'r) run_state \<Rightarrow> message option \<Rightarrow> message list \<Rightarrow>
   ('s, 'm, 'r) run_state \<Rightarrow> bool"
  for ops smo where
  start: "Start n = (err, n') \<Longrightarrow> ni_step ops smo (n, d, h) None [] (n', d, h)"
| step: "impl_Step ops n ctxDone m = Some (err, n') \<Longrightarrow> ni_step ops smo (n, d, h) (Some m) [] (n', d, h)"
| inbound: "inbound ops n ctxDone m = Some (err, n') \<Longrightarrow> ni_step ops smo (n, d, h) (Some m) [] (n', d, h)"
| submit: "propose_submit ops n data = Some (r, n') \<Longrightarrow> ni_step ops smo (n, d, h) None [] (n', d, h)"
| wait: "propose_wait n ctxDone idx trm ch = Some (r, n') \<Longrightarrow> ni_step ops smo (n, d, h) None [] (n', d, h)"
| tick: "\<not> parked d \<Longrightarrow> runTicker_tick ops n = Some (msgs, d', n') \<Longrightarrow>
    ni_step ops smo (n, d, h) None msgs (n', d', h)"
| wake: "\<not> parked d \<Longrightarrow> ni_wake n \<Longrightarrow> runTicker_wake ops n = (msgs, d', n') \<Longrightarrow>
    ni_step ops smo (n, d, h) None msgs (n', d', h)"
| resume: "drainResume ops ci i e n = (d', n') \<Longrightarrow>
    ni_step ops smo (n, DrainParked ci i e, h) None [] (n', d', h)"
| apply1: "ni_applyCh n = e # es \<Longrightarrow> ni_step ops smo (n, d, h) None [] (runApply ops smo n, d, h @ [e])"
| stop: "Stop ops smo n joined = Some (err, n') \<Longrightarrow> ni_step ops smo (n, d, h) None [] (n', d, h)"

inductive ni_run :: "'s storage_ops \<Rightarrow> ('m, 'r) sm_ops \<Rightarrow> ('s, 'm, 'r) run_state \<Rightarrow> ('s, 'm, 'r) run_state \<Rightarrow> bool"
  for ops smo where
  refl: "ni_run ops smo s s"
| more: "ni_run ops smo s s' \<Longrightarrow> ni_step ops smo s' rcv out s'' \<Longrightarrow> ni_run ops smo s s''"

section \<open>Entries are applied in order, once each\<close>

text \<open>
  What the pipeline needs of a store: a read at \<open>i\<close> returns the entry numbered \<open>i\<close>, and
  every write, failing or not, leaves it that way.
\<close>

locale indexed_storage = log_writes ops sinv for ops :: "'s storage_ops" and sinv +
  assumes save_hs_keeps: "sinv s \<Longrightarrow> op_SaveHardState ops s hs = (r, s') \<Longrightarrow> sinv s'"
    and save_snap_keeps: "sinv s \<Longrightarrow> op_SaveSnapshot ops s sn = (r, s') \<Longrightarrow> sinv s'"
    and read_indexed: "sinv s \<Longrightarrow> op_Entries ops s i (u64_succ i) = Inr (e # es) \<Longrightarrow>
      ent_Index e = i \<and> i + 1 < u64_size"

fun parked_next :: "drain_state \<Rightarrow> nat \<Rightarrow> bool" where
  "parked_next (DrainParked ci i e) k = (i = k + 1 \<and> ent_Index e = i \<and> i + 1 < u64_size)"
| "parked_next _ k = True"

lemma parked_next_idle [simp]: "\<not> parked d \<Longrightarrow> parked_next d k"
  by (cases d) auto

definition pipeline :: "('s \<Rightarrow> bool) \<Rightarrow> nat \<Rightarrow> ('s, 'm, 'r) run_state \<Rightarrow> bool" where
  "pipeline sinv base = (\<lambda>(n, d, h).
     sinv (n_storage (ni_core n)) \<and> contiguous_from (base + 1) (h @ ni_applyCh n) \<and>
     ni_appliedIdx n = base + length h \<and> ni_enqueuedIdx n = base + length h + length (ni_applyCh n) \<and>
     ni_enqueuedIdx n + 1 < u64_size \<and>
     parked_next d (ni_enqueuedIdx n))"

text \<open>The fields the pipeline invariant is about.\<close>

definition same_queue :: "('s, 'm, 'r) nodeImpl \<Rightarrow> ('s, 'm, 'r) nodeImpl \<Rightarrow> bool" where
  "same_queue n n' \<longleftrightarrow> ni_applyCh n' = ni_applyCh n \<and> ni_appliedIdx n' = ni_appliedIdx n \<and>
     ni_enqueuedIdx n' = ni_enqueuedIdx n"

lemma pipeline_same_queue:
  "pipeline sinv base (n, d, h) \<Longrightarrow> same_queue n n' \<Longrightarrow> sinv (n_storage (ni_core n')) \<Longrightarrow>
   pipeline sinv base (n', d, h)"
  by (auto simp: pipeline_def same_queue_def)

lemma resolve_waiter_frame [simp]:
  "ni_applyCh (resolve_waiter n i r) = ni_applyCh n" "ni_appliedIdx (resolve_waiter n i r) = ni_appliedIdx n"
  "ni_enqueuedIdx (resolve_waiter n i r) = ni_enqueuedIdx n" "ni_core (resolve_waiter n i r) = ni_core n"
  "ni_fatal (resolve_waiter n i r) = ni_fatal n" "ni_sm (resolve_waiter n i r) = ni_sm n"
  "ni_snapshotIdx (resolve_waiter n i r) = ni_snapshotIdx n" "ni_cfg (resolve_waiter n i r) = ni_cfg n"
  by (auto simp: resolve_waiter_def split: option.splits)

lemma checkpoint_cases:
  assumes "checkpoint ops smo n = Some n'"
  obtains (skip) "n' = n"
    | (failed) s e sn where "n' = n\<lparr>ni_core := (ni_core n)\<lparr>n_storage := s\<rparr>\<rparr>"
        "op_SaveSnapshot ops (n_storage (ni_core n)) sn = (Some e, s)"
    | (saved) s data sidx trm where "sm_Snapshot smo (ni_sm n) = Inr (data, sidx)" "0 < sidx"
        "op_SaveSnapshot ops (n_storage (ni_core n)) \<lparr>snap_Index = sidx, snap_Term = trm, snap_Data = data\<rparr> = (None, s)"
        "n' = n\<lparr>ni_core := (ni_core n)\<lparr>n_storage := s\<rparr>, ni_snapshotIdx := sidx\<rparr>"
proof (cases "sm_Snapshot smo (ni_sm n)")
  case (Inl e)
  with assms skip show ?thesis by (simp add: checkpoint_def)
next
  case (Inr r)
  obtain data sidx where r: "r = (data, sidx)" by (cases r)
  show ?thesis
  proof (cases "sidx = 0")
    case True
    with assms skip Inr r show ?thesis by (simp add: checkpoint_def)
  next
    case False
    with assms Inr r obtain trm where trm: "log_Term0 (n_log (ni_core n)) sidx = Some trm"
      by (auto simp: checkpoint_def Option.bind_eq_Some_conv)
    obtain err s where s: "op_SaveSnapshot ops (n_storage (ni_core n))
        \<lparr>snap_Index = sidx, snap_Term = trm, snap_Data = data\<rparr> = (err, s)" by fastforce
    from False assms Inr r trm s have "n' = (let n = n\<lparr>ni_core := (ni_core n)\<lparr>n_storage := s\<rparr>\<rparr> in
        if err \<noteq> None then n else n\<lparr>ni_snapshotIdx := sidx\<rparr>)"
      by (simp add: checkpoint_def Let_def)
    with s False Inr r show ?thesis
      by (cases err) (auto intro: failed saved)
  qed
qed

lemma checkpoint_frame:
  assumes "checkpoint ops smo n = Some n'"
  shows "same_queue n n'" "n_log (ni_core n') = n_log (ni_core n)" "ni_waiters n' = ni_waiters n"
    "ni_results n' = ni_results n" "ni_fatal n' = ni_fatal n" "ni_sm n' = ni_sm n"
    "n_storage (ni_core n') = n_storage (ni_core n) \<or>
       (\<exists>sn r. op_SaveSnapshot ops (n_storage (ni_core n)) sn = (r, n_storage (ni_core n')))"
  using assms by (cases rule: checkpoint_cases; auto simp: same_queue_def)+

lemma applyOne_cases:
  obtains (recover) n1 where "applyOne ops smo n e = applyRecover n1 e" "same_queue n (n1\<lparr>ni_appliedIdx := ni_appliedIdx n\<rparr>)"
        "ni_core n1 = ni_core n"
    | (ok) n1 where "applyOne ops smo n e = n1" "ni_appliedIdx n1 = ent_Index e" "ni_core n1 = ni_core n"
        "ni_applyCh n1 = ni_applyCh n" "ni_enqueuedIdx n1 = ni_enqueuedIdx n"
    | (saved) n1 where "checkpoint ops smo n1 = Some (applyOne ops smo n e)"
        "ni_appliedIdx n1 = ent_Index e" "ni_core n1 = ni_core n"
        "ni_applyCh n1 = ni_applyCh n" "ni_enqueuedIdx n1 = ni_enqueuedIdx n"
proof (cases "sm_Apply smo (ni_sm n) e")
  case (Pair out sm')
  show ?thesis
  proof (cases out)
    case None
    with Pair show ?thesis by (intro recover [of "n\<lparr>ni_sm := sm'\<rparr>"]) (simp_all add: applyOne_def same_queue_def)
  next
    case (Some r)
    define n1 where "n1 = resolve_waiter (n\<lparr>ni_sm := sm', ni_appliedIdx := ent_Index e\<rparr>) (ent_Index e) r"
    have n1: "ni_appliedIdx n1 = ent_Index e" "ni_core n1 = ni_core n" "ni_applyCh n1 = ni_applyCh n"
        "ni_enqueuedIdx n1 = ni_enqueuedIdx n"
      by (simp_all add: n1_def)
    have eq: "applyOne ops smo n e =
      (if ent_Index e \<ge> u64_add (ni_snapshotIdx n1) (cfg_SnapshotInterval (ni_cfg n1))
       then (case checkpoint ops smo n1 of None \<Rightarrow> applyRecover n1 e | Some n' \<Rightarrow> n') else n1)"
      using Pair Some by (auto simp: applyOne_def n1_def Let_def split: option.split)
    show ?thesis
    proof (cases "ent_Index e \<ge> u64_add (ni_snapshotIdx n1) (cfg_SnapshotInterval (ni_cfg n1))")
      case False
      with ok [of n1] eq n1 show ?thesis by simp
    next
      case True
      with recover [of n1] saved [of n1] eq n1 show ?thesis
        by (cases "checkpoint ops smo n1") (simp_all add: same_queue_def)
    qed
  qed
qed

text \<open>The drain loop, one iteration.\<close>

declare drainLoop.simps [simp del] applyCommittedForTest_loop.simps [simp del]

lemma drainLoop_done: "ci < i \<Longrightarrow> drainLoop ops ci i n = (DrainDone, n)"
  by (subst drainLoop.simps) simp

lemma drainLoop_unreadable:
  assumes "i \<le> ci" and "\<And>e es. op_Entries ops (n_storage (ni_core n)) i (u64_succ i) \<noteq> Inr (e # es)"
  shows "drainLoop ops ci i n = (DrainReadError, n)"
  using assms by (subst drainLoop.simps) (auto split: sum.split list.split)

lemma drainLoop_read:
  assumes "i \<le> ci" and "op_Entries ops (n_storage (ni_core n)) i (u64_succ i) = Inr (e # es)"
  shows "drainLoop ops ci i n =
    (if length (ni_applyCh n) \<ge> applyBuf (ni_cfg n) then (DrainParked ci i e, n)
     else drainLoop ops ci (i + 1) (n\<lparr>ni_applyCh := ni_applyCh n @ [e], ni_enqueuedIdx := i\<rparr>))"
  using assms by (subst drainLoop.simps) simp

lemma drainLoop_core: "ni_core (snd (drainLoop ops ci i n)) = ni_core n"
  by (induction ops ci i n rule: drainLoop.induct)
     (subst drainLoop.simps, auto split: sum.splits list.splits)

context indexed_storage
begin

lemma pipeline_enqueue:
  assumes "pipeline sinv base (n, d, h)" and "ent_Index e = ni_enqueuedIdx n + 1" and "ni_enqueuedIdx n + 2 < u64_size"
  shows "pipeline sinv base (n\<lparr>ni_applyCh := ni_applyCh n @ [e], ni_enqueuedIdx := ni_enqueuedIdx n + 1\<rparr>, DrainDone, h)"
  using assms by (simp add: pipeline_def contiguous_from_append)

lemma drainLoop_pipeline:
  assumes "pipeline sinv base (n, DrainDone, h)" and "i = ni_enqueuedIdx n + 1"
    and "drainLoop ops ci i n = (d', n')"
  shows "pipeline sinv base (n', d', h)"
  using assms
proof (induction "ci + 1 - i" arbitrary: i n)
  case 0
  then show ?case by (simp add: drainLoop_done)
next
  case (Suc k)
  show ?case
  proof (cases "\<exists>e es. op_Entries ops (n_storage (ni_core n)) i (u64_succ i) = Inr (e # es)")
    case False
    with Suc.hyps(2) have "drainLoop ops ci i n = (DrainReadError, n)"
      by (intro drainLoop_unreadable) auto
    with Suc.prems(1,3) show ?thesis by (simp add: pipeline_def)
  next
    case True
    then obtain e es where e: "op_Entries ops (n_storage (ni_core n)) i (u64_succ i) = Inr (e # es)" by blast
    have idx: "ent_Index e = i" "i + 1 < u64_size"
      using read_indexed [OF _ e] Suc.prems(1) by (simp_all add: pipeline_def)
    show ?thesis
    proof (cases "applyBuf (ni_cfg n) \<le> length (ni_applyCh n)")
      case True
      with Suc.prems Suc.hyps(2) e idx show ?thesis
        by (simp add: drainLoop_read) (auto simp: pipeline_def)
    next
      case False
      let ?n1 = "n\<lparr>ni_applyCh := ni_applyCh n @ [e], ni_enqueuedIdx := i\<rparr>"
      have "drainLoop ops ci (i + 1) ?n1 = (d', n')"
        using Suc.prems(3) Suc.hyps(2) e False by (simp add: drainLoop_read)
      moreover have "pipeline sinv base (?n1, DrainDone, h)"
        using pipeline_enqueue [OF Suc.prems(1), of e] idx Suc.prems(2) by simp
      ultimately show ?thesis using Suc.hyps(2) by (intro Suc.hyps(1)) auto
    qed
  qed
qed

lemma drainCommitsToApply_pipeline:
  assumes "pipeline sinv base (n, d, h)" and "\<not> parked d" and "drainCommitsToApply ops n = (d', n')"
  shows "pipeline sinv base (n', d', h)"
proof -
  have p: "pipeline sinv base (n, DrainDone, h)"
    using assms(1,2) by (auto simp: pipeline_def)
  have "u64_succ (ni_enqueuedIdx n) = ni_enqueuedIdx n + 1"
    using p by (simp add: pipeline_def u64_succ_id)
  with drainLoop_pipeline [OF p] assms(3) show ?thesis by (simp add: drainCommitsToApply_def)
qed

lemma saveHS_keeps: "sinv (n_storage core) \<Longrightarrow> sinv (n_storage (saveHS ops core hs))"
  by (cases hs) (auto simp: saveHS_def intro: save_hs_keeps [OF _ prod.collapse [symmetric]])

lemma flush_pipeline:
  assumes "pipeline sinv base (n, d, h)" and "\<not> parked d" and "flush ops n = (msgs, d', n')"
  shows "pipeline sinv base (n', d', h)"
proof -
  obtain hs core where r: "Ready (ni_core n) = ((msgs, hs), core)" and core: "n_storage core = n_storage (ni_core n)"
    and dr: "drainCommitsToApply ops (n\<lparr>ni_core := saveHS ops core hs\<rparr>) = (d', n')"
    using assms(3) by (auto simp: flush_def Ready_def Let_def split: prod.splits)
  have "pipeline sinv base (n\<lparr>ni_core := saveHS ops core hs\<rparr>, d, h)"
    by (rule pipeline_same_queue [OF assms(1)])
       (use assms(1) core saveHS_keeps [of core hs] in \<open>simp_all add: same_queue_def pipeline_def\<close>)
  from drainCommitsToApply_pipeline [OF this assms(2) dr] show ?thesis .
qed

lemma runApply_pipeline:
  assumes "pipeline sinv base (n, d, h)" and "ni_applyCh n = e # es"
  shows "pipeline sinv base (runApply ops smo n, d, h @ [e])"
proof -
  let ?n = "n\<lparr>ni_applyCh := es\<rparr>"
  have run: "runApply ops smo n = applyOne ops smo ?n e" using assms(2) by (simp add: runApply_def)
  have idx: "ent_Index e = base + length h + 1"
    using assms by (simp add: pipeline_def contiguous_from_append)
  have goal: "pipeline sinv base (n', d, h @ [e])"
    if "ni_appliedIdx n' = ent_Index e" "ni_applyCh n' = es" "ni_enqueuedIdx n' = ni_enqueuedIdx n"
      "sinv (n_storage (ni_core n'))" for n'
    using that assms idx by (auto simp: pipeline_def)
  have s: "sinv (n_storage (ni_core n))" using assms(1) by (simp add: pipeline_def)
  show ?thesis
    unfolding run
  proof (cases rule: applyOne_cases [of ops smo ?n e])
    case (recover n1)
    with s show "pipeline sinv base (applyOne ops smo ?n e, d, h @ [e])"
      by (intro goal) (simp_all add: applyRecover_def same_queue_def Let_def)
  next
    case (ok n1)
    with s show "pipeline sinv base (applyOne ops smo ?n e, d, h @ [e])" by (intro goal) simp_all
  next
    case (saved n1)
    with checkpoint_frame(1,7) [OF saved(1)] s save_snap_keeps
    show "pipeline sinv base (applyOne ops smo ?n e, d, h @ [e])"
      by (intro goal) (auto simp: same_queue_def)
  qed
qed

lemma propose_submit_pipeline:
  assumes "pipeline sinv base (n, d, h)" and "propose_submit ops n data = Some (r, n')"
  shows "pipeline sinv base (n', d, h)"
proof (rule pipeline_same_queue [OF assms(1)])
  show "same_queue n n'"
    using assms(2)
    by (auto simp: propose_submit_def Let_def same_queue_def signalWake_def Option.bind_eq_Some_conv split: if_splits)
  have "sinv (n_storage core')"
    if "proposeLocked ops (ni_core n) data = Some (x, core)" "core' = core \<or> broadcastAppendEntriesLocked core = Some core'"
    for x core core'
    using that proposeLocked_keeps [OF that(1)] assms(1)
    by (auto simp: pipeline_def same_log_def dest: broadcastAppendEntriesLocked_same_log)
  then show "sinv (n_storage (ni_core n'))"
    using assms
    by (auto simp: propose_submit_def Let_def signalWake_def pipeline_def Option.bind_eq_Some_conv split: if_splits)
qed

lemma impl_Step_pipeline:
  assumes "pipeline sinv base (n, d, h)" and "impl_Step ops n ctxDone m = Some (err, n')"
  shows "pipeline sinv base (n', d, h)"
proof (rule pipeline_same_queue [OF assms(1)])
  show "same_queue n n'"
    using assms(2) by (auto simp: impl_Step_def same_queue_def split: if_splits)
  show "sinv (n_storage (ni_core n'))"
    using assms by (auto simp: impl_Step_def pipeline_def split: if_splits dest: Step_keeps)
qed

lemma Stop_pipeline:
  assumes "pipeline sinv base (n, d, h)" and "Stop ops smo n joined = Some (err, n')"
  shows "pipeline sinv base (n', d, h)"
proof -
  let ?n = "n\<lparr>ni_stopOnce := True, ni_stopped := True, ni_cancel := map_option (\<lambda>_. True) (ni_cancel n)\<rparr>"
  consider "n' = n" | e where "n' = ?n\<lparr>ni_stopErr := e\<rparr>" | "checkpoint ops smo ?n = Some n'"
    using assms(2) by (auto simp: Stop_def Let_def Option.bind_eq_Some_conv split: if_splits)
  then have "same_queue n n' \<and> sinv (n_storage (ni_core n'))"
  proof cases
    case 3
    from checkpoint_frame(1,7) [OF 3] assms(1) save_snap_keeps show ?thesis
      by (auto simp: same_queue_def pipeline_def)
  qed (use assms(1) in \<open>simp_all add: same_queue_def pipeline_def\<close>)
  with pipeline_same_queue [OF assms(1)] show ?thesis by blast
qed

lemma ni_step_pipeline:
  assumes "ni_step ops smo s rcv out s'" and "pipeline sinv base s"
  shows "pipeline sinv base s'"
  using assms
proof (induction rule: ni_step.induct)
  case (start n err n' d h)
  then show ?case by (auto simp: Start_def pipeline_def split: if_splits)
next
  case (inbound n ctxDone m err n' d h)
  then obtain n1 where n1: "impl_Step ops n ctxDone m = Some (err, n1)" "n' = signalWake n1"
    by (auto simp: inbound_def)
  from impl_Step_pipeline [OF inbound(2) n1(1)] n1(2) show ?case by (auto simp: signalWake_def pipeline_def)
next
  case (wait n ctxDone idx trm ch r n' d h)
  then show ?case by (auto simp: propose_wait_def pipeline_def split: option.splits if_splits)
next
  case (tick d n msgs d' n' h)
  then obtain err core where st: "Step ops (ni_core n) tickMessage = Some (err, core)"
    and fl: "flush ops (n\<lparr>ni_core := core\<rparr>) = (msgs, d', n')"
    by (auto simp: runTicker_tick_def)
  have "pipeline sinv base (n\<lparr>ni_core := core\<rparr>, d, h)"
    using tick(3) Step_keeps [OF st] by (auto simp: pipeline_def)
  from flush_pipeline [OF this tick(1) fl] show ?case .
next
  case (wake d n msgs d' n' h)
  have "pipeline sinv base (n\<lparr>ni_wake := False\<rparr>, d, h)" using wake(4) by (auto simp: pipeline_def)
  from flush_pipeline [OF this wake(1)] wake(3) show ?case by (simp add: runTicker_wake_def)
next
  case (resume ci i e n d' n' h)
  show ?case
  proof (cases "length (ni_applyCh n) \<ge> applyBuf (ni_cfg n)")
    case True
    with resume show ?thesis by (simp add: drainResume_def)
  next
    case False
    have p: "pipeline sinv base (n, DrainDone, h)" and i: "i = ni_enqueuedIdx n + 1" "ent_Index e = i" "i + 1 < u64_size"
      using resume(2) by (simp_all add: pipeline_def)
    have "drainLoop ops ci (i + 1) (n\<lparr>ni_applyCh := ni_applyCh n @ [e], ni_enqueuedIdx := i\<rparr>) = (d', n')"
      using False resume(1) by (simp add: drainResume_def)
    from drainLoop_pipeline [OF _ _ this] pipeline_enqueue [OF p, of e] i show ?thesis by simp
  qed
qed (auto intro: impl_Step_pipeline propose_submit_pipeline runApply_pipeline Stop_pipeline)

lemma ni_run_pipeline: "ni_run ops smo s s' \<Longrightarrow> pipeline sinv base s \<Longrightarrow> pipeline sinv base s'"
  by (induction rule: ni_run.induct) (auto intro: ni_step_pipeline)

end

text \<open>
  The memory store numbers its entries modulo the word size, whatever is appended; a read
  that succeeds is below the wrap-around.
\<close>

definition mem_indexed :: "mem_storage \<Rightarrow> bool" where
  "mem_indexed m \<longleftrightarrow> (\<forall>k < length (mem_entries m). ent_Index (mem_entries m ! k) = (k + 1) mod u64_size)"

lemma batch_contiguous_mod:
  "batch_contiguous es \<Longrightarrow> es \<noteq> [] \<Longrightarrow> ent_Index (hd es) = (L + 1) mod u64_size \<Longrightarrow> k < length es \<Longrightarrow>
   ent_Index (es ! k) = (L + k + 1) mod u64_size"
proof (induction es arbitrary: L k rule: batch_contiguous.induct)
  case (1 x y es)
  show ?case
  proof (cases k)
    case (Suc k')
    have "ent_Index (hd (y # es)) = (L + 1 + 1) mod u64_size"
      using 1(2,4) by (simp add: u64_succ_def mod_simps)
    with 1(1) [of "L + 1" k'] 1(2,5) Suc show ?thesis by simp
  qed (use 1(4) in simp)
qed auto

interpretation mem_ix: indexed_storage mem_ops mem_indexed
proof (unfold_locales, goal_cases)
  case (1 s es r s')
  show ?case
  proof (cases "s' = s")
    case False
    with 1(2) have es: "es \<noteq> []" "ent_Index (hd es) = u64_succ (length (mem_entries s))" "batch_contiguous es"
        "s' = s\<lparr>mem_entries := mem_entries s @ es\<rparr>"
      by (auto simp: mem_Append_def Let_def split: list.splits if_splits)
    then have "ent_Index (es ! k) = (length (mem_entries s) + k + 1) mod u64_size" if "k < length es" for k
      using that by (intro batch_contiguous_mod) (auto simp: u64_succ_def)
    then show ?thesis
      using 1(1) es(4) by (auto simp: mem_indexed_def nth_append not_less)
  qed (use 1(1) in simp)
next
  case (2 s i r s')
  then show ?case by (auto simp: mem_TruncateSuffix_def Let_def mem_indexed_def split: if_splits)
next
  case (5 s i e es)
  then have i: "1 \<le> i" "i < u64_succ i" "e # es = take (u64_succ i - i) (drop (i - 1) (mem_entries s))"
    by (auto simp: mem_Entries_def Let_def split: if_splits)
  have "i < u64_size" using i(2) u64_succ_bound [of i] by (rule less_trans)
  then have b: "i + 1 < u64_size" using i(2) by (auto simp: u64_succ_def split: if_splits)
  have lt: "i - 1 < length (mem_entries s)"
  proof (rule ccontr)
    assume "\<not> ?thesis"
    then have "drop (i - 1) (mem_entries s) = []" by simp
    with i(3) show False by simp
  qed
  have "e = take (u64_succ i - i) (drop (i - 1) (mem_entries s)) ! 0" unfolding i(3) [symmetric] by simp
  with i(2) lt have "e = mem_entries s ! (i - 1)" by simp
  moreover have "i mod u64_size = i" using b by simp
  ultimately show ?case using 5(1) i(1) b lt by (auto simp: mem_indexed_def)
qed (auto simp: mem_state_defs mem_indexed_def)

text \<open>
  C8: in every interleaving of callers, driver, applier and shutdown, over a store that
  numbers its entries, the entries handed to the state machine carry the indices
  \<open>base + 1\<close>, \<open>base + 2\<close>, and so on, without gap and without repetition, where \<open>base\<close> is
  the index the node was restored to; the reported apply index is the last of them. This
  holds across panics of \<^verbatim>\<open>Apply\<close>, failing stores, a full channel and a stopped node.
\<close>

theorem applied_in_order:
  assumes "indexed_storage ops sinv" and "sinv (n_storage (ni_core n))"
    and "ni_applyCh n = []" and "ni_enqueuedIdx n = ni_appliedIdx n" and "ni_appliedIdx n + 1 < u64_size"
    and "ni_run ops smo (n, DrainDone, []) (n', d, h)"
  shows "map ent_Index h = [ni_appliedIdx n + 1 ..< ni_appliedIdx n + 1 + length h] \<and>
    ni_appliedIdx n' = ni_appliedIdx n + length h"
proof -
  have "pipeline sinv (ni_appliedIdx n) (n, DrainDone, [])"
    using assms(2-5) by (simp add: pipeline_def)
  with indexed_storage.ni_run_pipeline [OF assms(1,6)]
  have p: "pipeline sinv (ni_appliedIdx n) (n', d, h)" by blast
  then have c: "contiguous_from (ni_appliedIdx n + 1) h"
    by (auto simp: pipeline_def contiguous_from_append)
  have "map ent_Index h = [ni_appliedIdx n + 1 ..< ni_appliedIdx n + 1 + length h]"
  proof (rule nth_equalityI)
    fix k assume "k < length (map ent_Index h)"
    with c show "map ent_Index h ! k = [ni_appliedIdx n + 1 ..< ni_appliedIdx n + 1 + length h] ! k"
      by (auto simp: contiguous_from_nth simp del: upt_Suc)
  qed (simp del: upt_Suc)
  with p show ?thesis by (auto simp: pipeline_def)
qed

text \<open>A state machine that records what it is given and answers with its position.\<close>

definition recorder :: "(entry list, nat) sm_ops" where
  "recorder =
     \<lparr>sm_Apply = (\<lambda>m e. (Some (Some (length m + 1), None), m @ [e])),
      sm_Snapshot = (\<lambda>m. Inr ([], length m)), sm_Restore = (\<lambda>m data. (None, m))\<rparr>"

text \<open>A public node over a memory store.\<close>

definition demo_impl :: "mem_storage node \<Rightarrow> (mem_storage, entry list, nat) nodeImpl" where
  "demo_impl core =
     \<lparr>ni_core = core, ni_cfg = n_cfg core, ni_sm = [], ni_startOnce = True, ni_stopOnce = False,
      ni_stopErr = None, ni_cancel = Some False, ni_applyCh = [], ni_enqueuedIdx = 0, ni_appliedIdx = 0,
      ni_snapshotIdx = 0, ni_waiters = [], ni_results = [], ni_nextCh = 0, ni_fatal = None,
      ni_stopped = False, ni_wake = True\<rparr>"

definition demo_backlog :: "(mem_storage, entry list, nat) nodeImpl" where
  "demo_backlog = demo_impl (demo_follower\<lparr>n_commitIndex := 2\<rparr>)"

theorem applied_in_order_witness:
  "\<exists>n' d h. ni_run mem_ops recorder (demo_backlog, DrainDone, []) (n', d, h) \<and>
     map ent_Index h = [1, 2] \<and> ni_appliedIdx n' = 2"
proof -
  obtain msgs d1 n1 where n1: "runTicker_wake mem_ops demo_backlog = (msgs, d1, n1)"
    by (metis prod_cases3)
  have "case runTicker_wake mem_ops demo_backlog of (msgs, d, n) \<Rightarrow>
      ni_applyCh n = [demo_entry 1 1, demo_entry 1 2] \<and> ni_wake demo_backlog \<and>
      ni_applyCh (runApply mem_ops recorder n) = [demo_entry 1 2] \<and>
      mem_indexed (n_storage (ni_core demo_backlog)) \<and> ni_applyCh demo_backlog = [] \<and>
      ni_enqueuedIdx demo_backlog = 0 \<and> ni_appliedIdx demo_backlog = 0"
    by code_simp
  then have ch: "ni_applyCh n1 = [demo_entry 1 1, demo_entry 1 2]" and w: "ni_wake demo_backlog"
    and ch2: "ni_applyCh (runApply mem_ops recorder n1) = [demo_entry 1 2]"
    and s: "mem_indexed (n_storage (ni_core demo_backlog))" "ni_applyCh demo_backlog = []"
      "ni_enqueuedIdx demo_backlog = ni_appliedIdx demo_backlog" "ni_appliedIdx demo_backlog = 0"
    unfolding n1 by simp_all
  have run: "ni_run mem_ops recorder (demo_backlog, DrainDone, [])
      (runApply mem_ops recorder (runApply mem_ops recorder n1), d1, [demo_entry 1 1] @ [demo_entry 1 2])"
    using ni_run.more [OF ni_run.more [OF ni_run.more [OF ni_run.refl ni_step.wake [OF _ w n1]]
        ni_step.apply1 [OF ch]] ni_step.apply1 [OF ch2], of DrainDone "[]"] by simp
  from applied_in_order [OF mem_ix.indexed_storage_axioms s(1-3) _ run] s(4) run show ?thesis
    by (intro exI) (auto simp: upt_rec)
qed

section \<open>A drain delivers the committed entries\<close>

context reliable_storage
begin

lemma drainLoop_spec:
  assumes "sinv (n_storage (ni_core n))" and "ci \<le> length (slog (n_storage (ni_core n)))"
    and "ni_enqueuedIdx n \<le> ci" and "length (ni_applyCh n) \<le> applyBuf (ni_cfg n)"
    and "k = min (ci - ni_enqueuedIdx n) (applyBuf (ni_cfg n) - length (ni_applyCh n))"
  shows "drainLoop ops ci (ni_enqueuedIdx n + 1) n =
    (if ni_enqueuedIdx n + k = ci then DrainDone
     else DrainParked ci (ni_enqueuedIdx n + k + 1) (slog (n_storage (ni_core n)) ! (ni_enqueuedIdx n + k)),
     n\<lparr>ni_applyCh := ni_applyCh n @ take k (drop (ni_enqueuedIdx n) (slog (n_storage (ni_core n)))),
       ni_enqueuedIdx := ni_enqueuedIdx n + k\<rparr>)"
  using assms
proof (induction "ci - ni_enqueuedIdx n" arbitrary: n k)
  case 0
  then show ?case by (simp add: drainLoop_done)
next
  case (Suc r)
  let ?L = "slog (n_storage (ni_core n))" and ?i = "ni_enqueuedIdx n"
  have lt: "?i < length ?L" "?i < ci" using Suc.hyps(2) Suc.prems(2) by auto
  have "?i + 2 < u64_size" using slog_wf [OF Suc.prems(1)] lt by auto
  then have rd: "op_Entries ops (n_storage (ni_core n)) (?i + 1) (u64_succ (?i + 1)) = Inr [?L ! ?i]"
    using entries_eq [OF Suc.prems(1), of "?i + 1" "?i + 2"] lt
    by (simp add: u64_succ_id take_Suc hd_drop_conv_nth)
  note loop = drainLoop_read [OF _ rd, of ci, simplified, OF Suc_leI [OF lt(2)]]
  show ?case
  proof (cases "applyBuf (ni_cfg n) \<le> length (ni_applyCh n)")
    case True
    with Suc.prems(4,5) lt loop show ?thesis by simp
  next
    case False
    let ?n = "n\<lparr>ni_applyCh := ni_applyCh n @ [?L ! ?i], ni_enqueuedIdx := ?i + 1\<rparr>"
    define k' where "k' = min (ci - (?i + 1)) (applyBuf (ni_cfg n) - (length (ni_applyCh n) + 1))"
    have k': "k = Suc k'" "k' = min (ci - ni_enqueuedIdx ?n) (applyBuf (ni_cfg ?n) - length (ni_applyCh ?n))"
      using Suc.prems(5) False lt(2) by (simp_all add: k'_def)
    have p: "r = ci - ni_enqueuedIdx ?n" "sinv (n_storage (ni_core ?n))" "ci \<le> length (slog (n_storage (ni_core ?n)))"
        "ni_enqueuedIdx ?n \<le> ci" "length (ni_applyCh ?n) \<le> applyBuf (ni_cfg ?n)"
      using Suc.hyps(2) Suc.prems(1,2) False lt by simp_all
    have "drainLoop ops ci (ni_enqueuedIdx ?n + 1) ?n =
      (if ni_enqueuedIdx ?n + k' = ci then DrainDone
       else DrainParked ci (ni_enqueuedIdx ?n + k' + 1) (?L ! (ni_enqueuedIdx ?n + k')),
       ?n\<lparr>ni_applyCh := ni_applyCh ?n @ take k' (drop (ni_enqueuedIdx ?n) ?L),
          ni_enqueuedIdx := ni_enqueuedIdx ?n + k'\<rparr>)"
      using Suc.hyps(1) [OF p k'(2)] by (simp only: nodeImpl.simps) simp
    moreover have "take k (drop ?i ?L) = ?L ! ?i # take k' (drop (?i + 1) ?L)"
      using lt(1) k'(1) by (simp flip: Cons_nth_drop_Suc)
    ultimately show ?thesis using loop False k'(1) by simp
  qed
qed

lemma drainCommitsToApply_spec:
  assumes "sinv (n_storage (ni_core n))"
    and "n_commitIndex (ni_core n) \<le> length (slog (n_storage (ni_core n)))"
    and "ni_enqueuedIdx n \<le> n_commitIndex (ni_core n)" and "length (ni_applyCh n) \<le> 256"
    and "k = min (n_commitIndex (ni_core n) - ni_enqueuedIdx n) (256 - length (ni_applyCh n))"
  shows "drainCommitsToApply ops n =
    (if ni_enqueuedIdx n + k = n_commitIndex (ni_core n) then DrainDone
     else DrainParked (n_commitIndex (ni_core n)) (ni_enqueuedIdx n + k + 1)
            (slog (n_storage (ni_core n)) ! (ni_enqueuedIdx n + k)),
     n\<lparr>ni_applyCh := ni_applyCh n @ take k (drop (ni_enqueuedIdx n) (slog (n_storage (ni_core n)))),
       ni_enqueuedIdx := ni_enqueuedIdx n + k\<rparr>)"
proof -
  have "length (slog (n_storage (ni_core n))) + 1 < u64_size" using slog_wf [OF assms(1)] by simp
  then have "u64_succ (ni_enqueuedIdx n) = ni_enqueuedIdx n + 1"
    using assms(2,3) by (simp add: u64_succ_id)
  with drainLoop_spec [OF assms(1-3), of k] assms(4,5) show ?thesis
    by (simp add: drainCommitsToApply_def applyBuf_def defaultApplyBuf_def)
qed

end

text \<open>
  C9: a drain over a reliable store hands over exactly the committed entries not yet
  handed over, in order, as many as the channel has room for. It ends when all are in the
  channel and otherwise parks holding the next one; it never skips or repeats one.
\<close>

theorem drain_delivers:
  assumes "reliable_storage ops slog shs ssnap sinv" and "sinv (n_storage (ni_core n))"
    and "n_commitIndex (ni_core n) \<le> length (slog (n_storage (ni_core n)))"
    and "ni_enqueuedIdx n \<le> n_commitIndex (ni_core n)" and "length (ni_applyCh n) \<le> 256"
    and "k = min (n_commitIndex (ni_core n) - ni_enqueuedIdx n) (256 - length (ni_applyCh n))"
  shows "drainCommitsToApply ops n =
    (if ni_enqueuedIdx n + k = n_commitIndex (ni_core n) then DrainDone
     else DrainParked (n_commitIndex (ni_core n)) (ni_enqueuedIdx n + k + 1)
            (slog (n_storage (ni_core n)) ! (ni_enqueuedIdx n + k)),
     n\<lparr>ni_applyCh := ni_applyCh n @ take k (drop (ni_enqueuedIdx n) (slog (n_storage (ni_core n)))),
       ni_enqueuedIdx := ni_enqueuedIdx n + k\<rparr>)"
  using assms by (rule reliable_storage.drainCommitsToApply_spec)

theorem drain_delivers_witness:
  "\<exists>n'. drainCommitsToApply mem_ops demo_backlog = (DrainDone, n') \<and>
     ni_applyCh n' = [demo_entry 1 1, demo_entry 1 2] \<and> ni_enqueuedIdx n' = 2"
proof -
  have s: "mem_wf (n_storage (ni_core demo_backlog))"
    "n_commitIndex (ni_core demo_backlog) \<le> length (mem_entries (n_storage (ni_core demo_backlog)))"
    "ni_enqueuedIdx demo_backlog \<le> n_commitIndex (ni_core demo_backlog)"
    "length (ni_applyCh demo_backlog) \<le> 256"
    "2 = min (n_commitIndex (ni_core demo_backlog) - ni_enqueuedIdx demo_backlog) (256 - length (ni_applyCh demo_backlog))"
    "ni_applyCh demo_backlog = []" "ni_enqueuedIdx demo_backlog = 0" "n_commitIndex (ni_core demo_backlog) = 2"
    "take 2 (mem_entries (n_storage (ni_core demo_backlog))) = [demo_entry 1 1, demo_entry 1 2]"
    by code_simp+
  from drain_delivers [OF mem.reliable_storage_axioms s(1-5)] s(6-) show ?thesis by simp
qed

section \<open>The applier catches up\<close>

lemma runApply_front:
  assumes "ni_applyCh n = e # es" and "contiguous_from (ni_appliedIdx n + 1) (ni_applyCh n)"
  shows "ni_applyCh (runApply ops smo n) = es \<and> ni_appliedIdx (runApply ops smo n) = ni_appliedIdx n + 1 \<and>
    ni_enqueuedIdx (runApply ops smo n) = ni_enqueuedIdx n"
proof -
  have e: "ent_Index e = ni_appliedIdx n + 1" using assms by simp
  show ?thesis
  proof (cases rule: applyOne_cases [of ops smo "n\<lparr>ni_applyCh := es\<rparr>" e])
    case (saved n1)
    with checkpoint_frame(1) [OF saved(1)] e assms(1) show ?thesis by (simp add: runApply_def same_queue_def)
  qed (use e assms(1) in \<open>simp_all add: runApply_def applyRecover_def same_queue_def Let_def\<close>)
qed

lemma runApply_all:
  "contiguous_from (ni_appliedIdx n + 1) (ni_applyCh n) \<Longrightarrow>
   ni_applyCh ((runApply ops smo ^^ length (ni_applyCh n)) n) = [] \<and>
   ni_appliedIdx ((runApply ops smo ^^ length (ni_applyCh n)) n) = ni_appliedIdx n + length (ni_applyCh n)"
proof (induction "ni_applyCh n" arbitrary: n)
  case Nil
  then show ?case by simp
next
  case (Cons e es)
  let ?n = "runApply ops smo n"
  from runApply_front [OF Cons.hyps(2) [symmetric] Cons.prems]
  have n: "ni_applyCh ?n = es" "ni_appliedIdx ?n = ni_appliedIdx n + 1" by simp_all
  with Cons.prems Cons.hyps(2) [symmetric] have "contiguous_from (ni_appliedIdx ?n + 1) (ni_applyCh ?n)" by simp
  from Cons.hyps(1) [OF n(1) [symmetric] this] n Cons.hyps(2) [symmetric] show ?case
    by (simp add: funpow_Suc_right del: funpow.simps)
qed

text \<open>
  C10: progress. When the channel is empty and at most 256 committed entries are waiting, one
  wake of the driver followed by one turn of the applier per entry brings the apply index
  to the commit index, whatever the state machine answers and even when it panics.
\<close>

theorem wake_then_apply:
  assumes "reliable_storage ops slog shs ssnap sinv" and "sinv (n_storage (ni_core n))"
    and "n_commitIndex (ni_core n) \<le> length (slog (n_storage (ni_core n)))"
    and "ni_applyCh n = []" and "ni_enqueuedIdx n = ni_appliedIdx n"
    and "ni_appliedIdx n \<le> n_commitIndex (ni_core n)" and "n_commitIndex (ni_core n) - ni_appliedIdx n \<le> 256"
  shows "\<exists>msgs n'. runTicker_wake ops n = (msgs, DrainDone, n') \<and>
    ni_appliedIdx ((runApply ops smo ^^ (n_commitIndex (ni_core n) - ni_appliedIdx n)) n') = n_commitIndex (ni_core n)"
proof -
  obtain msgs hs core where r: "Ready (ni_core n) = ((msgs, hs), core)"
    and core: "n_storage core = n_storage (ni_core n)" "n_commitIndex core = n_commitIndex (ni_core n)"
    by (auto simp: Ready_def)
  define n1 where "n1 = n\<lparr>ni_wake := False, ni_core := saveHS ops core hs\<rparr>"
  define gap where "gap = n_commitIndex (ni_core n) - ni_appliedIdx n"
  note laws = reliable_storage.axioms(1) [OF assms(1)]
  have st: "sinv (n_storage (saveHS ops core hs)) \<and> slog (n_storage (saveHS ops core hs)) = slog (n_storage (ni_core n)) \<and>
      n_commitIndex (saveHS ops core hs) = n_commitIndex (ni_core n)"
    using storage_contract.save_hs_law [OF laws _ prod.collapse [symmetric]] assms(2) core
    by (cases hs) (auto simp: saveHS_def)
  have "drainCommitsToApply ops n1 = (DrainDone,
      n1\<lparr>ni_applyCh := take gap (drop (ni_appliedIdx n) (slog (n_storage (ni_core n)))),
         ni_enqueuedIdx := ni_appliedIdx n + gap\<rparr>)" (is "_ = (_, ?n')")
    using reliable_storage.drainCommitsToApply_spec [OF assms(1), of n1 gap] st assms by (simp add: n1_def gap_def)
  then have fl: "runTicker_wake ops n = (msgs, DrainDone, ?n')"
    by (simp add: runTicker_wake_def flush_def r n1_def)
  have len: "length (ni_applyCh ?n') = gap" using assms(3,6) by (simp add: gap_def)
  have "contiguous_from (ni_appliedIdx n + 1) (drop (ni_appliedIdx n) (slog (n_storage (ni_core n))))"
    using storage_contract.slog_wf [OF laws assms(2)] contiguous_from_drop [of 1 _ "ni_appliedIdx n"]
    by (simp add: add.commute)
  then have "contiguous_from (ni_appliedIdx ?n' + 1) (ni_applyCh ?n')"
    by (simp add: n1_def contiguous_from_take)
  from runApply_all [OF this, of ops smo] fl len assms(6) show ?thesis
    by (intro exI conjI) (auto simp: n1_def gap_def)
qed

theorem wake_then_apply_witness:
  "\<exists>msgs n'. runTicker_wake mem_ops demo_backlog = (msgs, DrainDone, n') \<and>
    ni_appliedIdx ((runApply mem_ops recorder ^^ 2) n') = 2"
proof -
  have s: "mem_wf (n_storage (ni_core demo_backlog))"
    "n_commitIndex (ni_core demo_backlog) \<le> length (mem_entries (n_storage (ni_core demo_backlog)))"
    "ni_applyCh demo_backlog = []" "ni_enqueuedIdx demo_backlog = ni_appliedIdx demo_backlog"
    "ni_appliedIdx demo_backlog \<le> n_commitIndex (ni_core demo_backlog)"
    "n_commitIndex (ni_core demo_backlog) - ni_appliedIdx demo_backlog \<le> 256"
    "ni_appliedIdx demo_backlog = 0" "n_commitIndex (ni_core demo_backlog) = 2"
    by code_simp+
  from wake_then_apply [OF mem.reliable_storage_axioms s(1-6), of recorder] show ?thesis unfolding s(7,8) by simp
qed

section \<open>Answers to proposers\<close>


lemma resolve_waiter_none:
  "map_of (ni_waiters n) idx = None \<Longrightarrow> resolve_waiter n idx r = n"
  by (simp add: resolve_waiter_def)

lemma resolve_waiter_gone: "map_of (ni_waiters (resolve_waiter n idx r)) idx = None"
  by (simp add: resolve_waiter_def delete_conv' split: option.split)

lemma checkpoint_total: "log_wf (n_log (ni_core n)) \<Longrightarrow> \<exists>n'. checkpoint ops smo n = Some n'"
  by (auto simp: checkpoint_def log_simps Let_def split: sum.split prod.split)






section \<open>Shutdown and restart\<close>

text \<open>
  C13: once \<^verbatim>\<open>Stop\<close> has returned, \<^verbatim>\<open>Step\<close>, the transport callback and \<^verbatim>\<open>Propose\<close> answer
  \<^verbatim>\<open>ErrStopped\<close> and leave the core alone, and a second \<^verbatim>\<open>Stop\<close> repeats the first one's error
  without doing anything.
\<close>

theorem stopped_node_refuses:
  assumes "Stop ops smo n joined = Some (err, n')" and "\<not> ni_stopOnce n"
  shows "impl_Step ops n' ctxDone m = Some (Some ErrStopped, n') \<and>
    map_option fst (inbound ops n' ctxDone m) = Some (Some ErrStopped) \<and>
    propose_submit ops n' data = Some (Inl ErrStopped, n') \<and>
    Stop ops smo n' joined' = Some (err, n')"
proof -
  let ?n = "n\<lparr>ni_stopOnce := True, ni_stopped := True, ni_cancel := map_option (\<lambda>_. True) (ni_cancel n)\<rparr>"
  have "ni_stopOnce n' \<and> ni_stopped n' \<and> err = ni_stopErr n'"
  proof (cases joined)
    case False
    with assms show ?thesis by (auto simp: Stop_def Let_def)
  next
    case True
    with assms have "checkpoint ops smo ?n = Some n'" "err = ni_stopErr n'"
      by (auto simp: Stop_def Let_def Option.bind_eq_Some_conv)
    then show ?thesis by (cases rule: checkpoint_cases) auto
  qed
  then show ?thesis by (simp add: impl_Step_def inbound_def propose_submit_def Stop_def)
qed

theorem stopped_node_refuses_witness:
  "\<exists>n'. Stop mem_ops recorder demo_backlog True = Some (None, n') \<and>
    impl_Step mem_ops n' False demo_ae = Some (Some ErrStopped, n')"
proof -
  have "case Stop mem_ops recorder demo_backlog True of Some (e, n') \<Rightarrow> e = None | None \<Rightarrow> False"
    and s: "\<not> ni_stopOnce demo_backlog" by code_simp+
  then obtain n' where n': "Stop mem_ops recorder demo_backlog True = Some (None, n')"
    by (auto split: option.splits)
  from stopped_node_refuses [OF n' s, of False demo_ae] n' show ?thesis by blast
qed

text \<open>
  C12: a checkpoint is where the next incarnation resumes. After a checkpoint over a reliable
  store, \<^verbatim>\<open>New\<close> on that store restores the state machine from the bytes the checkpoint took
  and starts handing out entries right after the checkpoint's index.
\<close>

theorem checkpoint_then_restart:
  assumes "reliable_storage ops slog shs ssnap sinv" and "sinv (n_storage (ni_core n))"
    and "log_wf (n_log (ni_core n))" and "sm_Snapshot smo (ni_sm n) = Inr (data, sidx)" and "0 < sidx"
    and "checkpoint ops smo n = Some n'"
    and "Validate (applyDefaults cfg) = None"
    and "newNode ops mk now (applyDefaults cfg) (n_storage (ni_core n')) = Some (Inr core)"
    and "sm_Restore smo sm0 data = (None, sm1)"
  shows "\<exists>r. New ops smo mk now cfg (n_storage (ni_core n')) sm0 = Some (Inr r) \<and>
    ni_sm r = sm1 \<and> ni_appliedIdx r = sidx \<and> ni_enqueuedIdx r = sidx \<and> ni_snapshotIdx r = sidx \<and>
    ni_applyCh r = [] \<and> ni_core r = core"
proof -
  let ?sn = "\<lparr>snap_Index = sidx, snap_Term = term_at (l_entries (n_log (ni_core n))) sidx, snap_Data = data\<rparr>"
  note laws = reliable_storage.axioms(1) [OF assms(1)]
  obtain s where s: "op_SaveSnapshot ops (n_storage (ni_core n)) ?sn = (None, s)"
    using reliable_storage.save_snap_ok [OF assms(1,2), of ?sn] by (metis prod.collapse)
  have "sinv s" "ssnap s = ?sn"
    using storage_contract.save_snap_law [OF laws assms(2) s] by simp_all
  moreover have "n_storage (ni_core n') = s"
    using assms(3-6) s by (auto simp: checkpoint_def log_simps Let_def)
  ultimately have "op_LoadSnapshot ops (n_storage (ni_core n')) = Inr ?sn"
    using reliable_storage.load_snap_eq [OF assms(1)] by simp
  with assms(5,7-9) show ?thesis by (simp add: New_def)
qed

theorem checkpoint_then_restart_witness:
  "\<exists>n' r. checkpoint mem_ops recorder (demo_backlog\<lparr>ni_sm := [demo_entry 1 1]\<rparr>) = Some n' \<and>
     New mem_ops recorder (\<lambda>_. []) 0 (demo_cfg abc ''b'') (n_storage (ni_core n')) [] = Some (Inr r) \<and>
     ni_appliedIdx r = 1"
proof -
  let ?n = "demo_backlog\<lparr>ni_sm := [demo_entry 1 1]\<rparr>"
  have s: "mem_wf (n_storage (ni_core ?n))" "log_wf (n_log (ni_core ?n))" by code_simp+
  have sn: "sm_Snapshot recorder (ni_sm ?n) = Inr ([], 1)" "sm_Restore recorder [] [] = (None, [])"
    by (simp_all add: recorder_def)
  obtain n' where n': "checkpoint mem_ops recorder ?n = Some n'" using checkpoint_total [OF s(2)] by blast
  have v: "Validate (applyDefaults (demo_cfg abc ''b'')) = None" by code_simp
  have "case checkpoint mem_ops recorder ?n of None \<Rightarrow> False | Some n' \<Rightarrow>
      (case newNode mem_ops (\<lambda>_. []) 0 (applyDefaults (demo_cfg abc ''b'')) (n_storage (ni_core n')) of
         Some (Inr core) \<Rightarrow> True | _ \<Rightarrow> False)"
    by code_simp
  then obtain core where core: "newNode mem_ops (\<lambda>_. []) 0 (applyDefaults (demo_cfg abc ''b''))
      (n_storage (ni_core n')) = Some (Inr core)"
    using n' by (auto split: option.splits sum.splits)
  from checkpoint_then_restart [OF mem.reliable_storage_axioms s sn(1) _ n' v core sn(2)] n' show ?thesis
    by auto
qed

end
