(* ===== verification/Raft_Cluster.thy ===== *)
theory Raft_Cluster
  imports Raft_Apply
begin

text \<open>
  A cluster of nodes over an asynchronous network. Each server is a core with the state
  of its driver between \<^verbatim>\<open>Ready\<close>, \<^verbatim>\<open>SaveHardState\<close> and the sends of one \<^verbatim>\<open>flush\<close>; core
  calls from other goroutines may come in between. Messages sent stay in the network
  for ever, so they may be lost, delayed, reordered and duplicated. A server may crash
  at any point and restart from its storage with \<^verbatim>\<open>newNode\<close>. The result is Election
  Safety: at most one leader per term, over the whole history.
\<close>

section \<open>The contract on stored HardStates\<close>

definition hs_kept :: "('s \<Rightarrow> hardstate) \<Rightarrow> ('s \<Rightarrow> bool) \<Rightarrow> 's node \<Rightarrow> 's node \<Rightarrow> bool" where
  "hs_kept shs sinv n n' \<longleftrightarrow> (sinv (n_storage n) \<longrightarrow>
     sinv (n_storage n') \<and> shs (n_storage n') = shs (n_storage n))"

lemma hs_kept_refl [simp]: "n_storage n' = n_storage n \<Longrightarrow> hs_kept shs sinv n n'"
  by (simp add: hs_kept_def)

text \<open>
  What the argument needs of a store: it keeps the HardState it acknowledged, and log and
  snapshot calls, failing or not, leave it alone.
\<close>

locale durable_hardstate =
  fixes ops :: "'s storage_ops" and shs :: "'s \<Rightarrow> hardstate" and sinv :: "'s \<Rightarrow> bool"
  assumes hs_append: "sinv s \<Longrightarrow> op_Append ops s es = (r, s') \<Longrightarrow> sinv s' \<and> shs s' = shs s"
    and hs_truncate: "sinv s \<Longrightarrow> op_TruncateSuffix ops s i = (r, s') \<Longrightarrow> sinv s' \<and> shs s' = shs s"
    and hs_save: "sinv s \<Longrightarrow> op_SaveHardState ops s hs = (r, s') \<Longrightarrow> sinv s' \<and> shs s' = hs"
    and hs_load: "sinv s \<Longrightarrow> op_LoadHardState ops s = Inr hs \<Longrightarrow> hs = shs s"
    and hs_snap: "sinv s \<Longrightarrow> op_SaveSnapshot ops s sn = (r, s') \<Longrightarrow> sinv s' \<and> shs s' = shs s"

text \<open>So log writes keep any given HardState in the store, and the core makes no others.\<close>

sublocale durable_hardstate \<subseteq> kept: log_writes ops "\<lambda>s. sinv s \<and> shs s = h" for h
proof (unfold_locales, goal_cases)
  case (1 s es r s')
  then show ?case using hs_append [of s es r s'] by simp
next
  case (2 s i r s')
  then show ?case using hs_truncate [of s i r s'] by simp
qed

context durable_hardstate
begin

lemma proposeLocked_hs: "proposeLocked ops n data = Some (r, n') \<Longrightarrow> hs_kept shs sinv n n'"
  using kept.proposeLocked_keeps [where h = "shs (n_storage n)"] by (simp add: hs_kept_def)

lemma Step_hs: "Step ops n m = Some (err, n') \<Longrightarrow> hs_kept shs sinv n n'"
  using kept.Step_keeps [where h = "shs (n_storage n)"] by (simp add: hs_kept_def)

end

interpretation mem_hs: durable_hardstate mem_ops mem_hs "\<lambda>_. True"
  by unfold_locales
    (auto simp: mem_Append_def mem_TruncateSuffix_def mem_state_defs Let_def
          split: list.splits if_splits)

section \<open>The cluster\<close>

text \<open>The driver between two flushes, after \<^verbatim>\<open>Ready\<close>, and while it sends.\<close>

datatype outbox = Idle | Unsaved "hardstate option" "message list" | Sending "message list"

record 's server =
  sv_node :: "'s node"
  sv_out :: outbox

text \<open>
  \<open>cl_sent\<close> holds the messages ever sent, in order. \<open>cl_leaders\<close> records every pair of a
  term and a node that led it.
\<close>

record 's cluster =
  cl_server :: "nodeid \<Rightarrow> 's server"
  cl_sent :: "message list"
  cl_leaders :: "(nat \<times> nodeid) set"

definition put :: "'s cluster \<Rightarrow> nodeid \<Rightarrow> 's node \<Rightarrow> outbox \<Rightarrow> 's cluster" where
  "put c i n out =
     c\<lparr>cl_server := (cl_server c)(i := \<lparr>sv_node = n, sv_out = out\<rparr>),
       cl_leaders := (if n_role n = Leader then insert (n_currentTerm n, i) (cl_leaders c)
                      else cl_leaders c)\<rparr>"

abbreviation cl_node :: "'s cluster \<Rightarrow> nodeid \<Rightarrow> 's node" where
  "cl_node c i \<equiv> sv_node (cl_server c i)"

abbreviation cl_net :: "'s cluster \<Rightarrow> message set" where
  "cl_net c \<equiv> set (cl_sent c)"

abbreviation cl_out :: "'s cluster \<Rightarrow> nodeid \<Rightarrow> outbox" where
  "cl_out c i \<equiv> sv_out (cl_server c i)"

text \<open>\<open>mk\<close> and \<open>now\<close> of a restart are arbitrary: the new node draws other timeouts.\<close>

inductive cl_step :: "'s storage_ops \<Rightarrow> nodeid set \<Rightarrow> 's cluster \<Rightarrow> 's cluster \<Rightarrow> bool"
  for ops :: "'s storage_ops" and P :: "nodeid set" where
  deliver: "i \<in> P \<Longrightarrow> m \<in> cl_net c \<Longrightarrow> m_To m = i \<Longrightarrow>
    Step ops (cl_node c i) m = Some (err, n') \<Longrightarrow>
    n_currentTerm (cl_node c i) + 1 < u64_size \<Longrightarrow> m_Term m + 1 < u64_size \<Longrightarrow>
    cl_step ops P c (put c i n' (cl_out c i))"
| tick: "i \<in> P \<Longrightarrow> Step ops (cl_node c i) tickMessage = Some (err, n') \<Longrightarrow>
    n_currentTerm (cl_node c i) + 1 < u64_size \<Longrightarrow>
    cl_step ops P c (put c i n' (cl_out c i))"
| propose: "i \<in> P \<Longrightarrow> proposeLocked ops (cl_node c i) data = Some ((idx, ok), n1) \<Longrightarrow>
    (if ok then broadcastAppendEntriesLocked n1 else Some n1) = Some n' \<Longrightarrow>
    cl_step ops P c (put c i n' (cl_out c i))"
| ready: "i \<in> P \<Longrightarrow> cl_out c i = Idle \<Longrightarrow> Ready (cl_node c i) = ((msgs, hs), n') \<Longrightarrow>
    cl_step ops P c (put c i n' (Unsaved hs msgs))"
| save: "i \<in> P \<Longrightarrow> cl_out c i = Unsaved hs msgs \<Longrightarrow>
    cl_step ops P c (put c i (saveHS ops (cl_node c i) hs) (Sending msgs))"
| send: "i \<in> P \<Longrightarrow> cl_out c i = Sending (m # msgs) \<Longrightarrow>
    cl_step ops P c (put (c\<lparr>cl_sent := cl_sent c @ [m]\<rparr>) i (cl_node c i) (Sending msgs))"
| sent: "i \<in> P \<Longrightarrow> cl_out c i = Sending [] \<Longrightarrow>
    cl_step ops P c (put c i (cl_node c i) Idle)"
| restart: "i \<in> P \<Longrightarrow>
    newNode ops mk now (n_cfg (cl_node c i)) (n_storage (cl_node c i)) = Some (Inr n') \<Longrightarrow>
    cl_step ops P c (put c i n' Idle)"
| checkpoint: "i \<in> P \<Longrightarrow> op_SaveSnapshot ops (n_storage (cl_node c i)) sn = (r, s) \<Longrightarrow>
    cl_step ops P c (put c i ((cl_node c i)\<lparr>n_storage := s\<rparr>) (cl_out c i))"

text \<open>
  A cluster starts with every member built from a store that satisfies \<open>ok\<close> (fresh or left
  by an earlier run) and the same peer list.
\<close>

definition cl_init :: "'s storage_ops \<Rightarrow> ('s \<Rightarrow> bool) \<Rightarrow> nodeid list \<Rightarrow> 's cluster \<Rightarrow> bool" where
  "cl_init ops ok peers c \<longleftrightarrow>
     cl_sent c = [] \<and> cl_leaders c = {} \<and>
     (\<forall>i \<in> set peers. cl_out c i = Idle \<and> ok (n_storage (cl_node c i)) \<and>
        (\<exists>mk now cfg. cfg_NodeID cfg = i \<and> cfg_Peers cfg = peers \<and>
           newNode ops mk now cfg (n_storage (cl_node c i)) = Some (Inr (cl_node c i))))"

inductive cl_reachable :: "'s storage_ops \<Rightarrow> ('s \<Rightarrow> bool) \<Rightarrow> nodeid list \<Rightarrow> 's cluster \<Rightarrow> bool"
  for ops ok peers where
  init: "cl_init ops ok peers c \<Longrightarrow> cl_reachable ops ok peers c"
| step: "cl_reachable ops ok peers c \<Longrightarrow> cl_step ops (set peers) c c' \<Longrightarrow> cl_reachable ops ok peers c'"

section \<open>Schedules\<close>

text \<open>
  A schedule is a list of actions; \<open>perform\<close> executes one, and fails when it is not
  enabled. Running a schedule stays within the step relation, so concrete runs can be
  computed.
\<close>

datatype action =
    Deliver nat
  | Tick nodeid
  | Submit nodeid "byte list"
  | TakeReady nodeid
  | SaveReady nodeid
  | SendNext nodeid
  | FinishSend nodeid
  | Restart nodeid

fun perform :: "'s storage_ops \<Rightarrow> nodeid list \<Rightarrow> action \<Rightarrow> 's cluster \<Rightarrow> 's cluster option" where
  "perform ops peers (Deliver k) c =
     (if k < length (cl_sent c) then
        let m = cl_sent c ! k; i = m_To m in
        if i \<in> set peers \<and> n_currentTerm (cl_node c i) + 1 < u64_size \<and> m_Term m + 1 < u64_size
        then map_option (\<lambda>(err, n'). put c i n' (cl_out c i)) (Step ops (cl_node c i) m)
        else None
      else None)"
| "perform ops peers (Tick i) c =
     (if i \<in> set peers \<and> n_currentTerm (cl_node c i) + 1 < u64_size
      then map_option (\<lambda>(err, n'). put c i n' (cl_out c i)) (Step ops (cl_node c i) tickMessage)
      else None)"
| "perform ops peers (Submit i data) c =
     (if i \<in> set peers then
        case proposeLocked ops (cl_node c i) data of
          None \<Rightarrow> None
        | Some ((idx, ok), n1) \<Rightarrow>
            map_option (\<lambda>n'. put c i n' (cl_out c i))
              (if ok then broadcastAppendEntriesLocked n1 else Some n1)
      else None)"
| "perform ops peers (TakeReady i) c =
     (if i \<in> set peers then
        case cl_out c i of
          Idle \<Rightarrow> (case Ready (cl_node c i) of ((msgs, hs), n') \<Rightarrow> Some (put c i n' (Unsaved hs msgs)))
        | _ \<Rightarrow> None
      else None)"
| "perform ops peers (SaveReady i) c =
     (if i \<in> set peers then
        case cl_out c i of
          Unsaved hs msgs \<Rightarrow> Some (put c i (saveHS ops (cl_node c i) hs) (Sending msgs))
        | _ \<Rightarrow> None
      else None)"
| "perform ops peers (SendNext i) c =
     (if i \<in> set peers then
        case cl_out c i of
          Sending (m # msgs) \<Rightarrow>
            Some (put (c\<lparr>cl_sent := cl_sent c @ [m]\<rparr>) i (cl_node c i) (Sending msgs))
        | _ \<Rightarrow> None
      else None)"
| "perform ops peers (FinishSend i) c =
     (if i \<in> set peers then
        case cl_out c i of Sending [] \<Rightarrow> Some (put c i (cl_node c i) Idle) | _ \<Rightarrow> None
      else None)"
| "perform ops peers (Restart i) c =
     (if i \<in> set peers then
        case newNode ops (\<lambda>_. []) 0 (n_cfg (cl_node c i)) (n_storage (cl_node c i)) of
          Some (Inr n') \<Rightarrow> Some (put c i n' Idle)
        | _ \<Rightarrow> None
      else None)"

fun schedule :: "'s storage_ops \<Rightarrow> nodeid list \<Rightarrow> action list \<Rightarrow> 's cluster \<Rightarrow> 's cluster option" where
  "schedule ops peers [] c = Some c"
| "schedule ops peers (a # as) c =
     (case perform ops peers a c of None \<Rightarrow> None | Some c' \<Rightarrow> schedule ops peers as c')"

lemma perform_step:
  assumes "perform ops peers a c = Some c'"
  shows "cl_step ops (set peers) c c'"
proof (cases a)
  case (Deliver k)
  with assms show ?thesis
    by (auto simp: Let_def intro!: cl_step.deliver [OF _ nth_mem] split: if_splits)
qed (use assms in \<open>auto intro: cl_step.intros split: if_splits option.splits outbox.splits
  list.splits prod.splits sum.splits\<close>)

lemma schedule_reachable:
  "schedule ops peers as c = Some c' \<Longrightarrow> cl_reachable ops ok peers c \<Longrightarrow> cl_reachable ops ok peers c'"
  by (induction as arbitrary: c) (auto split: option.splits dest!: perform_step dest: cl_reachable.step)

end
