(* ===== verification/Raft_Scenario.thy ===== *)
theory Raft_Scenario
  imports Raft_Cluster
begin

text \<open>
  Concrete clusters over memory stores, and the schedules that the concrete results of the
  development run.
\<close>

definition demo_cluster :: "nodeid list \<Rightarrow> (nodeid \<Rightarrow> mem_storage) \<Rightarrow> mem_storage cluster" where
  "demo_cluster peers s =
     \<lparr>cl_server = (\<lambda>i. \<lparr>sv_node = demo_node peers (s i) i, sv_out = Idle\<rparr>), cl_sent = [], cl_leaders = {}\<rparr>"

lemma demo_cluster_init:
  assumes "odd (length peers)" and "'''' \<notin> set peers" and "\<forall>i. mem_wf (s i)"
  shows "cl_init mem_ops (\<lambda>_. True) peers (demo_cluster peers s)"
proof -
  have "newNode mem_ops (\<lambda>_. []) 0 (demo_cfg peers i) (s i) = Some (Inr (demo_node peers (s i) i))"
    if "i \<in> set peers" for i
    using that assms by (intro newNode_demo) auto
  moreover have "n_storage (demo_node peers (s i) i) = s i" for i by (simp add: demo_node_def)
  moreover have "cfg_NodeID (demo_cfg peers i) = i \<and> cfg_Peers (demo_cfg peers i) = peers" for i
    by (simp add: demo_cfg_def)
  ultimately show ?thesis unfolding cl_init_def demo_cluster_def by simp blast
qed

text \<open>A full flush of a node that has \<open>k\<close> messages to send.\<close>

definition flush_acts :: "nodeid \<Rightarrow> nat \<Rightarrow> action list" where
  "flush_acts i k = [TakeReady i, SaveReady i] @ replicate k (SendNext i) @ [FinishSend i]"

text \<open>Node \<open>a\<close> of three times out, asks for votes, and is elected by \<open>b\<close>.\<close>

definition elect_a :: "action list" where
  "elect_a = replicate 3 (Tick ''a'') @ flush_acts ''a'' 2 @ [Deliver 0] @ flush_acts ''b'' 1 @ [Deliver 2]"

lemma demo_elect:
  "case schedule mem_ops abc elect_a (demo_cluster abc (\<lambda>_. mem_New)) of
     None \<Rightarrow> False | Some c \<Rightarrow> (1, ''a'') \<in> cl_leaders c"
  by code_simp

end
