(* ===== verification/Raft_Election.thy ===== *)
theory Raft_Election
  imports Raft_Scenario
begin

text \<open>
  Election Safety of the cluster: at most one leader per term, over the whole history,
  with crashes, restarts, loss, reordering and duplication. The invariant reads votes
  off messages and bounds each by what its voter has stored; majorities do the rest.
\<close>

section \<open>The invariant\<close>












section \<open>Preservation\<close>


























section \<open>Election Safety\<close>








end
