(* ===== verification/Raft_System.thy ===== *)
theory Raft_System
  imports Raft_Election
begin

text \<open>
  Whole processes: public nodes with their driver, applier and callers (\<open>ni_step\<close>), a
  network that loses, delays, reorders and duplicates, and processes that die and are built
  again by \<^verbatim>\<open>New\<close> over their store. The system refines the cluster of cores of
  \<open>Raft_Cluster\<close>: every operation of a process is a sequence of cluster steps. Election
  Safety therefore holds of what \<^verbatim>\<open>Status\<close> reports.
\<close>

section \<open>Systems of processes\<close>

record ('s, 'm, 'r) system =
  sys_proc :: "nodeid \<Rightarrow> ('s, 'm, 'r) run_state"
  sys_sent :: "message list"

abbreviation sys_impl :: "('s, 'm, 'r) system \<Rightarrow> nodeid \<Rightarrow> ('s, 'm, 'r) nodeImpl" where
  "sys_impl S i \<equiv> fst (sys_proc S i)"

inductive sys_step :: "'s storage_ops \<Rightarrow> ('m, 'r) sm_ops \<Rightarrow> nodeid set \<Rightarrow> ('s, 'm, 'r) system \<Rightarrow> ('s, 'm, 'r) system \<Rightarrow> bool"
  for ops smo P where
  act: "i \<in> P \<Longrightarrow> ni_step ops smo (sys_proc S i) rcv out p' \<Longrightarrow>
    n_currentTerm (ni_core (sys_impl S i)) + 1 < u64_size \<Longrightarrow>
    (\<And>m. rcv = Some m \<Longrightarrow> m \<in> set (sys_sent S) \<and> m_To m = i \<and> m_Term m + 1 < u64_size) \<Longrightarrow>
    sys_step ops smo P S (S\<lparr>sys_proc := (sys_proc S)(i := p'), sys_sent := sys_sent S @ out\<rparr>)"
| rebuild: "i \<in> P \<Longrightarrow>
    New ops smo mk now (n_cfg (ni_core (sys_impl S i))) (n_storage (ni_core (sys_impl S i))) sm = Some (Inr n') \<Longrightarrow>
    sys_step ops smo P S (S\<lparr>sys_proc := (sys_proc S)(i := (n', DrainDone, []))\<rparr>)"

definition sys_init :: "'s storage_ops \<Rightarrow> ('m, 'r) sm_ops \<Rightarrow> ('s \<Rightarrow> bool) \<Rightarrow> nodeid list \<Rightarrow> ('s, 'm, 'r) system \<Rightarrow> bool" where
  "sys_init ops smo ok peers S \<longleftrightarrow>
     sys_sent S = [] \<and>
     (\<forall>i \<in> set peers. \<exists>mk now cfg s sm n. sys_proc S i = (n, DrainDone, []) \<and> ok s \<and>
        cfg_NodeID cfg = i \<and> cfg_Peers cfg = peers \<and> New ops smo mk now cfg s sm = Some (Inr n))"

inductive sys_reachable :: "'s storage_ops \<Rightarrow> ('m, 'r) sm_ops \<Rightarrow> ('s \<Rightarrow> bool) \<Rightarrow> nodeid list \<Rightarrow> ('s, 'm, 'r) system \<Rightarrow> bool"
  for ops smo ok peers where
  init: "sys_init ops smo ok peers S \<Longrightarrow> sys_reachable ops smo ok peers S"
| step: "sys_reachable ops smo ok peers S \<Longrightarrow> sys_step ops smo (set peers) S S' \<Longrightarrow>
    sys_reachable ops smo ok peers S'"

section \<open>The simulation\<close>

text \<open>A cluster shows a system when the cores and the network agree and every driver is idle.\<close>

definition shows_system :: "nodeid set \<Rightarrow> 's cluster \<Rightarrow> ('s, 'm, 'r) system \<Rightarrow> bool" where
  "shows_system P c S \<longleftrightarrow> cl_sent c = sys_sent S \<and>
     (\<forall>i \<in> P. cl_server c i = \<lparr>sv_node = ni_core (sys_impl S i), sv_out = Idle\<rparr>)"

text \<open>What a process may do to its core: nothing, or cluster steps of that server alone.\<close>

definition core_path ::
  "'s storage_ops \<Rightarrow> nodeid set \<Rightarrow> 's cluster \<Rightarrow> nodeid \<Rightarrow> 's node \<Rightarrow> message list \<Rightarrow> bool" where
  "core_path ops P c i core out \<longleftrightarrow>
     (\<exists>c'. (cl_step ops P)\<^sup>*\<^sup>* c c' \<and> cl_sent c' = cl_sent c @ out \<and>
        cl_server c' = (cl_server c)(i := \<lparr>sv_node = core, sv_out = Idle\<rparr>))"

lemma core_path_refl: "cl_server c i = \<lparr>sv_node = core, sv_out = Idle\<rparr> \<Longrightarrow> core_path ops P c i core []"
  unfolding core_path_def by (rule exI [of _ c]) (auto simp: fun_upd_idem)

lemma core_path_step:
  assumes "cl_step ops P c (put c i core (cl_out c i))" and "cl_out c i = Idle"
  shows "core_path ops P c i core []"
  unfolding core_path_def
  by (rule exI [of _ "put c i core (cl_out c i)"]) (use assms in \<open>auto simp: put_def\<close>)

lemma core_path_trans:
  assumes "core_path ops P c i core1 out1"
    and "\<And>c1. cl_server c1 = (cl_server c)(i := \<lparr>sv_node = core1, sv_out = Idle\<rparr>) \<Longrightarrow>
      cl_sent c1 = cl_sent c @ out1 \<Longrightarrow> core_path ops P c1 i core2 out2"
  shows "core_path ops P c i core2 (out1 @ out2)"
proof -
  obtain c1 where c1: "(cl_step ops P)\<^sup>*\<^sup>* c c1" "cl_sent c1 = cl_sent c @ out1"
      "cl_server c1 = (cl_server c)(i := \<lparr>sv_node = core1, sv_out = Idle\<rparr>)"
    using assms(1) by (auto simp: core_path_def)
  from assms(2) [OF c1(3,2)] obtain c2 where c2: "(cl_step ops P)\<^sup>*\<^sup>* c1 c2" "cl_sent c2 = cl_sent c1 @ out2"
      "cl_server c2 = (cl_server c1)(i := \<lparr>sv_node = core2, sv_out = Idle\<rparr>)"
    by (auto simp: core_path_def)
  from c1 c2 show ?thesis unfolding core_path_def by (intro exI [of _ c2]) (auto intro: rtranclp_trans)
qed

lemma send_all:
  assumes "i \<in> P" and "cl_out c i = Sending msgs"
  shows "\<exists>c'. (cl_step ops P)\<^sup>*\<^sup>* c c' \<and> cl_sent c' = cl_sent c @ msgs \<and>
    cl_server c' = (cl_server c)(i := \<lparr>sv_node = cl_node c i, sv_out = Idle\<rparr>)"
  using assms(2)
proof (induction msgs arbitrary: c)
  case Nil
  from cl_step.sent [OF assms(1) Nil, of ops] show ?case
    by (intro exI [of _ "put c i (cl_node c i) Idle"]) (auto simp: put_def)
next
  case (Cons m msgs)
  let ?c1 = "put (c\<lparr>cl_sent := cl_sent c @ [m]\<rparr>) i (cl_node c i) (Sending msgs)"
  have st: "cl_step ops P c ?c1" by (rule cl_step.send [OF assms(1) Cons.prems])
  have "cl_out ?c1 i = Sending msgs" by (simp add: put_def)
  from Cons.IH [OF this] obtain c' where "(cl_step ops P)\<^sup>*\<^sup>* ?c1 c'" "cl_sent c' = cl_sent ?c1 @ msgs"
      "cl_server c' = (cl_server ?c1)(i := \<lparr>sv_node = cl_node ?c1 i, sv_out = Idle\<rparr>)" by blast
  with st show ?case
    by (intro exI [of _ c']) (auto simp: put_def intro: converse_rtranclp_into_rtranclp)
qed

lemma flush_path:
  assumes "i \<in> P" and "cl_server c i = \<lparr>sv_node = ni_core n, sv_out = Idle\<rparr>" and "flush ops n = (msgs, d, n')"
  shows "core_path ops P c i (ni_core n') msgs"
proof -
  obtain hs core where r: "Ready (ni_core n) = ((msgs, hs), core)" and n': "ni_core n' = saveHS ops core hs"
  proof -
    obtain ms hs core where r: "Ready (ni_core n) = ((ms, hs), core)" by (metis prod.collapse)
    from assms(3) r have "msgs = ms" "n' = snd (drainCommitsToApply ops (n\<lparr>ni_core := saveHS ops core hs\<rparr>))"
      by (auto simp: flush_def split: prod.splits)
    with r that show thesis by (simp add: drainCommitsToApply_def drainLoop_core)
  qed
  let ?c1 = "put c i core (Unsaved hs msgs)"
  let ?c2 = "put ?c1 i (saveHS ops core hs) (Sending msgs)"
  have s1: "cl_step ops P c ?c1" using assms(1,2) r by (intro cl_step.ready) auto
  have s2: "cl_step ops P ?c1 ?c2"
    using cl_step.save [OF assms(1), of ?c1 hs msgs ops] by (simp add: put_def)
  have "cl_out ?c2 i = Sending msgs" by (simp add: put_def)
  from send_all [OF assms(1) this, of ops] obtain c' where c': "(cl_step ops P)\<^sup>*\<^sup>* ?c2 c'"
      "cl_sent c' = cl_sent ?c2 @ msgs"
      "cl_server c' = (cl_server ?c2)(i := \<lparr>sv_node = cl_node ?c2 i, sv_out = Idle\<rparr>)" by blast
  have "(cl_step ops P)\<^sup>*\<^sup>* c c'"
    using s1 s2 c'(1) by (meson converse_rtranclp_into_rtranclp)
  with c' show ?thesis unfolding core_path_def by (intro exI [of _ c']) (auto simp: put_def n')
qed

lemma checkpoint_path:
  assumes "i \<in> P" and c: "cl_server c i = \<lparr>sv_node = ni_core n, sv_out = Idle\<rparr>"
    and "checkpoint ops smo n = Some n'"
  shows "core_path ops P c i (ni_core n') []"
proof -
  have snap: "core_path ops P c i ((ni_core n)\<lparr>n_storage := s\<rparr>) []"
    if "op_SaveSnapshot ops (n_storage (ni_core n)) sn = (r, s)" for sn r s
    using cl_step.checkpoint [OF assms(1), of ops c sn r s] that c
    by (intro core_path_step) (simp_all add: c)
  from assms(3) show ?thesis
    by (cases rule: checkpoint_cases) (auto intro: snap core_path_refl c)
qed

lemma runApply_path:
  assumes "i \<in> P" and "cl_server c i = \<lparr>sv_node = ni_core n, sv_out = Idle\<rparr>" and "ni_applyCh n = e # es"
  shows "core_path ops P c i (ni_core (runApply ops smo n)) []"
proof -
  let ?n = "n\<lparr>ni_applyCh := es\<rparr>"
  have run: "runApply ops smo n = applyOne ops smo ?n e" using assms(3) by (simp add: runApply_def)
  show ?thesis
  proof (cases rule: applyOne_cases [of ops smo ?n e])
    case (recover n1)
    with assms(2) run show ?thesis by (intro core_path_refl) (simp add: applyRecover_def Let_def)
  next
    case (ok n1)
    with assms(2) run show ?thesis by (intro core_path_refl) simp
  next
    case (saved n1)
    with checkpoint_path [OF assms(1), of c n1 ops smo] assms(2) run show ?thesis by simp
  qed
qed

lemma Step_path:
  assumes "i \<in> P" and c: "cl_server c i = \<lparr>sv_node = ni_core n, sv_out = Idle\<rparr>"
    and "impl_Step ops n ctxDone m = Some (err, n')"
    and "n_currentTerm (ni_core n) + 1 < u64_size" and "m \<in> cl_net c \<and> m_To m = i \<and> m_Term m + 1 < u64_size"
  shows "core_path ops P c i (ni_core n') []"
proof (cases "n' = n")
  case True
  with c show ?thesis by (intro core_path_refl) simp
next
  case False
  with assms(3) obtain e where "Step ops (ni_core n) m = Some (e, ni_core n')"
    by (auto simp: impl_Step_def split: if_splits)
  with assms show ?thesis by (intro core_path_step cl_step.deliver [where m = m and err = e]) auto
qed

lemma propose_path:
  assumes "i \<in> P" and c: "cl_server c i = \<lparr>sv_node = ni_core n, sv_out = Idle\<rparr>"
    and "propose_submit ops n data = Some (r, n')"
  shows "core_path ops P c i (ni_core n') []"
proof (cases "ni_stopped n \<or> n_role (ni_core n) \<noteq> Leader")
  case True
  with assms(3) have "n' = n" by (auto simp: propose_submit_def split: if_splits)
  with c show ?thesis by (intro core_path_refl) simp
next
  case False
  with assms(3) obtain idx ok n1 where "proposeLocked ops (ni_core n) data = Some ((idx, ok), n1)"
      "(if ok then broadcastAppendEntriesLocked n1 else Some n1) = Some (ni_core n')"
    by (auto simp: propose_submit_def Let_def signalWake_def Option.bind_eq_Some_conv split: if_splits)
  with assms show ?thesis by (intro core_path_step cl_step.propose) simp_all
qed

lemma Stop_path:
  assumes "i \<in> P" and c: "cl_server c i = \<lparr>sv_node = ni_core n, sv_out = Idle\<rparr>"
    and "Stop ops smo n joined = Some (err, n')"
  shows "core_path ops P c i (ni_core n') []"
proof -
  let ?n = "n\<lparr>ni_stopOnce := True, ni_stopped := True, ni_cancel := map_option (\<lambda>_. True) (ni_cancel n)\<rparr>"
  consider "ni_core n' = ni_core n" | "checkpoint ops smo ?n = Some n'"
    using assms(3) by (auto simp: Stop_def Let_def Option.bind_eq_Some_conv split: if_splits)
  then show ?thesis
    using core_path_refl [of c i "ni_core n'"] checkpoint_path [OF assms(1), of c ?n ops smo n'] c
    by cases simp_all
qed

text \<open>Every operation of a process is a path of its server in the cluster.\<close>

lemma ni_step_path:
  assumes "ni_step ops smo p rcv out p'" and "i \<in> P"
    and "cl_server c i = \<lparr>sv_node = ni_core (fst p), sv_out = Idle\<rparr>"
    and "n_currentTerm (ni_core (fst p)) + 1 < u64_size"
    and "\<And>m. rcv = Some m \<Longrightarrow> m \<in> cl_net c \<and> m_To m = i \<and> m_Term m + 1 < u64_size"
  shows "core_path ops P c i (ni_core (fst p')) out"
  using assms
proof (induction rule: ni_step.induct)
  case (start n err n' d h)
  then show ?case by (intro core_path_refl) (auto simp: Start_def split: if_splits)
next
  case (inbound n ctxDone m err n' d h)
  then obtain n1 where "impl_Step ops n ctxDone m = Some (err, n1)" "ni_core n' = ni_core n1"
    by (auto simp: inbound_def signalWake_def)
  with Step_path [OF inbound(2), of c n ops ctxDone m err n1] inbound show ?case by simp
next
  case (wait n ctxDone idx trm ch r n' d h)
  then show ?case by (intro core_path_refl) (auto simp: propose_wait_def split: option.splits if_splits)
next
  case (tick d n msgs d' n' h)
  then obtain err core where st: "Step ops (ni_core n) tickMessage = Some (err, core)"
    and fl: "flush ops (n\<lparr>ni_core := core\<rparr>) = (msgs, d', n')"
    by (auto simp: runTicker_tick_def)
  have "core_path ops P c i core []"
    using tick st by (intro core_path_step cl_step.tick) simp_all
  from core_path_trans [OF this flush_path [OF tick(3) _ fl]] show ?case by simp
next
  case (wake d n msgs d' n' h)
  with flush_path [OF wake(4), of c "n\<lparr>ni_wake := False\<rparr>" ops msgs d' n'] show ?case
    by (simp add: runTicker_wake_def)
next
  case (resume ci j e n d' n' h)
  have "ni_core n' = ni_core n"
    using resume(1) drainLoop_core [of ops ci "j + 1" "n\<lparr>ni_applyCh := ni_applyCh n @ [e], ni_enqueuedIdx := j\<rparr>"]
    by (auto simp: drainResume_def split: if_splits)
  with resume show ?case by (intro core_path_refl) simp
qed (auto intro: Step_path propose_path runApply_path Stop_path)

lemma newNode_defaults: "newNode ops mk now (applyDefaults cfg) s = newNode ops mk now cfg s"
  by (simp add: newNode_def applyDefaults_idem Let_def)

lemma New_core:
  assumes "New ops smo mk now cfg s sm = Some (Inr n)"
  shows "newNode ops mk now cfg s = Some (Inr (ni_core n))"
proof -
  obtain core where core: "newNode ops mk now (applyDefaults cfg) s = Some (Inr core)"
    using assms by (auto simp: New_def Let_def split: option.splits sum.splits)
  with assms have "ni_core n = core"
    by (auto simp: New_def Let_def split: option.splits sum.splits if_splits prod.splits)
  with core show ?thesis by (simp add: newNode_defaults)
qed

lemma sys_init_shown:
  assumes "sys_init ops smo ok peers S"
  shows "\<exists>c. cl_init ops ok peers c \<and> shows_system (set peers) c S"
proof (intro exI conjI)
  let ?c = "\<lparr>cl_server = (\<lambda>i. \<lparr>sv_node = ni_core (sys_impl S i), sv_out = Idle\<rparr>), cl_sent = [], cl_leaders = {}\<rparr>"
  show "shows_system (set peers) ?c S" using assms by (simp add: shows_system_def sys_init_def)
  have "ok (n_storage (cl_node ?c i)) \<and> (\<exists>mk now cfg. cfg_NodeID cfg = i \<and> cfg_Peers cfg = peers \<and>
      newNode ops mk now cfg (n_storage (cl_node ?c i)) = Some (Inr (cl_node ?c i)))" if i: "i \<in> set peers" for i
  proof -
    obtain mk now cfg s sm n where n: "sys_proc S i = (n, DrainDone, [])" "ok s" "cfg_NodeID cfg = i"
        "cfg_Peers cfg = peers" "New ops smo mk now cfg s sm = Some (Inr n)"
      using assms i unfolding sys_init_def by blast
    have "newNode ops mk now cfg s = Some (Inr (ni_core n))" by (rule New_core [OF n(5)])
    moreover from newNode_fresh(9) [OF this] have "n_storage (ni_core n) = s" .
    ultimately show ?thesis using n by auto
  qed
  then show "cl_init ops ok peers ?c" by (simp add: cl_init_def)
qed

lemma sys_step_shown:
  assumes "sys_step ops smo P S S'" and "shows_system P c S"
  shows "\<exists>c'. (cl_step ops P)\<^sup>*\<^sup>* c c' \<and> shows_system P c' S'"
  using assms
proof (induction rule: sys_step.induct)
  case (act i S rcv out p')
  have "core_path ops P c i (ni_core (fst p')) out"
    by (rule ni_step_path [OF act(2,1)]) (use act in \<open>auto simp: shows_system_def\<close>)
  then obtain c' where "(cl_step ops P)\<^sup>*\<^sup>* c c'" "cl_sent c' = cl_sent c @ out"
      "cl_server c' = (cl_server c)(i := \<lparr>sv_node = ni_core (fst p'), sv_out = Idle\<rparr>)"
    by (auto simp: core_path_def)
  with act(5) show ?case by (intro exI [of _ c']) (auto simp: shows_system_def)
next
  case (rebuild i mk now S sm n')
  let ?c = "put c i (ni_core n') Idle"
  have "cl_step ops P c ?c"
    using rebuild(1,3) New_core [OF rebuild(2)] by (intro cl_step.restart) (auto simp: shows_system_def)
  with rebuild(3) show ?case
    by (intro exI [of _ ?c]) (auto simp: shows_system_def put_def)
qed

lemma cl_reachable_path:
  "(cl_step ops (set peers))\<^sup>*\<^sup>* c c' \<Longrightarrow> cl_reachable ops ok peers c \<Longrightarrow> cl_reachable ops ok peers c'"
  by (induction rule: rtranclp_induct) (auto intro: cl_reachable.step)

lemma sys_reachable_shown:
  "sys_reachable ops smo ok peers S \<Longrightarrow> \<exists>c. cl_reachable ops ok peers c \<and> shows_system (set peers) c S"
proof (induction rule: sys_reachable.induct)
  case (init S)
  then show ?case using sys_init_shown cl_reachable.init by blast
next
  case (step S S')
  then show ?case using sys_step_shown cl_reachable_path by blast
qed


section \<open>Concrete systems\<close>

datatype sys_action = RunTick nodeid | RunWake nodeid | Receive nat | Rebuild nodeid

text \<open>
  \<open>sys_act\<close> performs one action on a system over the recorder; a received message is named
  by its position among the messages sent.
\<close>

fun sys_act :: "nodeid list \<Rightarrow> sys_action \<Rightarrow> (mem_storage, entry list, nat) system \<Rightarrow>
    (mem_storage, entry list, nat) system option" where
  "sys_act peers (RunTick i) S =
     (case sys_proc S i of (n, d, h) \<Rightarrow>
        if i \<in> set peers \<and> \<not> parked d \<and> n_currentTerm (ni_core n) + 1 < u64_size
        then map_option (\<lambda>(msgs, d', n'). S\<lparr>sys_proc := (sys_proc S)(i := (n', d', h)), sys_sent := sys_sent S @ msgs\<rparr>)
               (runTicker_tick mem_ops n)
        else None)"
| "sys_act peers (RunWake i) S =
     (case sys_proc S i of (n, d, h) \<Rightarrow>
        if i \<in> set peers \<and> \<not> parked d \<and> ni_wake n \<and> n_currentTerm (ni_core n) + 1 < u64_size
        then (case runTicker_wake mem_ops n of (msgs, d', n') \<Rightarrow>
                Some (S\<lparr>sys_proc := (sys_proc S)(i := (n', d', h)), sys_sent := sys_sent S @ msgs\<rparr>))
        else None)"
| "sys_act peers (Receive k) S =
     (if k < length (sys_sent S) then
        let m = sys_sent S ! k; i = m_To m in
        (case sys_proc S i of (n, d, h) \<Rightarrow>
           if i \<in> set peers \<and> n_currentTerm (ni_core n) + 1 < u64_size \<and> m_Term m + 1 < u64_size
           then map_option (\<lambda>(err, n'). S\<lparr>sys_proc := (sys_proc S)(i := (n', d, h)), sys_sent := sys_sent S @ []\<rparr>)
                  (inbound mem_ops n False m)
           else None)
      else None)"
| "sys_act peers (Rebuild i) S =
     (case sys_proc S i of (n, d, h) \<Rightarrow>
        if i \<in> set peers
        then (case New mem_ops recorder (\<lambda>_. []) 0 (n_cfg (ni_core n)) (n_storage (ni_core n)) [] of
                Some (Inr n') \<Rightarrow> Some (S\<lparr>sys_proc := (sys_proc S)(i := (n', DrainDone, []))\<rparr>)
              | _ \<Rightarrow> None)
        else None)"

fun sys_acts :: "nodeid list \<Rightarrow> sys_action list \<Rightarrow> (mem_storage, entry list, nat) system \<Rightarrow>
    (mem_storage, entry list, nat) system option" where
  "sys_acts peers [] S = Some S"
| "sys_acts peers (a # as) S = (case sys_act peers a S of None \<Rightarrow> None | Some S' \<Rightarrow> sys_acts peers as S')"

lemma sys_act_step:
  assumes "sys_act peers a S = Some S'"
  shows "sys_step mem_ops recorder (set peers) S S'"
proof (cases a)
  case (RunTick i)
  obtain n d h where p: "sys_proc S i = (n, d, h)" by (metis prod_cases3)
  with assms RunTick show ?thesis
    by (auto intro!: sys_step.act ni_step.tick split: if_splits)
next
  case (RunWake i)
  obtain n d h where p: "sys_proc S i = (n, d, h)" by (metis prod_cases3)
  with assms RunWake show ?thesis
    by (auto intro!: sys_step.act ni_step.wake split: if_splits prod.splits)
next
  case (Receive k)
  obtain n d h where p: "sys_proc S (m_To (sys_sent S ! k)) = (n, d, h)" by (metis prod_cases3)
  with assms Receive show ?thesis
    by (auto simp: Let_def simp del: append_Nil2 intro!: sys_step.act ni_step.inbound split: if_splits)
next
  case (Rebuild i)
  obtain n d h where p: "sys_proc S i = (n, d, h)" by (metis prod_cases3)
  with assms Rebuild show ?thesis
    by (auto intro!: sys_step.rebuild split: if_splits option.splits sum.splits)
qed

lemma sys_acts_reachable:
  "sys_acts peers as S = Some S' \<Longrightarrow> sys_reachable mem_ops recorder ok peers S \<Longrightarrow>
   sys_reachable mem_ops recorder ok peers S'"
  by (induction as arbitrary: S) (auto split: option.splits dest!: sys_act_step dest: sys_reachable.step)

text \<open>Three processes over empty stores.\<close>

definition demo_system :: "(mem_storage, entry list, nat) system" where
  "demo_system =
     \<lparr>sys_proc = (\<lambda>i. (case New mem_ops recorder (\<lambda>_. []) 0 (demo_cfg abc i) mem_New [] of
        Some (Inr n) \<Rightarrow> n | _ \<Rightarrow> demo_impl (demo_node abc mem_New i), DrainDone, [])), sys_sent = []\<rparr>"

lemma demo_system_reachable: "sys_reachable mem_ops recorder (\<lambda>_. True) abc demo_system"
proof (rule sys_reachable.init, unfold sys_init_def, intro conjI ballI)
  show "sys_sent demo_system = []" by (simp add: demo_system_def)
  fix i assume "i \<in> set abc"
  moreover have "\<forall>i \<in> set abc. case New mem_ops recorder (\<lambda>_. []) 0 (demo_cfg abc i) mem_New [] of
      Some (Inr n) \<Rightarrow> True | _ \<Rightarrow> False"
    by code_simp
  ultimately obtain n where n: "New mem_ops recorder (\<lambda>_. []) 0 (demo_cfg abc i) mem_New [] = Some (Inr n)"
    by (fastforce split: option.splits sum.splits)
  have "cfg_NodeID (demo_cfg abc i) = i" "cfg_Peers (demo_cfg abc i) = abc" by (simp_all add: demo_cfg_def)
  with n show "\<exists>mk now cfg s sm n. sys_proc demo_system i = (n, DrainDone, []) \<and> True \<and> cfg_NodeID cfg = i \<and>
      cfg_Peers cfg = abc \<and> New mem_ops recorder mk now cfg s sm = Some (Inr n)"
    by (intro exI [of _ "\<lambda>_. []"] exI [of _ 0] exI [of _ "demo_cfg abc i"] exI [of _ mem_New]
          exI [of _ "[]"] exI [of _ n]) (simp add: demo_system_def)
qed

text \<open>\<open>a\<close> times out and asks for votes, \<open>b\<close> grants and dies, \<open>a\<close> counts.\<close>

definition demo_leader_run :: "sys_action list" where
  "demo_leader_run =
     [RunTick ''a'', RunTick ''a'', RunTick ''a'', Receive 0, RunWake ''b'', Rebuild ''b'', Receive 2]"

lemma demo_leader_run_ok:
  "\<exists>S. sys_reachable mem_ops recorder (\<lambda>_. True) abc S \<and> st_Role (Status (sys_impl S ''a'')) = Leader \<and>
     st_Term (Status (sys_impl S ''a'')) = 1 \<and> st_Term (Status (sys_impl S ''b'')) = 1"
proof -
  have "case sys_acts abc demo_leader_run demo_system of
      Some S \<Rightarrow> st_Role (Status (sys_impl S ''a'')) = Leader \<and> st_Term (Status (sys_impl S ''a'')) = 1 \<and>
        st_Term (Status (sys_impl S ''b'')) = 1
    | None \<Rightarrow> False"
    by code_simp
  then show ?thesis
    using sys_acts_reachable [OF _ demo_system_reachable] by (auto split: option.splits)
qed

section \<open>The two results\<close>

text \<open>
  C3: refinement. Whatever a system of processes does, a run of the cluster of cores shows
  it: same cores, same messages sent, in the same order.
\<close>

theorem system_refines_cluster:
  assumes "sys_reachable ops smo ok peers S"
  shows "\<exists>c. cl_reachable ops ok peers c \<and> cl_sent c = sys_sent S \<and>
    (\<forall>i \<in> set peers. cl_node c i = ni_core (sys_impl S i))"
  using sys_reachable_shown [OF assms] unfolding shows_system_def by force

theorem system_refines_cluster_witness:
  "\<exists>S c. sys_reachable mem_ops recorder (\<lambda>_. True) abc S \<and>
     st_Role (Status (sys_impl S ''a'')) = Leader \<and> cl_reachable mem_ops (\<lambda>_. True) abc c \<and>
     cl_sent c = sys_sent S \<and> cl_node c ''a'' = ni_core (sys_impl S ''a'')"
proof -
  obtain S where S: "sys_reachable mem_ops recorder (\<lambda>_. True) abc S" "st_Role (Status (sys_impl S ''a'')) = Leader"
    using demo_leader_run_ok by blast
  have "''a'' \<in> set abc" by (simp add: abc_def)
  with system_refines_cluster [OF S(1)] S show ?thesis by blast
qed



end
