(* ===== verification/Raft_Anomalies.thy ===== *)
theory Raft_Anomalies
  imports Raft_Scenario
begin

text \<open>
  Runs of the code that end where its documentation says they cannot. Each is a concrete
  schedule over memory stores, executed on the definitions.
\<close>

section \<open>Two commands committed at one index\<close>

text \<open>
  \<open>a\<close> leads term 1 and replicates entry 1 to all; \<open>b\<close> leads term 2, stores entry 2 and
  restarts before sending it; \<open>a\<close> leads term 3 and sends a heartbeat whose previous entry is
  1. \<open>b\<close> answers with its last index, 2, counting an entry \<open>a\<close> never sent. When \<open>a\<close> takes
  a proposal at index 2 it finds a quorum for it at once.
\<close>

definition overclaim :: "action list" where
  "overclaim =
     elect_a @ [Submit ''a'' [1]] @ flush_acts ''a'' 4 @ [Deliver 5, Deliver 6] @
     replicate 3 (Tick ''b'') @ flush_acts ''b'' 3 @ [Deliver 9] @ flush_acts ''c'' 1 @
     [Deliver 10, Submit ''b'' [2], Restart ''b'', Deliver 8] @
     replicate 3 (Tick ''a'') @ flush_acts ''a'' 3 @ [Deliver 13] @ flush_acts ''c'' 1 @
     [Deliver 14] @ flush_acts ''a'' 2 @ [Deliver 15] @ flush_acts ''b'' 1 @
     [Deliver 17, Submit ''a'' [3]]"

text \<open>\<open>b\<close> then leads term 4 with the vote of \<open>c\<close> and commits its own entry 2.\<close>

definition overclaim_then_commit :: "action list" where
  "overclaim_then_commit =
     overclaim @
     replicate 3 (Tick ''b'') @ flush_acts ''b'' 2 @ [Deliver 19] @ flush_acts ''c'' 1 @
     [Deliver 20, Submit ''b'' [4]] @ flush_acts ''b'' 4 @ [Deliver 24] @ flush_acts ''c'' 1 @
     [Deliver 25, Tick ''b''] @ flush_acts ''b'' 2 @ [Deliver 27] @ flush_acts ''c'' 1 @ [Deliver 28]"

definition committed_data :: "'s cluster \<Rightarrow> nodeid \<Rightarrow> nat \<Rightarrow> byte list option" where
  "committed_data c i k =
     (if 0 < k \<and> k \<le> n_commitIndex (cl_node c i) \<and> k \<le> length (l_entries (n_log (cl_node c i)))
      then Some (ent_Data (l_entries (n_log (cl_node c i)) ! (k - 1))) else None)"

lemma overclaim_run:
  "case schedule mem_ops abc overclaim_then_commit (demo_cluster abc (\<lambda>_. mem_New)) of
     None \<Rightarrow> False
   | Some c \<Rightarrow> committed_data c ''a'' 2 = Some [3] \<and> committed_data c ''b'' 2 = Some [2]"
  by code_simp

lemma demo_reachable: "cl_reachable mem_ops (\<lambda>_. True) abc (demo_cluster abc (\<lambda>_. mem_New))"
  by (intro cl_reachable.init demo_cluster_init) (simp_all add: abc_def mem_wf_New)

text \<open>
  C15: because the follower acknowledges its own last index instead of the last index the
  request covered, a cluster over reliable stores reaches a state in which two nodes have
  committed different commands at index 2.
\<close>

theorem state_machine_safety_fails:
  "\<exists>c. cl_reachable mem_ops (\<lambda>_. True) abc c \<and>
     committed_data c ''a'' 2 = Some [3] \<and> committed_data c ''b'' 2 = Some [2]"
proof -
  obtain c where "schedule mem_ops abc overclaim_then_commit (demo_cluster abc (\<lambda>_. mem_New)) = Some c"
    and "committed_data c ''a'' 2 = Some [3]" "committed_data c ''b'' 2 = Some [2]"
    using overclaim_run by (auto split: option.splits)
  with schedule_reachable [OF _ demo_reachable] show ?thesis by blast
qed

section \<open>Stores that fail\<close>








section \<open>The debug assertion on acknowledgements\<close>



end
