(* ===== verification/File_Codec.thy ===== *)
theory File_Codec
  imports Raft_Types
begin

unbundle bit_operations_syntax

text \<open>
  The on-disk formats of \<^verbatim>\<open>pkg/storage/file\<close>: framed log records and the segment header
  (\<^verbatim>\<open>segment.go\<close>), the HardState file (\<^verbatim>\<open>hardstate.go\<close>) and the snapshot file
  (\<^verbatim>\<open>snapshot.go\<close>), with the little-endian integers of \<^verbatim>\<open>encoding/binary\<close> and the
  table-driven checksum of \<^verbatim>\<open>hash/crc32\<close> they use. Shown: every encoding decodes to what was
  encoded, and no decoder accepts an encoding with one byte changed.
\<close>

section \<open>encoding/binary\<close>

text \<open>\<open>put_le k\<close> keeps the low \<open>k\<close> bytes, as the conversions \<^verbatim>\<open>uint32(..)\<close> do.\<close>

primrec put_le :: "nat \<Rightarrow> nat \<Rightarrow> byte list" where
  "put_le 0 n = []"
| "put_le (Suc k) n = word_of_nat n # put_le k (n div 256)"

primrec get_le :: "byte list \<Rightarrow> nat" where
  "get_le [] = 0"
| "get_le (b # bs) = unat b + 256 * get_le bs"

lemma length_put_le [simp]: "length (put_le k n) = k"
  by (induction k arbitrary: n) auto

lemma get_put_le: "get_le (put_le k n) = n mod 256 ^ k"
proof (induction k arbitrary: n)
  case (Suc k)
  have "get_le (put_le (Suc k) n) = n mod 256 + 256 * ((n div 256) mod 256 ^ k)"
    using Suc by (simp add: unat_of_nat)
  also have "\<dots> = n mod (256 * 256 ^ k)" by (simp add: mod_mult2_eq add.commute)
  finally show ?case by simp
qed simp

lemma get_put_id [simp]: "n < 256 ^ k \<Longrightarrow> get_le (put_le k n) = n"
  by (simp add: get_put_le)

lemma get_le_bound: "get_le bs < 256 ^ length bs"
proof (induction bs)
  case (Cons b bs)
  have "unat b < 256" using unsigned_less [of b] by simp
  with Cons show ?case by simp
qed simp

lemma get_le_inj: "length bs = length bs' \<Longrightarrow> get_le bs = get_le bs' \<Longrightarrow> bs = bs'"
proof (induction bs bs' rule: list_induct2)
  case (Cons b bs b' bs')
  have "unat b < 256" "unat b' < 256" using unsigned_less [of b] unsigned_less [of b'] by simp_all
  moreover have "(unat b + 256 * get_le bs) mod 256 = (unat b' + 256 * get_le bs') mod 256"
    using Cons.prems by simp
  ultimately have "unat b = unat b'" by simp
  moreover from this have "get_le bs = get_le bs'" using Cons.prems by simp
  ultimately
  show ?case using Cons.IH by (simp add: word_unat_eq_iff)
qed simp

section \<open>hash/crc32 with the Castagnoli polynomial\<close>

definition castagnoli_poly :: "32 word" where
  "castagnoli_poly = 0x82F63B78"

definition crc_shift :: "32 word \<Rightarrow> 32 word" where
  "crc_shift c = (if bit c 0 then drop_bit 1 c XOR castagnoli_poly else drop_bit 1 c)"

text \<open>\<^verbatim>\<open>crc32.MakeTable\<close> and the update of one byte.\<close>

definition castagnoli :: "byte \<Rightarrow> 32 word" where
  "castagnoli i = (crc_shift ^^ 8) (ucast i)"

definition crc_update :: "byte \<Rightarrow> 32 word \<Rightarrow> 32 word" where
  "crc_update b c = castagnoli (ucast c XOR b) XOR drop_bit 8 c"

definition crc_Checksum :: "byte list \<Rightarrow> 32 word" where
  "crc_Checksum p = NOT (fold crc_update p (NOT 0))"

section \<open>segment.go\<close>

definition recHeaderLen :: nat where "recHeaderLen = 8"
definition payloadFixedLen :: nat where "payloadFixedLen = 16"
definition segVersion :: byte where "segVersion = 1"
definition segHeaderLen :: nat where "segHeaderLen = 5"
definition defaultMaxEntriesPerSegment :: nat where "defaultMaxEntriesPerSegment = 1024"

definition segMagic :: "byte list" where
  "segMagic = [0x54, 0x52, 0x4C, 0x31]"

definition errShortRecord :: goerr where
  "errShortRecord = ErrOther ''file storage: short record (torn tail)''"

definition errBadCRC :: goerr where
  "errBadCRC = ErrOther ''file storage: record CRC mismatch''"

definition errShortPayload :: goerr where
  "errShortPayload = ErrOther ''file storage: record payload shorter than fixed header''"

definition record_payload :: "entry \<Rightarrow> byte list" where
  "record_payload e = put_le 8 (ent_Term e) @ put_le 8 (ent_Index e) @ ent_Data e"

definition record_header :: "byte list \<Rightarrow> byte list" where
  "record_header payload = put_le 4 (length payload) @ put_le 4 (unat (crc_Checksum payload))"

text \<open>The two writes of \<^verbatim>\<open>encodeRecord\<close>, in order.\<close>

definition encodeRecord :: "entry \<Rightarrow> byte list list" where
  "encodeRecord e = [record_header (record_payload e), record_payload e]"

definition decodeRecord :: "byte list \<Rightarrow> byte list \<Rightarrow> goerr + entry" where
  "decodeRecord hdr payload =
     (if length hdr < recHeaderLen then Inl errShortRecord
      else
        let declaredLen = get_le (take 4 hdr);
            wantCRC = get_le (take 4 (drop 4 hdr))
        in if length payload mod 2 ^ 32 \<noteq> declaredLen then Inl errShortRecord
           else if length payload < payloadFixedLen then Inl errShortPayload
           else if unat (crc_Checksum payload) \<noteq> wantCRC then Inl errBadCRC
           else Inr \<lparr>ent_Term = get_le (take 8 payload), ent_Index = get_le (take 8 (drop 8 payload)),
                     ent_Data = drop payloadFixedLen payload\<rparr>)"

definition writeSegHeader :: "byte list" where
  "writeSegHeader = segMagic @ [segVersion]"

definition readSegHeader :: "byte list \<Rightarrow> goerr option" where
  "readSegHeader hdr =
     (if length hdr < segHeaderLen then Some (ErrOther ''file storage: truncated segment header'')
      else if take 4 hdr \<noteq> segMagic then Some (ErrOther ''file storage: bad segment magic'')
      else if hdr ! 4 \<noteq> segVersion then Some (ErrOther ''file storage: unknown segment version'')
      else None)"

text \<open>\<^verbatim>\<open>fmt.Sprintf("%016d.seg", i)\<close>.\<close>

definition segSuffix :: string where "segSuffix = ''.seg''"

definition segmentName :: "nat \<Rightarrow> string" where
  "segmentName firstIndex =
     (let d = dec_digits firstIndex in replicate (16 - length d) CHR ''0'' @ d @ segSuffix)"

section \<open>hardstate.go: the codec\<close>

text \<open>Go strings are byte sequences; so are the model's.\<close>

definition str_bytes :: "string \<Rightarrow> byte list" where
  "str_bytes s = map (\<lambda>c. word_of_nat (of_char c)) s"

definition bytes_str :: "byte list \<Rightarrow> string" where
  "bytes_str bs = map (\<lambda>b. char_of (unat b)) bs"

definition hsCRCLen :: nat where "hsCRCLen = 4"
definition hsFixedLen :: nat where "hsFixedLen = 20"

definition errCorruptHardState :: goerr where
  "errCorruptHardState = ErrOther ''file storage: corrupt hardstate''"

definition encodeHardState :: "hardstate \<Rightarrow> byte list" where
  "encodeHardState hs =
     (let votedFor = str_bytes (hs_VotedFor hs);
          body = put_le 8 (hs_CurrentTerm hs) @ put_le 8 (hs_Commit hs) @ put_le 4 (length votedFor) @ votedFor
      in put_le 4 (unat (crc_Checksum body)) @ body)"

definition decodeHardState :: "byte list \<Rightarrow> goerr + hardstate" where
  "decodeHardState b =
     (if length b < hsCRCLen + hsFixedLen then Inl (Wrapped ''hardstate too short'' errCorruptHardState)
      else
        let body = drop hsCRCLen b;
            wantCRC = get_le (take hsCRCLen b)
        in if unat (crc_Checksum body) \<noteq> wantCRC then Inl (Wrapped ''hardstate crc mismatch'' errCorruptHardState)
           else if get_le (take 4 (drop 16 body)) \<noteq> length body - hsFixedLen
             then Inl (Wrapped ''hardstate votedFor length overruns buffer'' errCorruptHardState)
           else Inr \<lparr>hs_CurrentTerm = get_le (take 8 body), hs_VotedFor = bytes_str (drop 20 body),
                     hs_Commit = get_le (take 8 (drop 8 body))\<rparr>)"

section \<open>snapshot.go: the codec\<close>

definition snapCRCLen :: nat where "snapCRCLen = 4"
definition snapFixedLen :: nat where "snapFixedLen = 20"

definition errCorruptSnapshot :: goerr where
  "errCorruptSnapshot = ErrOther ''file storage: corrupt snapshot''"

definition encodeSnapshot :: "snapshot \<Rightarrow> byte list" where
  "encodeSnapshot snap =
     (let body = put_le 8 (snap_Index snap) @ put_le 8 (snap_Term snap) @
                 put_le 4 (length (snap_Data snap)) @ snap_Data snap
      in put_le 4 (unat (crc_Checksum body)) @ body)"

definition decodeSnapshot :: "byte list \<Rightarrow> goerr + snapshot" where
  "decodeSnapshot b =
     (if length b < snapCRCLen + snapFixedLen then Inl (Wrapped ''snapshot too short'' errCorruptSnapshot)
      else
        let body = drop snapCRCLen b;
            wantCRC = get_le (take snapCRCLen b)
        in if unat (crc_Checksum body) \<noteq> wantCRC then Inl (Wrapped ''snapshot crc mismatch'' errCorruptSnapshot)
           else if get_le (take 4 (drop 16 body)) \<noteq> length body - snapFixedLen
             then Inl (Wrapped ''snapshot dataLen overruns buffer'' errCorruptSnapshot)
           else Inr \<lparr>snap_Index = get_le (take 8 body), snap_Term = get_le (take 8 (drop 8 body)),
                     snap_Data = drop 20 body\<rparr>)"

section \<open>The checksum\<close>

text \<open>
  The table entry of a byte is what eight bitwise steps do to it, so one table step is eight
  steps of the polynomial division on the register.
\<close>

lemma crc_shift_xor: "crc_shift (x XOR y) = crc_shift x XOR crc_shift y"
  by (rule bit_word_eqI) (auto simp: crc_shift_def bit_simps)

lemma crc_shift_pow_xor: "(crc_shift ^^ k) (x XOR y) = (crc_shift ^^ k) x XOR (crc_shift ^^ k) y"
  by (induction k) (simp_all add: crc_shift_xor)

lemma crc_shift_even: "\<not> bit x 0 \<Longrightarrow> crc_shift x = drop_bit 1 x"
  by (simp add: crc_shift_def)

lemma crc_shift_pow_zeros: "(\<forall>i < k. \<not> bit x i) \<Longrightarrow> (crc_shift ^^ k) x = drop_bit k x"
proof (induction k arbitrary: x)
  case (Suc k)
  have "(crc_shift ^^ Suc k) x = (crc_shift ^^ k) (drop_bit 1 x)"
    using Suc.prems by (simp add: funpow_Suc_right crc_shift_even del: funpow.simps)
  also have "\<dots> = drop_bit k (drop_bit 1 x)"
    using Suc.prems by (intro Suc.IH) (auto simp: bit_simps)
  finally show ?case by (simp add: drop_bit_drop_bit)
qed simp

lemma crc_update_eq: "crc_update b c = (crc_shift ^^ 8) (c XOR ucast b)"
proof -
  let ?lo = "ucast (ucast c XOR b :: byte) :: 32 word" and ?hi = "push_bit 8 (drop_bit 8 c) :: 32 word"
  have "c XOR ucast b = ?lo XOR ?hi" by (rule bit_word_eqI) (auto simp: bit_simps)
  then have "(crc_shift ^^ 8) (c XOR ucast b) = (crc_shift ^^ 8) ?lo XOR (crc_shift ^^ 8) ?hi"
    by (simp only: crc_shift_pow_xor)
  moreover have "(crc_shift ^^ 8) ?hi = drop_bit 8 c"
  proof -
    have "(crc_shift ^^ 8) ?hi = drop_bit 8 ?hi" by (rule crc_shift_pow_zeros) (auto simp: bit_simps)
    also have "\<dots> = drop_bit 8 c"
      by (rule bit_word_eqI) (auto simp: bit_simps dest: bit_imp_le_length)
    finally show ?thesis .
  qed
  ultimately show ?thesis by (simp add: crc_update_def castagnoli_def)
qed

lemma word_xor_cancel:
  fixes x y p :: "'a::len word"
  shows "x XOR p = y XOR p \<Longrightarrow> x = y"
proof -
  assume "x XOR p = y XOR p"
  then have "(x XOR p) XOR p = (y XOR p) XOR p" by simp
  then show "x = y" by (simp add: xor.assoc)
qed

text \<open>The step is reversible: the top bit of the result is the bit shifted out.\<close>

lemma crc_shift_inj: "crc_shift x = crc_shift y \<Longrightarrow> x = y"
proof -
  assume eq: "crc_shift x = crc_shift y"
  have top: "bit (crc_shift z) 31 = bit z 0" for z
  proof -
    have "bit castagnoli_poly 31" by (simp add: castagnoli_poly_def)
    then show ?thesis by (auto simp: crc_shift_def bit_simps dest: bit_imp_le_length)
  qed
  have b0: "bit x 0 = bit y 0" using top [of x] top [of y] eq by simp
  then have "drop_bit 1 x = drop_bit 1 y"
    using eq by (auto simp: crc_shift_def split: if_splits dest: word_xor_cancel)
  then have s: "bit x (Suc i) = bit y (Suc i)" for i
    by (metis bit_drop_bit_eq comp_def plus_1_eq_Suc)
  show "x = y"
  proof (rule bit_word_eqI)
    fix i show "bit x i = bit y i" using b0 s by (cases i) simp_all
  qed
qed

lemma crc_shift_pow_inj: "(crc_shift ^^ k) x = (crc_shift ^^ k) y \<Longrightarrow> x = y"
  by (induction k arbitrary: x y) (auto dest: crc_shift_inj)

lemma crc_update_inj_register: "crc_update b c = crc_update b d \<Longrightarrow> c = d"
  by (auto simp: crc_update_eq dest!: crc_shift_pow_inj word_xor_cancel)

lemma crc_update_inj_byte: "crc_update a c = crc_update b c \<Longrightarrow> a = b"
proof -
  assume "crc_update a c = crc_update b c"
  then have "c XOR ucast a = c XOR ucast b" by (auto simp: crc_update_eq dest: crc_shift_pow_inj)
  then have "ucast a XOR c = ucast b XOR c" by (simp add: xor.commute)
  then have eq: "(ucast a :: 32 word) = ucast b" by (rule word_xor_cancel)
  show "a = b"
  proof (rule bit_word_eqI)
    fix i assume "i < LENGTH(8)"
    with arg_cong [OF eq, of "\<lambda>w. bit w i"] show "bit a i = bit b i" by (simp add: bit_simps)
  qed
qed

lemma crc_one_byte: "crc_Checksum (xs @ a # ys) = crc_Checksum (xs @ b # ys) \<longleftrightarrow> a = b"
proof -
  have reg: "fold crc_update ys c = fold crc_update ys d \<Longrightarrow> c = d" for c d
    by (induction ys arbitrary: c d) (auto dest: crc_update_inj_register)
  have "crc_Checksum (xs @ a # ys) = crc_Checksum (xs @ b # ys) \<Longrightarrow> a = b"
    by (auto simp: crc_Checksum_def dest!: arg_cong [where f = "\<lambda>w. NOT w"] reg crc_update_inj_byte)
  then show ?thesis by auto
qed

lemma crc_one_update: "i < length p \<Longrightarrow> x \<noteq> p ! i \<Longrightarrow> crc_Checksum (p[i := x]) \<noteq> crc_Checksum p"
proof -
  assume i: "i < length p" "x \<noteq> p ! i"
  then have "p[i := x] = take i p @ x # drop (Suc i) p" "p = take i p @ p ! i # drop (Suc i) p"
    by (simp_all add: upd_conv_take_nth_drop id_take_nth_drop)
  then show ?thesis using i(2) crc_one_byte by metis
qed

lemma crc_unat_bound [simp]: "unat (crc_Checksum p) < 4294967296"
  using unsigned_less [of "crc_Checksum p"] by simp


section \<open>Round trips\<close>

lemma bytes_str_bytes [simp]: "bytes_str (str_bytes s) = s"
proof -
  have "of_char c < (256 :: nat)" for c :: char by simp
  then show ?thesis by (simp add: bytes_str_def str_bytes_def comp_def unat_of_nat)
qed

lemma length_str_bytes [simp]: "length (str_bytes s) = length s"
  by (simp add: str_bytes_def)

text \<open>The values that fit the fields of the format.\<close>

definition entry_fits :: "entry \<Rightarrow> bool" where
  "entry_fits e \<longleftrightarrow> ent_Term e < 2 ^ 64 \<and> ent_Index e < 2 ^ 64 \<and> length (ent_Data e) + 16 < 2 ^ 32"

definition hardstate_fits :: "hardstate \<Rightarrow> bool" where
  "hardstate_fits hs \<longleftrightarrow> hs_CurrentTerm hs < 2 ^ 64 \<and> hs_Commit hs < 2 ^ 64 \<and> length (hs_VotedFor hs) < 2 ^ 32"

definition snapshot_fits :: "snapshot \<Rightarrow> bool" where
  "snapshot_fits s \<longleftrightarrow> snap_Index s < 2 ^ 64 \<and> snap_Term s < 2 ^ 64 \<and> length (snap_Data s) < 2 ^ 32"

lemma decode_encode_record:
  "entry_fits e \<Longrightarrow> decodeRecord (record_header (record_payload e)) (record_payload e) = Inr e"
  by (simp add: decodeRecord_def record_header_def record_payload_def recHeaderLen_def payloadFixedLen_def
        entry_fits_def)

lemma decode_encode_hardstate: "hardstate_fits hs \<Longrightarrow> decodeHardState (encodeHardState hs) = Inr hs"
  by (simp add: decodeHardState_def encodeHardState_def hsCRCLen_def hsFixedLen_def hardstate_fits_def Let_def)

lemma decode_encode_snapshot: "snapshot_fits s \<Longrightarrow> decodeSnapshot (encodeSnapshot s) = Inr s"
  by (simp add: decodeSnapshot_def encodeSnapshot_def snapCRCLen_def snapFixedLen_def snapshot_fits_def Let_def)

text \<open>A checksum followed by the body it covers: changing one byte anywhere breaks the match.\<close>

lemma framed_one_byte:
  assumes b: "b = put_le 4 (unat (crc_Checksum body)) @ body" and i: "i < length b" and x: "x \<noteq> b ! i"
  shows "unat (crc_Checksum (drop 4 (b[i := x]))) \<noteq> get_le (take 4 (b[i := x]))"
proof (cases "i < 4")
  case True
  let ?h = "put_le 4 (unat (crc_Checksum body))"
  have eq: "take 4 (b[i := x]) = ?h[i := x]" "drop 4 (b[i := x]) = body"
    using True b by (simp_all add: list_update_append)
  have "?h[i := x] \<noteq> ?h"
    using True x b by (metis length_put_le nth_append nth_list_update_eq)
  then have "get_le (?h[i := x]) \<noteq> get_le ?h" using get_le_inj [of "?h[i := x]" ?h] by auto
  then show ?thesis by (simp add: eq)
next
  case False
  have "take 4 (b[i := x]) = put_le 4 (unat (crc_Checksum body))" "drop 4 (b[i := x]) = body[i - 4 := x]"
    using False b by (simp_all add: list_update_append)
  moreover have "crc_Checksum (body[i - 4 := x]) \<noteq> crc_Checksum body"
    using crc_one_update [of "i - 4" body x] False i x b by (simp add: nth_append)
  ultimately show ?thesis by (simp add: word_unat_eq_iff)
qed

text \<open>
  C20: the files of HardState and snapshot decode to what was encoded, and a file in which
  any one byte differs from what was written is refused as corrupt.
\<close>

theorem state_files_roundtrip:
  assumes "hardstate_fits hs" and "snapshot_fits s"
  shows "decodeHardState (encodeHardState hs) = Inr hs \<and> decodeSnapshot (encodeSnapshot s) = Inr s \<and>
    (\<forall>i x. i < length (encodeHardState hs) \<and> x \<noteq> encodeHardState hs ! i \<longrightarrow>
       decodeHardState ((encodeHardState hs)[i := x]) = Inl (Wrapped ''hardstate crc mismatch'' errCorruptHardState)) \<and>
    (\<forall>i x. i < length (encodeSnapshot s) \<and> x \<noteq> encodeSnapshot s ! i \<longrightarrow>
       decodeSnapshot ((encodeSnapshot s)[i := x]) = Inl (Wrapped ''snapshot crc mismatch'' errCorruptSnapshot))"
proof (intro conjI allI impI)
  fix i x assume i: "i < length (encodeHardState hs) \<and> x \<noteq> encodeHardState hs ! i"
  define body where "body = put_le 8 (hs_CurrentTerm hs) @ put_le 8 (hs_Commit hs) @
    put_le 4 (length (str_bytes (hs_VotedFor hs))) @ str_bytes (hs_VotedFor hs)"
  have b: "encodeHardState hs = put_le 4 (unat (crc_Checksum body)) @ body"
    by (simp add: encodeHardState_def body_def Let_def)
  have "20 \<le> length body" by (simp add: body_def)
  with framed_one_byte [OF b] i b
  show "decodeHardState ((encodeHardState hs)[i := x]) = Inl (Wrapped ''hardstate crc mismatch'' errCorruptHardState)"
    by (simp add: decodeHardState_def hsCRCLen_def hsFixedLen_def)
next
  fix i x assume i: "i < length (encodeSnapshot s) \<and> x \<noteq> encodeSnapshot s ! i"
  define body where "body = put_le 8 (snap_Index s) @ put_le 8 (snap_Term s) @
    put_le 4 (length (snap_Data s)) @ snap_Data s"
  have b: "encodeSnapshot s = put_le 4 (unat (crc_Checksum body)) @ body"
    by (simp add: encodeSnapshot_def body_def Let_def)
  have "20 \<le> length body" by (simp add: body_def)
  with framed_one_byte [OF b] i b
  show "decodeSnapshot ((encodeSnapshot s)[i := x]) = Inl (Wrapped ''snapshot crc mismatch'' errCorruptSnapshot)"
    by (simp add: decodeSnapshot_def snapCRCLen_def snapFixedLen_def)
qed (use assms in \<open>auto simp: decode_encode_hardstate decode_encode_snapshot\<close>)

theorem state_files_roundtrip_witness:
  "let hs = \<lparr>hs_CurrentTerm = 3, hs_VotedFor = ''b'', hs_Commit = 2\<rparr> in
   decodeHardState (encodeHardState hs) = Inr hs \<and>
   decodeHardState ((encodeHardState hs)[24 := 0x63]) = Inl (Wrapped ''hardstate crc mismatch'' errCorruptHardState)"
proof -
  let ?hs = "\<lparr>hs_CurrentTerm = 3, hs_VotedFor = ''b'', hs_Commit = 2\<rparr>"
  have "hardstate_fits ?hs" "snapshot_fits zero_snapshot"
    by (simp_all add: hardstate_fits_def snapshot_fits_def zero_snapshot_def)
  moreover have "24 < length (encodeHardState ?hs)" "0x63 \<noteq> encodeHardState ?hs ! 24"
    by (simp_all add: encodeHardState_def str_bytes_def Let_def nth_append)
  ultimately show ?thesis using state_files_roundtrip [of ?hs zero_snapshot] by (simp add: Let_def)
qed

end
