(* ===== verification/File_Vfs.thy ===== *)
theory File_Vfs
  imports File_Codec
begin

text \<open>
  The durability seam of the file store, \<^verbatim>\<open>pkg/storage/file/vfs.go\<close>. The interfaces
  \<^verbatim>\<open>vfs\<close> and \<^verbatim>\<open>vfile\<close> are one table of methods \<open>vfs_ops\<close> on a file system of type \<open>'v\<close>; an
  open file is a descriptor. \<open>os_ops\<close> is \<^verbatim>\<open>osVFS\<close> over a file system with a page cache:
  what a process reads is the cached state, and what a crash leaves is the data as of each
  file's last \<^verbatim>\<open>Sync\<close> and the names as of the last \<^verbatim>\<open>SyncDir\<close>. All files of a store live in one
  directory, so a file is named by its base name.
\<close>

section \<open>Calls that may fail\<close>

text \<open>A method returns an error or a value, and the state it leaves in either case.\<close>

type_synonym ('s, 'a) io = "'s \<Rightarrow> (goerr + 'a) \<times> 's"

definition io_ret :: "'a \<Rightarrow> ('s, 'a) io" where
  "io_ret x s = (Inr x, s)"

definition io_err :: "goerr \<Rightarrow> ('s, 'a) io" where
  "io_err e s = (Inl e, s)"

definition io_bind :: "('s, 'a) io \<Rightarrow> ('a \<Rightarrow> ('s, 'b) io) \<Rightarrow> ('s, 'b) io" where
  "io_bind m f s = (case m s of (Inl e, s') \<Rightarrow> (Inl e, s') | (Inr x, s') \<Rightarrow> f x s')"

text \<open>\<^verbatim>\<open>if err != nil { return fmt.Errorf("w: %w", err) }\<close>\<close>

definition io_wrap :: "string \<Rightarrow> ('s, 'a) io \<Rightarrow> ('s, 'a) io" where
  "io_wrap w m s = (case m s of (Inl e, s') \<Rightarrow> (Inl (Wrapped w e), s') | (Inr x, s') \<Rightarrow> (Inr x, s'))"

text \<open>\<^verbatim>\<open>if err != nil { return fmt.Errorf("w: %w", errors.Join(err, f.Close())) }\<close>\<close>

definition io_join :: "string \<Rightarrow> ('s, 'a) io \<Rightarrow> ('s, unit) io \<Rightarrow> ('s, 'a) io" where
  "io_join w m close s =
     (case m s of
        (Inl e, s') \<Rightarrow>
          (case close s' of
             (Inl e2, s'') \<Rightarrow> (Inl (Wrapped w (Joined e e2)), s'')
           | (Inr _, s'') \<Rightarrow> (Inl (Wrapped w e), s''))
      | (Inr x, s') \<Rightarrow> (Inr x, s'))"

text \<open>\<^verbatim>\<open>errors.Join(f(), g())\<close> for two calls: both are made.\<close>

definition io_both :: "('s, unit) io \<Rightarrow> ('s, unit) io \<Rightarrow> ('s, unit) io" where
  "io_both m1 m2 s =
     (case m1 s of (r1, s1) \<Rightarrow> case m2 s1 of (r2, s2) \<Rightarrow>
        (case (r1, r2) of
           (Inl e1, Inl e2) \<Rightarrow> Inl (Joined e1 e2)
         | (Inl e1, Inr _) \<Rightarrow> Inl e1
         | (Inr _, Inl e2) \<Rightarrow> Inl e2
         | (Inr _, Inr _) \<Rightarrow> Inr (), s2))"

text \<open>\<^verbatim>\<open>defer func() { err = errors.Join(err, f.Close()) }()\<close>, and with the error dropped.\<close>

definition io_defer :: "('s, 'a) io \<Rightarrow> ('s, unit) io \<Rightarrow> ('s, 'a) io" where
  "io_defer m close s =
     (case m s of (r, s1) \<Rightarrow> case close s1 of (r2, s2) \<Rightarrow>
        (case (r, r2) of
           (Inl e1, Inl e2) \<Rightarrow> Inl (Joined e1 e2)
         | (Inl e1, Inr _) \<Rightarrow> Inl e1
         | (Inr _, Inl e2) \<Rightarrow> Inl e2
         | (Inr x, Inr _) \<Rightarrow> Inr x, s2))"

definition io_defer_quiet :: "('s, 'a) io \<Rightarrow> ('s, unit) io \<Rightarrow> ('s, 'a) io" where
  "io_defer_quiet m close s = (case m s of (r, s1) \<Rightarrow> (r, snd (close s1)))"

lemmas io_defs = io_ret_def io_err_def io_bind_def io_wrap_def io_join_def io_both_def io_defer_def
  io_defer_quiet_def

section \<open>vfs.go\<close>

type_synonym fd = nat

text \<open>
  \<open>f_ReadAt f len off\<close> gives the bytes read and the error; \<^verbatim>\<open>io.ReaderAt\<close> reports an error
  whenever it reads fewer than \<open>len\<close>.
\<close>

record 'v vfs_ops =
  v_Open :: "string \<Rightarrow> ('v, fd) io"
  v_Create :: "string \<Rightarrow> ('v, fd) io"
  v_OpenAppend :: "string \<Rightarrow> ('v, fd) io"
  v_Rename :: "string \<Rightarrow> string \<Rightarrow> ('v, unit) io"
  v_SyncDir :: "('v, unit) io"
  v_Remove :: "string \<Rightarrow> ('v, unit) io"
  v_ReadDir :: "('v, string list) io"
  f_Write :: "fd \<Rightarrow> byte list \<Rightarrow> ('v, unit) io"
  f_ReadAt :: "fd \<Rightarrow> nat \<Rightarrow> nat \<Rightarrow> 'v \<Rightarrow> (byte list \<times> goerr option) \<times> 'v"
  f_Sync :: "fd \<Rightarrow> ('v, unit) io"
  f_Truncate :: "fd \<Rightarrow> nat \<Rightarrow> ('v, unit) io"
  f_Close :: "fd \<Rightarrow> ('v, unit) io"
  f_Size :: "fd \<Rightarrow> ('v, nat) io"

text \<open>The buffer of length \<open>n\<close> after a read: what was read, then the zeros it was made with.\<close>

definition read_buf :: "nat \<Rightarrow> byte list \<Rightarrow> byte list" where
  "read_buf n bs = take n bs @ replicate (n - length bs) 0"

text \<open>\<^verbatim>\<open>ReadAt\<close> where any error ends the call.\<close>

definition io_ReadAt :: "'v vfs_ops \<Rightarrow> fd \<Rightarrow> nat \<Rightarrow> nat \<Rightarrow> ('v, byte list) io" where
  "io_ReadAt vo f n off v =
     (case f_ReadAt vo f n off v of
        ((bs, None), v') \<Rightarrow> (Inr (read_buf n bs), v')
      | ((bs, Some e), v') \<Rightarrow> (Inl e, v'))"

section \<open>osVFS over a disk with a page cache\<close>

record disk =
  dk_names :: "(string \<times> nat) list"
  dk_safe_names :: "(string \<times> nat) list"
  dk_data :: "nat \<Rightarrow> byte list"
  dk_safe :: "nat \<Rightarrow> byte list"
  dk_next :: nat

definition os_Open :: "string \<Rightarrow> (disk, fd) io" where
  "os_Open name d = (case map_of (dk_names d) name of None \<Rightarrow> (Inl ErrNotExist, d) | Some i \<Rightarrow> (Inr i, d))"

text \<open>\<^verbatim>\<open>O_RDWR|O_CREATE|O_TRUNC\<close>\<close>

definition os_Create :: "string \<Rightarrow> (disk, fd) io" where
  "os_Create name d =
     (case map_of (dk_names d) name of
        Some i \<Rightarrow> (Inr i, d\<lparr>dk_data := (dk_data d)(i := [])\<rparr>)
      | None \<Rightarrow>
          let i = dk_next d in
          (Inr i, d\<lparr>dk_names := AList.update name i (dk_names d), dk_data := (dk_data d)(i := []),
                   dk_safe := (dk_safe d)(i := []), dk_next := i + 1\<rparr>))"

text \<open>\<^verbatim>\<open>O_RDWR|O_APPEND\<close>\<close>

definition os_OpenAppend :: "string \<Rightarrow> (disk, fd) io" where
  "os_OpenAppend name d = os_Open name d"

definition os_Rename :: "string \<Rightarrow> string \<Rightarrow> (disk, unit) io" where
  "os_Rename oldpath newpath d =
     (case map_of (dk_names d) oldpath of
        None \<Rightarrow> (Inl ErrNotExist, d)
      | Some i \<Rightarrow> (Inr (), d\<lparr>dk_names := AList.update newpath i (AList.delete oldpath (dk_names d))\<rparr>))"

definition os_SyncDir :: "(disk, unit) io" where
  "os_SyncDir d = (Inr (), d\<lparr>dk_safe_names := dk_names d\<rparr>)"

definition os_Remove :: "string \<Rightarrow> (disk, unit) io" where
  "os_Remove name d =
     (if map_of (dk_names d) name = None then (Inl ErrNotExist, d)
      else (Inr (), d\<lparr>dk_names := AList.delete name (dk_names d)\<rparr>))"

definition os_ReadDir :: "(disk, string list) io" where
  "os_ReadDir d = (Inr (sort (remdups (map fst (dk_names d)))), d)"

definition os_Write :: "fd \<Rightarrow> byte list \<Rightarrow> (disk, unit) io" where
  "os_Write f p d = (Inr (), d\<lparr>dk_data := (dk_data d)(f := dk_data d f @ p)\<rparr>)"

definition os_ReadAt :: "fd \<Rightarrow> nat \<Rightarrow> nat \<Rightarrow> disk \<Rightarrow> (byte list \<times> goerr option) \<times> disk" where
  "os_ReadAt f n off d =
     (let bs = take n (drop off (dk_data d f))
      in ((bs, if length bs < n then Some ErrEOF else None), d))"

definition os_Sync :: "fd \<Rightarrow> (disk, unit) io" where
  "os_Sync f d = (Inr (), d\<lparr>dk_safe := (dk_safe d)(f := dk_data d f)\<rparr>)"

definition os_Truncate :: "fd \<Rightarrow> nat \<Rightarrow> (disk, unit) io" where
  "os_Truncate f sz d =
     (Inr (), d\<lparr>dk_data := (dk_data d)(f := read_buf sz (dk_data d f))\<rparr>)"

definition os_Close :: "fd \<Rightarrow> (disk, unit) io" where
  "os_Close f d = (Inr (), d)"

definition os_Size :: "fd \<Rightarrow> (disk, nat) io" where
  "os_Size f d = (Inr (length (dk_data d f)), d)"

definition os_ops :: "disk vfs_ops" where
  "os_ops =
     \<lparr>v_Open = os_Open, v_Create = os_Create, v_OpenAppend = os_OpenAppend, v_Rename = os_Rename,
      v_SyncDir = os_SyncDir, v_Remove = os_Remove, v_ReadDir = os_ReadDir, f_Write = os_Write,
      f_ReadAt = os_ReadAt, f_Sync = os_Sync, f_Truncate = os_Truncate, f_Close = os_Close, f_Size = os_Size\<rparr>"

lemma os_ops_sel [simp]:
  "v_Open os_ops = os_Open" "v_Create os_ops = os_Create" "v_OpenAppend os_ops = os_OpenAppend"
  "v_Rename os_ops = os_Rename" "v_SyncDir os_ops = os_SyncDir" "v_Remove os_ops = os_Remove"
  "v_ReadDir os_ops = os_ReadDir" "f_Write os_ops = os_Write" "f_ReadAt os_ops = os_ReadAt"
  "f_Sync os_ops = os_Sync" "f_Truncate os_ops = os_Truncate" "f_Close os_ops = os_Close"
  "f_Size os_ops = os_Size"
  by (simp_all add: os_ops_def)

lemmas os_defs = os_Open_def os_Create_def os_OpenAppend_def os_Rename_def os_SyncDir_def os_Remove_def
  os_ReadDir_def os_Write_def os_ReadAt_def os_Sync_def os_Truncate_def os_Close_def os_Size_def

definition empty_disk :: disk where
  "empty_disk = \<lparr>dk_names = [], dk_safe_names = [], dk_data = (\<lambda>_. []), dk_safe = (\<lambda>_. []), dk_next = 0\<rparr>"

text \<open>A crash: the page cache is lost.\<close>

definition crash :: "disk \<Rightarrow> disk" where
  "crash d = d\<lparr>dk_names := dk_safe_names d, dk_data := dk_safe d\<rparr>"

lemma io_ReadAt_os:
  "io_ReadAt os_ops f n off d =
     (if off + n \<le> length (dk_data d f) \<or> n = 0 then (Inr (take n (drop off (dk_data d f))), d) else (Inl ErrEOF, d))"
  by (auto simp: io_ReadAt_def os_ReadAt_def Let_def read_buf_def)

end
