(* ===== verification/File_Storage.thy ===== *)
theory File_Storage
  imports File_Vfs Raft_Storage
begin

text \<open>
  The durable store, \<^verbatim>\<open>pkg/storage/file\<close>: the log of segments (\<^verbatim>\<open>file.go\<close>, the scan of
  \<^verbatim>\<open>segment.go\<close>), the HardState file (\<^verbatim>\<open>hardstate.go\<close>) and the snapshot file (\<^verbatim>\<open>snapshot.go\<close>),
  over any file system \<open>vo\<close>. The mutex makes each method one step; a method that fails
  leaves the fields as the code leaves them at that point.
\<close>

record idxEntry =
  ie_index :: nat
  ie_term :: nat
  ie_segment :: string
  ie_offset :: nat
  ie_length :: nat

record 'v file_storage =
  fst_fs :: 'v
  fst_idx :: "idxEntry list"
  fst_active :: string
  fst_activeFile :: "fd option"
  fst_activeCount :: nat
  fst_max :: nat

text \<open>A file-system call made by a method of the store.\<close>

definition on_fs :: "('v, 'a) io \<Rightarrow> ('v file_storage, 'a) io" where
  "on_fs m s = (case m (fst_fs s) of (r, v) \<Rightarrow> (r, s\<lparr>fst_fs := v\<rparr>))"

section \<open>segment.go: the scan\<close>

record scanRec =
  sr_Term :: nat
  sr_Index :: nat
  sr_DataLen :: nat
  sr_Offset :: nat

text \<open>
  The loop over the records; \<open>recs\<close> and \<open>goodEnd\<close> are what the records before \<open>off\<close> gave. Any
  failing read ends the loop, as does a record that does not decode.
\<close>

function (sequential) scanLoop ::
  "'v vfs_ops \<Rightarrow> fd \<Rightarrow> nat \<Rightarrow> nat \<Rightarrow> scanRec list \<Rightarrow> nat \<Rightarrow> 'v \<Rightarrow> (scanRec list \<times> nat) \<times> 'v" where
  "scanLoop vo f sz off recs goodEnd v =
     (if off \<ge> sz then ((recs, goodEnd), v)
      else case io_ReadAt vo f recHeaderLen off v of
        (Inl _, v) \<Rightarrow> ((recs, goodEnd), v)
      | (Inr hdr, v) \<Rightarrow>
          let declaredLen = get_le (take 4 hdr);
              payloadOff = off + recHeaderLen
          in if payloadOff + declaredLen > sz then ((recs, goodEnd), v)
             else (case io_ReadAt vo f declaredLen payloadOff v of
                (Inl _, v) \<Rightarrow> ((recs, goodEnd), v)
              | (Inr payload, v) \<Rightarrow>
                  (case decodeRecord hdr payload of
                     Inl _ \<Rightarrow> ((recs, goodEnd), v)
                   | Inr e \<Rightarrow>
                       scanLoop vo f sz (payloadOff + declaredLen)
                         (recs @ [\<lparr>sr_Term = ent_Term e, sr_Index = ent_Index e,
                                   sr_DataLen = length (ent_Data e), sr_Offset = payloadOff\<rparr>])
                         (payloadOff + declaredLen) v)))"
  by pat_completeness auto

termination scanLoop
  by (relation "measure (\<lambda>(vo, f, sz, off, recs, goodEnd, v). sz - off)") (auto simp: recHeaderLen_def)

declare scanLoop.simps [simp del]

definition scanSegment :: "'v vfs_ops \<Rightarrow> fd \<Rightarrow> ('v, scanRec list \<times> nat) io" where
  "scanSegment vo f =
     io_bind (f_Size vo f) (\<lambda>sz.
     io_bind (io_wrap ''file storage: read segment header'' (io_ReadAt vo f segHeaderLen 0)) (\<lambda>shdr.
       case readSegHeader shdr of
         Some e \<Rightarrow> io_err e
       | None \<Rightarrow> (\<lambda>v. case scanLoop vo f sz segHeaderLen [] segHeaderLen v of (r, v) \<Rightarrow> (Inr r, v))))"

section \<open>file.go: opening and recovery\<close>

definition scanOne :: "'v vfs_ops \<Rightarrow> string \<Rightarrow> ('v file_storage, scanRec list \<times> nat) io" where
  "scanOne vo name =
     io_bind (io_wrap ''file storage: open segment'' (on_fs (v_OpenAppend vo name))) (\<lambda>f.
     io_defer
       (io_bind (io_wrap ''file storage: stat segment'' (on_fs (f_Size vo f))) (\<lambda>sz.
        io_bind (io_wrap ''file storage: scan segment'' (on_fs (scanSegment vo f))) (\<lambda>(recs, goodEnd).
          if goodEnd < sz then
            io_bind (io_wrap ''file storage: truncate torn tail'' (on_fs (f_Truncate vo f goodEnd))) (\<lambda>_.
            io_bind (io_wrap ''file storage: sync truncated'' (on_fs (f_Sync vo f))) (\<lambda>_.
            io_bind (io_wrap ''file storage: syncdir after truncate'' (on_fs (v_SyncDir vo))) (\<lambda>_.
            io_ret (recs, goodEnd))))
          else io_ret (recs, goodEnd))))
       (on_fs (f_Close vo f)))"

definition idx_of_scan :: "string \<Rightarrow> scanRec \<Rightarrow> idxEntry" where
  "idx_of_scan name r =
     \<lparr>ie_index = sr_Index r, ie_term = sr_Term r, ie_segment = name, ie_offset = sr_Offset r,
      ie_length = payloadFixedLen + sr_DataLen r\<rparr>"

fun recoverSegs :: "'v vfs_ops \<Rightarrow> string list \<Rightarrow> ('v file_storage, unit) io" where
  "recoverSegs vo [] = io_ret ()"
| "recoverSegs vo (name # names) =
     io_bind (scanOne vo name) (\<lambda>(recs, goodEnd) s.
       recoverSegs vo names
         (s\<lparr>fst_idx := fst_idx s @ map (idx_of_scan name) recs, fst_active := name,
            fst_activeCount := length recs\<rparr>))"

definition has_suffix :: "string \<Rightarrow> string \<Rightarrow> bool" where
  "has_suffix suf s = (length suf \<le> length s \<and> drop (length s - length suf) s = suf)"

definition recover :: "'v vfs_ops \<Rightarrow> ('v file_storage, unit) io" where
  "recover vo =
     io_bind (io_wrap ''file storage: readdir'' (on_fs (v_ReadDir vo))) (\<lambda>names.
     io_bind (recoverSegs vo (filter (has_suffix segSuffix) names)) (\<lambda>_ s.
       if fst_active s \<noteq> '''' then
         (case io_wrap ''file storage: reopen active segment'' (on_fs (v_OpenAppend vo (fst_active s))) s of
            (Inl e, s) \<Rightarrow> (Inl e, s)
          | (Inr f, s) \<Rightarrow> (Inr (), s\<lparr>fst_activeFile := Some f\<rparr>))
       else (Inr (), s)))"

text \<open>\<^verbatim>\<open>openWith\<close>; the directory is taken to exist.\<close>

definition openWith :: "'v vfs_ops \<Rightarrow> 'v \<Rightarrow> goerr + 'v file_storage" where
  "openWith vo v =
     (case recover vo \<lparr>fst_fs = v, fst_idx = [], fst_active = '''', fst_activeFile = None,
                       fst_activeCount = 0, fst_max = defaultMaxEntriesPerSegment\<rparr> of
        (Inl e, s) \<Rightarrow> Inl e
      | (Inr _, s) \<Rightarrow> Inr s)"

definition file_Close :: "'v vfs_ops \<Rightarrow> ('v file_storage, unit) io" where
  "file_Close vo s =
     (case fst_activeFile s of
        None \<Rightarrow> (Inr (), s)
      | Some f \<Rightarrow>
          (case io_both (on_fs (f_Sync vo f)) (on_fs (f_Close vo f)) s of
             (r, s) \<Rightarrow> (r, s\<lparr>fst_activeFile := None\<rparr>)))"

definition file_Snapshot :: "'v file_storage \<Rightarrow> goerr + (byte list \<times> nat)" where
  "file_Snapshot s = Inl ErrSnapshotUnsupported"

definition file_Restore :: "'v file_storage \<Rightarrow> byte list \<Rightarrow> goerr option \<times> 'v file_storage" where
  "file_Restore s data = (Some ErrSnapshotUnsupported, s)"

section \<open>file.go: writing\<close>

definition errNonContiguous :: goerr where
  "errNonContiguous = ErrNonContiguous"

definition lastIndexLocked :: "'v file_storage \<Rightarrow> nat" where
  "lastIndexLocked s = (if fst_idx s = [] then 0 else ie_index (last (fst_idx s)))"

text \<open>The first statement of \<^verbatim>\<open>rolloverLocked\<close>: sync and close the current segment, if any.\<close>

definition closeOnRollover :: "'v vfs_ops \<Rightarrow> ('v file_storage, unit) io" where
  "closeOnRollover vo s =
     (case fst_activeFile s of
        None \<Rightarrow> (Inr (), s)
      | Some f \<Rightarrow>
          io_bind (io_wrap ''file storage: close segment on rollover''
                     (io_both (on_fs (f_Sync vo f)) (on_fs (f_Close vo f))))
            (\<lambda>_ s. (Inr (), s\<lparr>fst_activeFile := None\<rparr>)) s)"

definition rolloverLocked :: "'v vfs_ops \<Rightarrow> nat \<Rightarrow> ('v file_storage, unit) io" where
  "rolloverLocked vo firstIndex =
     io_bind (closeOnRollover vo) (\<lambda>_.
     let name = segmentName firstIndex in
     io_bind (io_wrap ''file storage: create segment'' (on_fs (v_Create vo name))) (\<lambda>f.
     io_bind (io_join ''file storage: write segment header'' (on_fs (f_Write vo f writeSegHeader))
                (on_fs (f_Close vo f))) (\<lambda>_.
     io_bind (io_join ''file storage: syncdir after create'' (on_fs (v_SyncDir vo)) (on_fs (f_Close vo f))) (\<lambda>_ s.
       (Inr (), s\<lparr>fst_active := name, fst_activeFile := Some f, fst_activeCount := 0\<rparr>)))))"

text \<open>\<open>f\<close> is the active file, which the caller guarantees to be open.\<close>

definition writeRecordLocked :: "'v vfs_ops \<Rightarrow> fd \<Rightarrow> entry \<Rightarrow> ('v file_storage, nat) io" where
  "writeRecordLocked vo f e =
     io_bind (io_wrap ''file storage: size before write'' (on_fs (f_Size vo f))) (\<lambda>sz.
     io_bind (io_wrap ''file storage: write record''
                (io_bind (on_fs (f_Write vo f (encodeRecord e ! 0))) (\<lambda>_.
                   on_fs (f_Write vo f (encodeRecord e ! 1))))) (\<lambda>_.
     io_ret (sz + recHeaderLen)))"

text \<open>One turn of the loop of \<^verbatim>\<open>Append\<close>; a nil active file after a rollover cannot happen.\<close>

definition appendOne :: "'v vfs_ops \<Rightarrow> entry \<Rightarrow> ('v file_storage, idxEntry) io" where
  "appendOne vo e =
     io_bind (\<lambda>s. if fst_activeFile s = None \<or> fst_activeCount s \<ge> fst_max s
                  then rolloverLocked vo (ent_Index e) s else (Inr (), s)) (\<lambda>_ s.
       case fst_activeFile s of
         None \<Rightarrow> (Inl ErrPanic, s)
       | Some f \<Rightarrow>
           io_bind (writeRecordLocked vo f e) (\<lambda>off s.
             (Inr \<lparr>ie_index = ent_Index e, ie_term = ent_Term e, ie_segment = fst_active s,
                   ie_offset = off, ie_length = payloadFixedLen + length (ent_Data e)\<rparr>,
              s\<lparr>fst_activeCount := fst_activeCount s + 1\<rparr>)) s)"

fun appendAll :: "'v vfs_ops \<Rightarrow> entry list \<Rightarrow> ('v file_storage, idxEntry list) io" where
  "appendAll vo [] = io_ret []"
| "appendAll vo (e # es) =
     io_bind (appendOne vo e) (\<lambda>ie. io_bind (appendAll vo es) (\<lambda>ies. io_ret (ie # ies)))"

definition file_Append_io :: "'v vfs_ops \<Rightarrow> entry list \<Rightarrow> ('v file_storage, unit) io" where
  "file_Append_io vo entries s =
     (case entries of
        [] \<Rightarrow> (Inr (), s)
      | e # _ \<Rightarrow>
          if ent_Index e \<noteq> u64_succ (lastIndexLocked s)
          then (Inl (Wrapped ''file storage: append at index'' errNonContiguous), s)
          else if \<not> batch_contiguous entries
          then (Inl (Wrapped ''file storage: append at index'' errNonContiguous), s)
          else
            io_bind (appendAll vo entries) (\<lambda>staged s.
              case fst_activeFile s of
                None \<Rightarrow> (Inl ErrPanic, s)
              | Some f \<Rightarrow>
                  io_bind (io_wrap ''file storage: sync on append'' (on_fs (f_Sync vo f)))
                    (\<lambda>_ s. (Inr (), s\<lparr>fst_idx := fst_idx s @ staged\<rparr>)) s) s)"

fun removeSegs :: "'v vfs_ops \<Rightarrow> fd \<Rightarrow> string list \<Rightarrow> ('v file_storage, unit) io" where
  "removeSegs vo tf [] = io_ret ()"
| "removeSegs vo tf (name # names) =
     io_bind (io_join ''file storage: remove segment on truncate'' (on_fs (v_Remove vo name)) (on_fs (f_Close vo tf)))
       (\<lambda>_. removeSegs vo tf names)"

text \<open>The distinct elements in the order of their first occurrence.\<close>

definition firsts :: "'a list \<Rightarrow> 'a list" where
  "firsts xs = rev (remdups (rev xs))"

text \<open>
  The part of \<^verbatim>\<open>TruncateSuffix\<close> that touches the file system: cut the segment \<open>seg\<close> of the entry at
  position \<open>pos\<close>, remove the later segments, and make the cut segment the active one.
\<close>

definition truncateFrom :: "'v vfs_ops \<Rightarrow> nat \<Rightarrow> string \<Rightarrow> nat \<Rightarrow> string list \<Rightarrow> ('v file_storage, unit) io" where
  "truncateFrom vo pos seg cutAt laterSegs =
     io_bind (io_wrap ''file storage: open segment for truncate'' (on_fs (v_OpenAppend vo seg))) (\<lambda>tf.
     io_bind (io_join ''file storage: truncate'' (on_fs (f_Truncate vo tf cutAt)) (on_fs (f_Close vo tf))) (\<lambda>_.
     io_bind (io_join ''file storage: sync truncated'' (on_fs (f_Sync vo tf)) (on_fs (f_Close vo tf))) (\<lambda>_.
     io_bind (\<lambda>s. case fst_activeFile s of
          None \<Rightarrow> (Inr (), s)
        | Some f \<Rightarrow>
            io_bind (io_join ''file storage: close active on truncate'' (on_fs (f_Close vo f)) (on_fs (f_Close vo tf)))
              (\<lambda>_ s. (Inr (), s\<lparr>fst_activeFile := None\<rparr>)) s) (\<lambda>_.
     io_bind (removeSegs vo tf laterSegs) (\<lambda>_.
     io_bind (io_join ''file storage: syncdir after truncate'' (on_fs (v_SyncDir vo)) (on_fs (f_Close vo tf))) (\<lambda>_ s.
       (Inr (),
        s\<lparr>fst_idx := take pos (fst_idx s), fst_active := seg, fst_activeFile := Some tf,
          fst_activeCount := length (filter (\<lambda>ie. ie_segment ie = seg) (take pos (fst_idx s)))\<rparr>)))))))"

definition file_TruncateSuffix_io :: "'v vfs_ops \<Rightarrow> nat \<Rightarrow> ('v file_storage, unit) io" where
  "file_TruncateSuffix_io vo from s =
     (if from > lastIndexLocked s then (Inr (), s)
      else if from < 1 then (Inl (ErrOther ''file storage: truncate at invalid index''), s)
      else if from - 1 \<ge> length (fst_idx s) then (Inl ErrPanic, s)
      else
        let pos = from - 1;
            target = fst_idx s ! pos
        in truncateFrom vo pos (ie_segment target) (ie_offset target - recHeaderLen)
             (firsts (filter (\<lambda>n. n \<noteq> ie_segment target) (map ie_segment (drop pos (fst_idx s))))) s)"

section \<open>file.go: reading\<close>

definition file_LastIndex :: "'v file_storage \<Rightarrow> goerr + nat" where
  "file_LastIndex s = Inr (lastIndexLocked s)"

definition file_FirstIndex :: "'v file_storage \<Rightarrow> goerr + nat" where
  "file_FirstIndex s = Inr 1"

definition file_Term :: "'v file_storage \<Rightarrow> nat \<Rightarrow> goerr + nat" where
  "file_Term s index =
     (if index = 0 then Inr 0
      else if index > lastIndexLocked s then Inl (Wrapped ''file storage: term'' ErrUnexpectedEOF)
      else if index - 1 \<ge> length (fst_idx s) then Inl ErrPanic
      else Inr (ie_term (fst_idx s ! (index - 1))))"

definition readEntryLocked :: "'v vfs_ops \<Rightarrow> idxEntry \<Rightarrow> ('v, entry) io" where
  "readEntryLocked vo ie =
     io_bind (io_wrap ''file storage: open segment for read'' (v_Open vo (ie_segment ie))) (\<lambda>f.
     io_defer_quiet
       (io_bind (io_wrap ''file storage: read header'' (io_ReadAt vo f recHeaderLen (ie_offset ie - recHeaderLen))) (\<lambda>hdr.
        io_bind (io_wrap ''file storage: read entry'' (io_ReadAt vo f (ie_length ie) (ie_offset ie))) (\<lambda>payload.
          case decodeRecord hdr payload of
            Inl e \<Rightarrow> io_err (Wrapped ''file storage: decode entry'' e)
          | Inr e \<Rightarrow> io_ret e)))
       (f_Close vo f))"

text \<open>The read loop from \<open>i\<close>; a read does not change the store.\<close>

fun readEntries :: "'v vfs_ops \<Rightarrow> idxEntry list \<Rightarrow> ('v, entry list) io" where
  "readEntries vo [] = io_ret []"
| "readEntries vo (ie # ies) =
     io_bind (readEntryLocked vo ie) (\<lambda>e. io_bind (readEntries vo ies) (\<lambda>es. io_ret (e # es)))"

definition file_Entries :: "'v vfs_ops \<Rightarrow> 'v file_storage \<Rightarrow> nat \<Rightarrow> nat \<Rightarrow> goerr + entry list" where
  "file_Entries vo s lo hi =
     (let lst = lastIndexLocked s in
      if lo < 1 \<or> lo > hi then Inl ErrInvalidRange
      else if hi > u64_succ lst then Inl (Wrapped ''file storage: hi > LastIndex+1'' ErrUnexpectedEOF)
      else if lo = hi then Inr []
      else if hi - 1 > length (fst_idx s) then Inl ErrPanic
      else fst (readEntries vo (take (hi - lo) (drop (lo - 1) (fst_idx s))) (fst_fs s)))"

section \<open>hardstate.go and snapshot.go: the files\<close>

definition hardStateFile :: string where "hardStateFile = ''hardstate''"
definition hardStateTmpFile :: string where "hardStateTmpFile = ''hardstate.tmp''"
definition snapshotFile :: string where "snapshotFile = ''snapshot''"
definition snapshotTmpFile :: string where "snapshotTmpFile = ''snapshot.tmp''"

definition file_SaveHardState_io :: "'v vfs_ops \<Rightarrow> hardstate \<Rightarrow> ('v, unit) io" where
  "file_SaveHardState_io vo hs =
     io_bind (io_wrap ''file storage: create hardstate tmp'' (v_Create vo hardStateTmpFile)) (\<lambda>f.
     io_bind (io_join ''file storage: write hardstate tmp'' (f_Write vo f (encodeHardState hs)) (f_Close vo f)) (\<lambda>_.
     io_bind (io_join ''file storage: sync hardstate tmp'' (f_Sync vo f) (f_Close vo f)) (\<lambda>_.
     io_bind (io_wrap ''file storage: close hardstate tmp'' (f_Close vo f)) (\<lambda>_.
     io_bind (io_wrap ''file storage: rename hardstate into place'' (v_Rename vo hardStateTmpFile hardStateFile)) (\<lambda>_.
     io_wrap ''file storage: syncdir after hardstate rename'' (v_SyncDir vo))))))"

definition readAllAt :: "'v vfs_ops \<Rightarrow> fd \<Rightarrow> ('v, byte list) io" where
  "readAllAt vo f =
     io_bind (f_Size vo f) (\<lambda>sz v.
       case f_ReadAt vo f sz 0 v of
         ((bs, err), v) \<Rightarrow>
           (case err of
              None \<Rightarrow> (Inr (read_buf sz bs), v)
            | Some e \<Rightarrow> if errors_Is e ErrEOF then (Inr (read_buf sz bs), v) else (Inl e, v)))"

definition file_LoadHardState_io :: "'v vfs_ops \<Rightarrow> ('v, hardstate) io" where
  "file_LoadHardState_io vo v =
     (case v_Open vo hardStateFile v of
        (Inl e, v) \<Rightarrow>
          if errors_Is e ErrNotExist then (Inr zero_hardstate, v)
          else (Inl (Wrapped ''file storage: open hardstate'' e), v)
      | (Inr f, v) \<Rightarrow>
          io_defer_quiet
            (io_bind (io_wrap ''file storage: read hardstate'' (readAllAt vo f)) (\<lambda>b.
               case decodeHardState b of
                 Inl e \<Rightarrow> io_err (Wrapped ''file storage: decode hardstate'' e)
               | Inr hs \<Rightarrow> io_ret hs))
            (f_Close vo f) v)"

definition file_SaveSnapshot_io :: "'v vfs_ops \<Rightarrow> snapshot \<Rightarrow> ('v, unit) io" where
  "file_SaveSnapshot_io vo snap =
     io_bind (io_wrap ''file storage: create snapshot tmp'' (v_Create vo snapshotTmpFile)) (\<lambda>f.
     io_bind (io_join ''file storage: write snapshot tmp'' (f_Write vo f (encodeSnapshot snap)) (f_Close vo f)) (\<lambda>_.
     io_bind (io_join ''file storage: sync snapshot tmp'' (f_Sync vo f) (f_Close vo f)) (\<lambda>_.
     io_bind (io_wrap ''file storage: close snapshot tmp'' (f_Close vo f)) (\<lambda>_.
     io_bind (io_wrap ''file storage: rename snapshot into place'' (v_Rename vo snapshotTmpFile snapshotFile)) (\<lambda>_.
     io_wrap ''file storage: syncdir after snapshot rename'' (v_SyncDir vo))))))"

definition file_LoadSnapshot_io :: "'v vfs_ops \<Rightarrow> ('v, snapshot) io" where
  "file_LoadSnapshot_io vo v =
     (case v_Open vo snapshotFile v of
        (Inl e, v) \<Rightarrow>
          if errors_Is e ErrNotExist then (Inr zero_snapshot, v)
          else (Inl (Wrapped ''file storage: open snapshot'' e), v)
      | (Inr f, v) \<Rightarrow>
          io_defer_quiet
            (io_bind (io_wrap ''file storage: read snapshot'' (readAllAt vo f)) (\<lambda>b.
               case decodeSnapshot b of
                 Inl e \<Rightarrow> io_err (Wrapped ''file storage: decode snapshot'' e)
               | Inr s \<Rightarrow> io_ret s))
            (f_Close vo f) v)"

section \<open>The method table\<close>

definition io_result :: "(goerr + unit) \<times> 's \<Rightarrow> goerr option \<times> 's" where
  "io_result r = (case r of (Inl e, s) \<Rightarrow> (Some e, s) | (Inr _, s) \<Rightarrow> (None, s))"

definition file_Append :: "'v vfs_ops \<Rightarrow> 'v file_storage \<Rightarrow> entry list \<Rightarrow> goerr option \<times> 'v file_storage" where
  "file_Append vo s entries = io_result (file_Append_io vo entries s)"

definition file_TruncateSuffix :: "'v vfs_ops \<Rightarrow> 'v file_storage \<Rightarrow> nat \<Rightarrow> goerr option \<times> 'v file_storage" where
  "file_TruncateSuffix vo s from = io_result (file_TruncateSuffix_io vo from s)"

definition file_SaveHardState :: "'v vfs_ops \<Rightarrow> 'v file_storage \<Rightarrow> hardstate \<Rightarrow> goerr option \<times> 'v file_storage" where
  "file_SaveHardState vo s hs = io_result (on_fs (file_SaveHardState_io vo hs) s)"

definition file_LoadHardState :: "'v vfs_ops \<Rightarrow> 'v file_storage \<Rightarrow> goerr + hardstate" where
  "file_LoadHardState vo s = fst (file_LoadHardState_io vo (fst_fs s))"

definition file_SaveSnapshot :: "'v vfs_ops \<Rightarrow> 'v file_storage \<Rightarrow> snapshot \<Rightarrow> goerr option \<times> 'v file_storage" where
  "file_SaveSnapshot vo s snap = io_result (on_fs (file_SaveSnapshot_io vo snap) s)"

definition file_LoadSnapshot :: "'v vfs_ops \<Rightarrow> 'v file_storage \<Rightarrow> goerr + snapshot" where
  "file_LoadSnapshot vo s = fst (file_LoadSnapshot_io vo (fst_fs s))"

definition file_ops :: "'v vfs_ops \<Rightarrow> 'v file_storage storage_ops" where
  "file_ops vo =
     \<lparr>op_Append = file_Append vo, op_TruncateSuffix = file_TruncateSuffix vo,
      op_Entries = file_Entries vo, op_Term = file_Term, op_FirstIndex = file_FirstIndex,
      op_LastIndex = file_LastIndex, op_SaveHardState = file_SaveHardState vo,
      op_LoadHardState = file_LoadHardState vo, op_Snapshot = file_Snapshot,
      op_Restore = file_Restore, op_SaveSnapshot = file_SaveSnapshot vo,
      op_LoadSnapshot = file_LoadSnapshot vo\<rparr>"

lemma file_ops_sel [simp]:
  "op_Append (file_ops vo) = file_Append vo" "op_TruncateSuffix (file_ops vo) = file_TruncateSuffix vo"
  "op_Entries (file_ops vo) = file_Entries vo" "op_Term (file_ops vo) = file_Term"
  "op_FirstIndex (file_ops vo) = file_FirstIndex" "op_LastIndex (file_ops vo) = file_LastIndex"
  "op_SaveHardState (file_ops vo) = file_SaveHardState vo" "op_LoadHardState (file_ops vo) = file_LoadHardState vo"
  "op_Snapshot (file_ops vo) = file_Snapshot" "op_Restore (file_ops vo) = file_Restore"
  "op_SaveSnapshot (file_ops vo) = file_SaveSnapshot vo" "op_LoadSnapshot (file_ops vo) = file_LoadSnapshot vo"
  by (simp_all add: file_ops_def)

end
