(* ===== verification/File_Segments.thy ===== *)
theory File_Segments
  imports File_Storage
begin

text \<open>
  The layout of a log on disk: names of segments sort in index order, the scan of a segment
  finds exactly the records written to it and stops at a torn tail, and a record read back
  through its index entry is the entry written.
\<close>

section \<open>Segment names\<close>

text \<open>A number below \<open>10 ^ k\<close> written with exactly \<open>k\<close> digits.\<close>

primrec dec_fixed :: "nat \<Rightarrow> nat \<Rightarrow> string" where
  "dec_fixed 0 n = []"
| "dec_fixed (Suc k) n = dec_fixed k (n div 10) @ [char_of (48 + n mod 10)]"

lemma length_dec_fixed [simp]: "length (dec_fixed k n) = k"
  by (induction k arbitrary: n) auto

lemma dec_fixed_0: "dec_fixed k 0 = replicate k CHR ''0''"
proof (induction k)
  case (Suc k)
  have "char_of (48 :: nat) = CHR ''0''" by code_simp
  with Suc show ?case by (simp add: replicate_append_same)
qed simp

lemma dec_digits_fixed: "n < 10 ^ k \<Longrightarrow> 0 < k \<Longrightarrow>
  replicate (k - length (dec_digits n)) CHR ''0'' @ dec_digits n = dec_fixed k n \<and> length (dec_digits n) \<le> k"
proof (induction k arbitrary: n)
  case (Suc k)
  show ?case
  proof (cases "n < 10")
    case True
    then show ?thesis by (simp add: dec_digits.simps [of n] dec_fixed_0)
  next
    case False
    then have k: "0 < k" using Suc.prems by (cases k) auto
    have lt: "n div 10 < 10 ^ k" using Suc.prems(1) by (simp add: div_less_iff_less_mult mult.commute)
    from Suc.IH [OF lt k] False show ?thesis by (simp add: dec_digits.simps [of n])
  qed
qed simp

lemma less_append_same_length:
  fixes xs ys :: "'a::linorder list"
  shows "length xs = length ys \<Longrightarrow> xs < ys \<Longrightarrow> xs @ us < ys @ vs"
  by (induction xs ys rule: list_induct2) auto

lemma less_append_prefix:
  fixes us vs :: "'a::linorder list"
  shows "us < vs \<Longrightarrow> xs @ us < xs @ vs"
  by (induction xs) auto

lemma char_of_digit_less: "a < b \<Longrightarrow> b < 10 \<Longrightarrow> char_of (48 + a) < (char_of (48 + b) :: char)" for a b :: nat
  by (simp add: less_char_def)

lemma dec_fixed_less: "m < n \<Longrightarrow> n < 10 ^ k \<Longrightarrow> dec_fixed k m < dec_fixed k n"
proof (induction k arbitrary: m n)
  case (Suc k)
  show ?case
  proof (cases "m div 10 = n div 10")
    case True
    have "10 * (n div 10) + n mod 10 = n" "10 * (m div 10) + m mod 10 = m" by simp_all
    then have "m mod 10 < n mod 10" using Suc.prems(1) True by linarith
    then have "[char_of (48 + m mod 10)] < [char_of (48 + n mod 10) :: char]"
      using char_of_digit_less [of "m mod 10" "n mod 10"] by simp
    with True show ?thesis by (simp add: less_append_prefix)
  next
    case False
    have "m div 10 < n div 10" using False Suc.prems(1) div_le_mono [of m n 10] by simp
    moreover have "n div 10 < 10 ^ k" using Suc.prems(2) by (simp add: div_less_iff_less_mult mult.commute)
    ultimately have "dec_fixed k (m div 10) < dec_fixed k (n div 10)" by (rule Suc.IH)
    then show ?thesis by (simp add: less_append_same_length)
  qed
qed simp

abbreviation name_limit :: nat where
  "name_limit \<equiv> 10000000000000000"

lemma segmentName_fixed: "n < name_limit \<Longrightarrow> segmentName n = dec_fixed 16 n @ segSuffix"
  using dec_digits_fixed [of n 16] by (simp add: segmentName_def Let_def)

lemma segmentName_less: "m < n \<Longrightarrow> n < name_limit \<Longrightarrow> segmentName m < segmentName n"
  using dec_fixed_less [of m n 16] by (simp add: segmentName_fixed less_append_same_length)

lemma segmentName_suffix: "n < name_limit \<Longrightarrow> has_suffix segSuffix (segmentName n)"
  by (simp add: segmentName_fixed has_suffix_def)

lemma state_file_suffix [simp]:
  "\<not> has_suffix segSuffix hardStateFile" "\<not> has_suffix segSuffix hardStateTmpFile"
  "\<not> has_suffix segSuffix snapshotFile" "\<not> has_suffix segSuffix snapshotTmpFile"
  by (simp_all add: has_suffix_def segSuffix_def hardStateFile_def hardStateTmpFile_def snapshotFile_def
        snapshotTmpFile_def)

lemma segmentName_state_file:
  "n < name_limit \<Longrightarrow> segmentName n \<noteq> hardStateFile \<and> segmentName n \<noteq> hardStateTmpFile \<and>
     segmentName n \<noteq> snapshotFile \<and> segmentName n \<noteq> snapshotTmpFile \<and> segmentName n \<noteq> ''''"
proof -
  assume "n < name_limit"
  then have "has_suffix segSuffix (segmentName n)" by (rule segmentName_suffix)
  moreover have "\<not> has_suffix segSuffix ''''" by (simp add: has_suffix_def segSuffix_def)
  ultimately show ?thesis using state_file_suffix by metis
qed

section \<open>The bytes of a segment\<close>

definition rec_bytes :: "entry \<Rightarrow> byte list" where
  "rec_bytes e = record_header (record_payload e) @ record_payload e"

definition seg_bytes :: "entry list \<Rightarrow> byte list" where
  "seg_bytes es = writeSegHeader @ concat (map rec_bytes es)"

lemma encodeRecord_writes: "encodeRecord e ! 0 @ encodeRecord e ! 1 = rec_bytes e"
  by (simp add: encodeRecord_def rec_bytes_def)

lemma length_record_payload [simp]: "length (record_payload e) = 16 + length (ent_Data e)"
  by (simp add: record_payload_def)

lemma length_record_header [simp]: "length (record_header p) = 8"
  by (simp add: record_header_def)

lemma length_rec_bytes [simp]: "length (rec_bytes e) = 24 + length (ent_Data e)"
  by (simp add: rec_bytes_def)

lemma length_writeSegHeader [simp]: "length writeSegHeader = segHeaderLen"
  by (simp add: writeSegHeader_def segMagic_def segHeaderLen_def)

lemma readSegHeader_write: "readSegHeader writeSegHeader = None"
  by (simp add: readSegHeader_def writeSegHeader_def segMagic_def segHeaderLen_def)

lemma record_header_len: "entry_fits e \<Longrightarrow> get_le (take 4 (record_header (record_payload e))) = 16 + length (ent_Data e)"
  by (simp add: record_header_def entry_fits_def)

text \<open>The index entries and the scan results of records that start at byte \<open>off\<close>.\<close>

fun seg_idx :: "string \<Rightarrow> nat \<Rightarrow> entry list \<Rightarrow> idxEntry list" where
  "seg_idx name off [] = []"
| "seg_idx name off (e # es) =
     \<lparr>ie_index = ent_Index e, ie_term = ent_Term e, ie_segment = name, ie_offset = off + 8,
      ie_length = 16 + length (ent_Data e)\<rparr> # seg_idx name (off + length (rec_bytes e)) es"

fun seg_recs :: "nat \<Rightarrow> entry list \<Rightarrow> scanRec list" where
  "seg_recs off [] = []"
| "seg_recs off (e # es) =
     \<lparr>sr_Term = ent_Term e, sr_Index = ent_Index e, sr_DataLen = length (ent_Data e), sr_Offset = off + 8\<rparr> #
     seg_recs (off + length (rec_bytes e)) es"

lemma seg_recs_idx: "map (idx_of_scan name) (seg_recs off es) = seg_idx name off es"
  by (induction off es rule: seg_recs.induct) (simp_all add: idx_of_scan_def payloadFixedLen_def)

lemma length_seg_recs [simp]: "length (seg_recs off es) = length es"
  by (induction off es rule: seg_recs.induct) simp_all

lemma length_seg_idx [simp]: "length (seg_idx name off es) = length es"
  by (induction name off es rule: seg_idx.induct) simp_all

lemma seg_idx_append:
  "seg_idx name off (xs @ ys) = seg_idx name off xs @ seg_idx name (off + length (concat (map rec_bytes xs))) ys"
  by (induction name off xs rule: seg_idx.induct) (simp_all add: add.assoc)

lemma seg_idx_sel:
  "map ie_index (seg_idx name off es) = map ent_Index es" "map ie_term (seg_idx name off es) = map ent_Term es"
  "map ie_segment (seg_idx name off es) = replicate (length es) name"
  by (induction name off es rule: seg_idx.induct) simp_all

section \<open>Scanning\<close>

text \<open>
  Bytes that hold no whole record at their start: the end of the file, a record cut off, or
  one whose checksum does not match.
\<close>

definition torn :: "byte list \<Rightarrow> bool" where
  "torn t \<longleftrightarrow> length t < 8 \<or> length t < 8 + get_le (take 4 t) \<or>
     (\<exists>err. decodeRecord (take 8 t) (take (get_le (take 4 t)) (drop 8 t)) = Inl err)"

lemma torn_prefix: "entry_fits e \<Longrightarrow> k < length (rec_bytes e) \<Longrightarrow> torn (take k (rec_bytes e))"
  using record_header_len [of e] by (cases "k < 8") (auto simp: torn_def rec_bytes_def take_Cons' min_def)

lemma scanLoop_torn:
  assumes "dk_data d f = pre @ t" and "torn t"
  shows "scanLoop os_ops f (length (dk_data d f)) (length pre) recs good d = ((recs, good), d)"
  using assms
  by (subst scanLoop.simps) (auto simp: torn_def io_ReadAt_os recHeaderLen_def Let_def split: sum.split)

lemma scanLoop_records:
  assumes "dk_data d f = pre @ concat (map rec_bytes es) @ t" and "\<forall>e \<in> set es. entry_fits e" and "torn t"
  shows "scanLoop os_ops f (length (dk_data d f)) (length pre) recs (length pre) d =
    ((recs @ seg_recs (length pre) es, length pre + length (concat (map rec_bytes es))), d)"
  using assms
proof (induction es arbitrary: pre recs)
  case Nil
  then show ?case using scanLoop_torn [of d f pre t recs "length pre"] by simp
next
  case (Cons e es)
  let ?p = "record_payload e" and ?rest = "concat (map rec_bytes es) @ t"
  have data: "dk_data d f = pre @ record_header ?p @ ?p @ ?rest"
    using Cons.prems(1) by (simp add: rec_bytes_def [of e])
  have fits: "entry_fits e" using Cons.prems(2) by simp
  note len = record_header_len [OF fits]
  have r1: "io_ReadAt os_ops f recHeaderLen (length pre) d = (Inr (record_header ?p), d)"
    by (simp add: io_ReadAt_os data recHeaderLen_def)
  have r2: "io_ReadAt os_ops f (16 + length (ent_Data e)) (length pre + 8) d = (Inr ?p, d)"
    by (simp add: io_ReadAt_os data)
  have "scanLoop os_ops f (length (dk_data d f)) (length pre) recs (length pre) d =
      scanLoop os_ops f (length (dk_data d f)) (length (pre @ rec_bytes e))
        (recs @ seg_recs (length pre) [e]) (length (pre @ rec_bytes e)) d"
    apply (subst scanLoop.simps)
    using r1 r2 len decode_encode_record [OF fits]
    by (simp add: data recHeaderLen_def Let_def add.assoc)
  also have "\<dots> = ((recs @ seg_recs (length pre) (e # es),
      length pre + length (concat (map rec_bytes (e # es)))), d)"
    using Cons.IH [of "pre @ rec_bytes e" "recs @ seg_recs (length pre) [e]"] Cons.prems
    by (simp add: add.assoc)
  finally show ?case .
qed

lemma scanSegment_records:
  assumes "dk_data d f = seg_bytes es @ t" and "\<forall>e \<in> set es. entry_fits e" and "torn t"
  shows "scanSegment os_ops f d = (Inr (seg_recs segHeaderLen es, length (seg_bytes es)), d)"
proof -
  have "io_ReadAt os_ops f segHeaderLen 0 d = (Inr writeSegHeader, d)"
    using assms(1) by (simp add: io_ReadAt_os seg_bytes_def)
  moreover have "scanLoop os_ops f (length (dk_data d f)) segHeaderLen [] segHeaderLen d =
      (([] @ seg_recs segHeaderLen es, segHeaderLen + length (concat (map rec_bytes es))), d)"
    using scanLoop_records [of d f writeSegHeader es t "[]"] assms by (simp add: seg_bytes_def)
  ultimately show ?thesis
    by (simp add: scanSegment_def io_bind_def io_wrap_def os_Size_def readSegHeader_write seg_bytes_def)
qed

section \<open>Reading one record back\<close>

lemma readEntry_record:
  assumes "map_of (dk_names d) name = Some f" and "dk_data d f = pre @ rec_bytes e @ post" and "entry_fits e"
    and "ie = \<lparr>ie_index = i, ie_term = tm, ie_segment = name, ie_offset = length pre + 8,
               ie_length = 16 + length (ent_Data e)\<rparr>"
  shows "readEntryLocked os_ops ie d = (Inr e, d)"
proof -
  have "io_ReadAt os_ops f recHeaderLen (length pre) d = (Inr (record_header (record_payload e)), d)"
    by (simp add: io_ReadAt_os assms(2) recHeaderLen_def rec_bytes_def)
  moreover have "io_ReadAt os_ops f (16 + length (ent_Data e)) (length pre + 8) d = (Inr (record_payload e), d)"
    by (simp add: io_ReadAt_os assms(2) rec_bytes_def)
  ultimately show ?thesis
    using assms(1) decode_encode_record [OF assms(3)]
    by (simp add: readEntryLocked_def assms(4) io_defs os_Open_def os_Close_def recHeaderLen_def)
qed

abbreviation reads_back :: "disk \<Rightarrow> idxEntry \<Rightarrow> entry \<Rightarrow> bool" where
  "reads_back d \<equiv> (\<lambda>ie e. readEntryLocked os_ops ie d = (Inr e, d))"

lemma readEntries_all: "list_all2 (reads_back d) ies es \<Longrightarrow> readEntries os_ops ies d = (Inr es, d)"
  by (induction rule: list_all2_induct) (simp_all add: io_bind_def io_ret_def)

lemma segment_reads_back:
  assumes "map_of (dk_names d) name = Some f" and "dk_data d f = pre @ concat (map rec_bytes es) @ post"
    and "\<forall>e \<in> set es. entry_fits e"
  shows "list_all2 (reads_back d) (seg_idx name (length pre) es) es"
  using assms(2,3)
proof (induction es arbitrary: pre)
  case (Cons e es)
  have "readEntryLocked os_ops (hd (seg_idx name (length pre) (e # es))) d = (Inr e, d)"
    using Cons.prems by (intro readEntry_record [OF assms(1), of pre e]) auto
  moreover have "list_all2 (reads_back d) (seg_idx name (length (pre @ rec_bytes e)) es) es"
    using Cons.prems by (intro Cons.IH) auto
  ultimately show ?case by simp
qed simp

end
