(* ===== verification/File_Disk.thy ===== *)
theory File_Disk
  imports File_Segments
begin

text \<open>
  A disk seen as a map from names to contents, and what the calls of \<^verbatim>\<open>osVFS\<close> do to that
  map. \<open>clean_but A\<close> says that everything is durable except the contents of the files
  named in \<open>A\<close>; on a disk with \<open>clean_but {}\<close> a crash loses nothing.
\<close>

definition files :: "disk \<Rightarrow> string \<Rightarrow> byte list option" where
  "files d n = map_option (dk_data d) (map_of (dk_names d) n)"

definition names_ok :: "disk \<Rightarrow> bool" where
  "names_ok d \<longleftrightarrow> (\<forall>n f. map_of (dk_names d) n = Some f \<longrightarrow>
     f < dk_next d \<and> (\<forall>n'. map_of (dk_names d) n' = Some f \<longrightarrow> n' = n))"

definition clean_but :: "string set \<Rightarrow> disk \<Rightarrow> bool" where
  "clean_but A d \<longleftrightarrow> names_ok d \<and> dk_safe_names d = dk_names d \<and>
     (\<forall>n f. n \<notin> A \<longrightarrow> map_of (dk_names d) n = Some f \<longrightarrow> dk_safe d f = dk_data d f)"

lemma clean_but_mono: "clean_but A d \<Longrightarrow> A \<subseteq> B \<Longrightarrow> clean_but B d"
  by (auto simp: clean_but_def)

lemma clean_but_names: "clean_but A d \<Longrightarrow> names_ok d"
  by (simp add: clean_but_def)

lemma names_ok_inj: "names_ok d \<Longrightarrow> map_of (dk_names d) n = Some f \<Longrightarrow> n' \<noteq> n \<Longrightarrow> map_of (dk_names d) n' \<noteq> Some f"
  by (auto simp: names_ok_def)

lemma names_okI:
  assumes "\<And>n f. map_of (dk_names d) n = Some f \<Longrightarrow> f < dk_next d"
    and "\<And>n n' f. map_of (dk_names d) n = Some f \<Longrightarrow> map_of (dk_names d) n' = Some f \<Longrightarrow> n' = n"
  shows "names_ok d"
  unfolding names_ok_def using assms by blast

lemma names_ok_same: "names_ok d \<Longrightarrow> map_of (dk_names d) n = Some f \<Longrightarrow> map_of (dk_names d) n' = Some f \<Longrightarrow> n' = n"
  unfolding names_ok_def by blast

lemma names_ok_bound: "names_ok d \<Longrightarrow> map_of (dk_names d) n = Some f \<Longrightarrow> f < dk_next d"
  unfolding names_ok_def by blast

lemma crash_clean: "clean_but {} d \<Longrightarrow> clean_but {} (crash d) \<and> files (crash d) = files d \<and>
  dk_names (crash d) = dk_names d"
  by (auto simp: clean_but_def crash_def files_def names_ok_def fun_eq_iff map_option_case split: option.split)

lemma clean_empty: "clean_but {} empty_disk"
  by (simp add: clean_but_def names_ok_def empty_disk_def)

lemma files_write:
  assumes "names_ok d" and "map_of (dk_names d) n = Some f"
  shows "files (d\<lparr>dk_data := (dk_data d)(f := b)\<rparr>) = (files d)(n \<mapsto> b)"
  using assms names_ok_inj [OF assms] by (auto simp: files_def fun_eq_iff map_option_case split: option.split)

lemma files_safe [simp]: "files (d\<lparr>dk_safe := x\<rparr>) = files d" "files (d\<lparr>dk_safe_names := y\<rparr>) = files d"
  by (simp_all add: files_def fun_eq_iff)

section \<open>Single calls\<close>

lemma os_Open_eq: "map_of (dk_names d) n = Some f \<Longrightarrow> os_Open n d = (Inr f, d)"
  by (simp add: os_Open_def)

lemma os_Open_none: "files d n = None \<Longrightarrow> os_Open n d = (Inl ErrNotExist, d)"
  by (simp add: os_Open_def files_def)

lemma os_Write_step:
  assumes "clean_but A d" and "map_of (dk_names d) n = Some f" and "files d n = Some b"
  obtains d' where "os_Write f p d = (Inr (), d')" "clean_but (insert n A) d'" "dk_names d' = dk_names d"
    "files d' = (files d)(n \<mapsto> b @ p)"
proof
  let ?d = "d\<lparr>dk_data := (dk_data d)(f := dk_data d f @ p)\<rparr>"
  show "os_Write f p d = (Inr (), ?d)" by (simp add: os_Write_def)
  show "clean_but (insert n A) ?d"
    using assms names_ok_inj [OF clean_but_names [OF assms(1)] assms(2)]
    by (auto simp: clean_but_def names_ok_def)
  show "files ?d = (files d)(n \<mapsto> b @ p)"
    using files_write [OF clean_but_names [OF assms(1)] assms(2)] assms(2,3) by (simp add: files_def)
qed simp

lemma os_Truncate_step:
  assumes "clean_but A d" and "map_of (dk_names d) n = Some f" and "files d n = Some b" and "k \<le> length b"
  obtains d' where "os_Truncate f k d = (Inr (), d')" "clean_but (insert n A) d'" "dk_names d' = dk_names d"
    "files d' = (files d)(n \<mapsto> take k b)"
proof
  let ?d = "d\<lparr>dk_data := (dk_data d)(f := read_buf k (dk_data d f))\<rparr>"
  show "os_Truncate f k d = (Inr (), ?d)" by (simp add: os_Truncate_def)
  show "clean_but (insert n A) ?d"
    using assms names_ok_inj [OF clean_but_names [OF assms(1)] assms(2)]
    by (auto simp: clean_but_def names_ok_def)
  show "files ?d = (files d)(n \<mapsto> take k b)"
    using files_write [OF clean_but_names [OF assms(1)] assms(2)] assms(2-4)
    by (simp add: files_def read_buf_def)
qed simp

lemma os_Sync_step:
  assumes "clean_but A d" and "map_of (dk_names d) n = Some f"
  obtains d' where "os_Sync f d = (Inr (), d')" "clean_but (A - {n}) d'" "dk_names d' = dk_names d" "files d' = files d"
proof
  let ?d = "d\<lparr>dk_safe := (dk_safe d)(f := dk_data d f)\<rparr>"
  show "os_Sync f d = (Inr (), ?d)" by (simp add: os_Sync_def)
  show "clean_but (A - {n}) ?d"
    using assms names_ok_inj [OF clean_but_names [OF assms(1)] assms(2)]
    by (auto simp: clean_but_def names_ok_def)
qed simp_all

text \<open>A new file; its name is not durable until the directory is.\<close>

lemma os_Create_new:
  assumes "clean_but A d" and "files d n = None"
  obtains d' f where "os_Create n d = (Inr f, d')" "names_ok d'" "dk_safe_names d' = dk_names d"
    "map_of (dk_names d') = (map_of (dk_names d))(n \<mapsto> f)" "files d' = (files d)(n \<mapsto> [])"
    "\<forall>m g. m \<notin> A \<longrightarrow> map_of (dk_names d') m = Some g \<longrightarrow> dk_safe d' g = dk_data d' g"
proof
  let ?f = "dk_next d"
  let ?d = "d\<lparr>dk_names := AList.update n ?f (dk_names d), dk_data := (dk_data d)(?f := []),
             dk_safe := (dk_safe d)(?f := []), dk_next := ?f + 1\<rparr>"
  have none: "map_of (dk_names d) n = None" using assms(2) by (simp add: files_def)
  have fresh: "map_of (dk_names d) m \<noteq> Some ?f" for m
    using clean_but_names [OF assms(1)] by (auto simp: names_ok_def)
  show "os_Create n d = (Inr ?f, ?d)" using none by (simp add: os_Create_def Let_def)
  show "map_of (dk_names ?d) = (map_of (dk_names d))(n \<mapsto> ?f)" by (simp add: update_conv')
  have upd: "map_of (AList.update n ?f (dk_names d)) = (map_of (dk_names d))(n \<mapsto> ?f)"
    by (simp add: update_conv')
  show "names_ok ?d"
    using clean_but_names [OF assms(1)] fresh by (auto simp: names_ok_def upd less_Suc_eq)
  show "files ?d = (files d)(n \<mapsto> [])"
    using fresh by (auto simp: files_def fun_eq_iff upd map_option_case split: option.split)
  show "\<forall>m g. m \<notin> A \<longrightarrow> map_of (dk_names ?d) m = Some g \<longrightarrow> dk_safe ?d g = dk_data ?d g"
    using assms(1) fresh by (auto simp: clean_but_def upd)
  show "dk_safe_names ?d = dk_names d" using assms(1) by (simp add: clean_but_def)
qed

section \<open>Replacing a file\<close>

text \<open>
  The common shape of \<^verbatim>\<open>SaveHardState\<close> and \<^verbatim>\<open>SaveSnapshot\<close>: write a temporary file, make it
  durable, rename it into place and make the name durable.
\<close>

definition replace_file ::
  "'v vfs_ops \<Rightarrow> (nat \<Rightarrow> string) \<Rightarrow> string \<Rightarrow> string \<Rightarrow> byte list \<Rightarrow> ('v, unit) io" where
  "replace_file vo w tmp final bs =
     io_bind (io_wrap (w 0) (v_Create vo tmp)) (\<lambda>f.
     io_bind (io_join (w 1) (f_Write vo f bs) (f_Close vo f)) (\<lambda>_.
     io_bind (io_join (w 2) (f_Sync vo f) (f_Close vo f)) (\<lambda>_.
     io_bind (io_wrap (w 3) (f_Close vo f)) (\<lambda>_.
     io_bind (io_wrap (w 4) (v_Rename vo tmp final)) (\<lambda>_.
     io_wrap (w 5) (v_SyncDir vo))))))"

lemma SaveHardState_replaces:
  "file_SaveHardState_io vo hs =
     replace_file vo ((!) [''file storage: create hardstate tmp'', ''file storage: write hardstate tmp'',
         ''file storage: sync hardstate tmp'', ''file storage: close hardstate tmp'',
         ''file storage: rename hardstate into place'', ''file storage: syncdir after hardstate rename''])
       hardStateTmpFile hardStateFile (encodeHardState hs)"
  by (simp add: file_SaveHardState_io_def replace_file_def numeral_nat)

lemma SaveSnapshot_replaces:
  "file_SaveSnapshot_io vo sn =
     replace_file vo ((!) [''file storage: create snapshot tmp'', ''file storage: write snapshot tmp'',
         ''file storage: sync snapshot tmp'', ''file storage: close snapshot tmp'',
         ''file storage: rename snapshot into place'', ''file storage: syncdir after snapshot rename''])
       snapshotTmpFile snapshotFile (encodeSnapshot sn)"
  by (simp add: file_SaveSnapshot_io_def replace_file_def numeral_nat)

text \<open>The disk after each call, from the descriptor \<open>f\<close> the creation returns.\<close>

lemma os_Create_named:
  assumes "names_ok d"
  obtains f d' where "os_Create n d = (Inr f, d')"
    "map_of (dk_names d') = (map_of (dk_names d))(n \<mapsto> f)"
    "dk_data d' = (dk_data d)(f := [])" "dk_safe_names d' = dk_safe_names d"
    "\<And>g. g \<noteq> f \<Longrightarrow> dk_safe d' g = dk_safe d g" "f < dk_next d'" "dk_next d \<le> dk_next d'"
    "\<And>m. m \<noteq> n \<Longrightarrow> map_of (dk_names d) m \<noteq> Some f"
proof (cases "map_of (dk_names d) n")
  case None
  have fresh: "map_of (dk_names d) m \<noteq> Some (dk_next d)" for m
    using names_ok_bound [OF assms, of m "dk_next d"] by auto
  show ?thesis
    by (rule that [of "dk_next d" "snd (os_Create n d)"])
      (use None fresh in \<open>auto simp: os_Create_def Let_def update_conv'\<close>)
next
  case (Some f)
  show ?thesis
    by (rule that [of f "snd (os_Create n d)"])
      (use Some names_ok_inj [OF assms Some] names_ok_bound [OF assms Some] in
        \<open>auto simp: os_Create_def fun_upd_idem\<close>)
qed

lemma replace_file_os:
  assumes "clean_but {} d" and "tmp \<noteq> final"
  obtains d' where "replace_file os_ops w tmp final bs d = (Inr (), d')" "clean_but {} d'"
    "files d' = (files d)(tmp := None, final \<mapsto> bs)"
    "\<forall>n. n \<noteq> tmp \<longrightarrow> n \<noteq> final \<longrightarrow> map_of (dk_names d') n = map_of (dk_names d) n"
proof -
  note ok = clean_but_names [OF assms(1)]
  obtain f c where c: "os_Create tmp d = (Inr f, c)"
    and n1: "map_of (dk_names c) = (map_of (dk_names d))(tmp \<mapsto> f)"
    and dt: "dk_data c = (dk_data d)(f := [])" and sn: "dk_safe_names c = dk_safe_names d"
    and sf: "\<And>g. g \<noteq> f \<Longrightarrow> dk_safe c g = dk_safe d g" and f: "f < dk_next c"
    and nx: "dk_next d \<le> dk_next c" and fr: "\<And>m. m \<noteq> tmp \<Longrightarrow> map_of (dk_names d) m \<noteq> Some f"
    by (rule os_Create_named [OF ok, of tmp]) blast
  let ?ns = "AList.update final f (AList.delete tmp (dk_names c))"
  let ?d = "c\<lparr>dk_names := ?ns, dk_safe_names := ?ns, dk_data := (dk_data d)(f := bs), dk_safe := (dk_safe c)(f := bs)\<rparr>"
  have ns: "map_of ?ns = ((map_of (dk_names d))(tmp := None))(final \<mapsto> f)"
    using n1 assms(2) by (auto simp: update_conv' delete_conv' fun_eq_iff)
  have nok: "names_ok ?d"
    using f fr
    by (intro names_okI) (auto simp: ns split: if_splits dest: names_ok_same [OF ok]
        intro: less_le_trans [OF names_ok_bound [OF ok] nx])
  have "replace_file os_ops w tmp final bs d = (Inr (), ?d)"
    using n1 dt
    by (simp add: replace_file_def io_defs c os_Write_def os_Sync_def os_Close_def os_Rename_def os_SyncDir_def)
  moreover have "clean_but {} ?d"
    unfolding clean_but_def
  proof (intro conjI allI impI)
    fix n g assume g: "map_of (dk_names ?d) n = Some g"
    show "dk_safe ?d g = dk_data ?d g"
      using g sf [of g] assms(1) by (cases "g = f") (auto simp: ns clean_but_def split: if_splits)
  qed (use nok in simp_all)
  moreover have "files ?d = (files d)(tmp := None, final \<mapsto> bs)"
    using fr assms(2) by (auto simp: files_def fun_eq_iff ns map_option_case split: option.split)
  ultimately show ?thesis by (intro that [of ?d]) (simp_all add: ns)
qed

section \<open>Reading a whole file\<close>

lemma readAllAt_os: "readAllAt os_ops f d = (Inr (dk_data d f), d)"
  by (simp add: readAllAt_def io_defs os_Size_def os_ReadAt_def read_buf_def Let_def)

definition decode_file :: "'a \<Rightarrow> string \<Rightarrow> (byte list \<Rightarrow> goerr + 'a) \<Rightarrow> byte list option \<Rightarrow> goerr + 'a" where
  "decode_file z w dec ob =
     (case ob of
        None \<Rightarrow> Inr z
      | Some b \<Rightarrow> (case dec b of Inl e \<Rightarrow> Inl (Wrapped w e) | Inr x \<Rightarrow> Inr x))"

lemma LoadHardState_os:
  "file_LoadHardState_io os_ops d =
     (decode_file zero_hardstate ''file storage: decode hardstate'' decodeHardState (files d hardStateFile), d)"
  by (auto simp: file_LoadHardState_io_def files_def io_defs os_Open_def os_Close_def readAllAt_os decode_file_def
      split: option.split sum.split)

lemma LoadSnapshot_os:
  "file_LoadSnapshot_io os_ops d =
     (decode_file zero_snapshot ''file storage: decode snapshot'' decodeSnapshot (files d snapshotFile), d)"
  by (auto simp: file_LoadSnapshot_io_def files_def io_defs os_Open_def os_Close_def readAllAt_os decode_file_def
      split: option.split sum.split)

end
