(* ===== verification/File_Refines.thy ===== *)
theory File_Refines
  imports File_Disk Storage_Memory
begin

text \<open>
  The durable store implements the in-RAM store. \<open>store_ok s L\<close> relates the fields and the
  disk of a \<^verbatim>\<open>file.Storage\<close> to a layout \<open>L\<close>, the list of its segments with their entries;
  the log is the concatenation. Every method keeps the invariant and answers as the
  in-RAM store does, and reopening after a crash gives the same store back.
\<close>

section \<open>Layouts\<close>

type_synonym layout = "(string \<times> entry list) list"

definition layout_log :: "layout \<Rightarrow> entry list" where
  "layout_log L = concat (map snd L)"

definition layout_idx :: "layout \<Rightarrow> idxEntry list" where
  "layout_idx L = concat (map (\<lambda>(n, es). seg_idx n segHeaderLen es) L)"

text \<open>Segments named by their first index; only the last may be empty.\<close>

fun segs_from :: "nat \<Rightarrow> layout \<Rightarrow> bool" where
  "segs_from k [] = True"
| "segs_from k ((n, es) # L) = (n = segmentName k \<and> (es = [] \<longrightarrow> L = []) \<and> segs_from (k + length es) L)"

abbreviation all_filled :: "layout \<Rightarrow> bool" where
  "all_filled L \<equiv> [] \<notin> snd ` set L"

definition layout_ok :: "layout \<Rightarrow> bool" where
  "layout_ok L \<longleftrightarrow> segs_from 1 L \<and> contiguous_from 1 (layout_log L) \<and>
     length (layout_log L) + 1 < name_limit \<and> (\<forall>e \<in> set (layout_log L). entry_fits e)"

lemma layout_simps [simp]:
  "layout_log [] = []" "layout_log (x # L) = snd x @ layout_log L" "layout_log (L @ L') = layout_log L @ layout_log L'"
  "layout_idx [] = []" "layout_idx ((n, es) # L) = seg_idx n segHeaderLen es @ layout_idx L"
  "layout_idx (L @ L') = layout_idx L @ layout_idx L'"
  by (simp_all add: layout_log_def layout_idx_def)

lemma length_layout_idx [simp]: "length (layout_idx L) = length (layout_log L)"
  by (induction L) auto

lemma layout_idx_empty [simp]: "layout_idx L = [] \<longleftrightarrow> layout_log L = []"
  by (metis length_0_conv length_layout_idx)

lemma layout_idx_sel:
  "map ie_index (layout_idx L) = map ent_Index (layout_log L)"
  "map ie_term (layout_idx L) = map ent_Term (layout_log L)"
  by (induction L) (auto simp: seg_idx_sel)

lemma segs_from_append:
  "segs_from k (L @ L') \<longleftrightarrow> segs_from k L \<and> segs_from (k + length (layout_log L)) L' \<and> (L' = [] \<or> all_filled L)"
  by (induction L arbitrary: k) (auto simp: add.assoc)

lemma segs_from_names:
  "segs_from k L \<Longrightarrow> (n, es) \<in> set L \<Longrightarrow> \<exists>j. k \<le> j \<and> j \<le> k + length (layout_log L) \<and> n = segmentName j"
proof (induction L arbitrary: k)
  case (Cons x L)
  show ?case
  proof (cases "x = (n, es)")
    case True
    with Cons.prems show ?thesis by auto
  next
    case False
    with Cons.prems obtain m es' where x: "x = (m, es')" "segs_from (k + length es') L" "(n, es) \<in> set L"
      by (cases x) auto
    from Cons.IH [OF x(2,3)] x(1) show ?thesis
      by (metis (no_types, lifting) add.assoc layout_simps(2) le_add1 le_trans length_append snd_conv)
  qed
qed simp

lemma segs_from_sorted:
  "segs_from k L \<Longrightarrow> k + length (layout_log L) < name_limit \<Longrightarrow> sorted_wrt (<) (map fst L)"
proof (induction L arbitrary: k)
  case (Cons x L)
  obtain n es where x: "x = (n, es)" by (cases x)
  have "n < m" if m0: "m \<in> fst ` set L" for m
  proof -
    obtain es' where m: "(m, es') \<in> set L" using m0 by auto
    have ne: "es \<noteq> []" and "segs_from (k + length es) L" using Cons.prems(1) x m by auto
    then obtain j where j: "k + length es \<le> j" "j \<le> k + length es + length (layout_log L)" "m = segmentName j"
      using segs_from_names [OF _ m] by blast
    have "1 \<le> length es" using ne by (cases es) auto
    then have "k < j" using j(1) by linarith
    moreover have "j < name_limit" using j(2) Cons.prems(2) x by simp
    ultimately show ?thesis using j(3) Cons.prems(1) x segmentName_less by auto
  qed
  moreover have "sorted_wrt (<) (map fst L)" using Cons.prems x by (intro Cons.IH [of "k + length es"]) auto
  ultimately show ?case using x by auto
qed simp

lemma layout_ok_distinct: "layout_ok L \<Longrightarrow> distinct (map fst L)"
  using segs_from_sorted [of 1 L] strict_sorted_iff [of "map fst L"] by (simp add: layout_ok_def)

lemma layout_ok_suffix: "layout_ok L \<Longrightarrow> n \<in> fst ` set L \<Longrightarrow> has_suffix segSuffix n"
  using segs_from_names [of 1 L n] by (fastforce simp: layout_ok_def intro!: segmentName_suffix)

section \<open>The invariant\<close>

definition on_disk :: "disk \<Rightarrow> layout \<Rightarrow> bool" where
  "on_disk d L \<longleftrightarrow> (\<forall>x \<in> set L. files d (fst x) = Some (seg_bytes (snd x))) \<and>
     (\<forall>n. has_suffix segSuffix n \<longrightarrow> files d n \<noteq> None \<longrightarrow> n \<in> fst ` set L)"

definition active_ok :: "disk file_storage \<Rightarrow> layout \<Rightarrow> bool" where
  "active_ok s L \<longleftrightarrow>
     (if L = [] then fst_active s = '''' \<and> fst_activeFile s = None \<and> fst_activeCount s = 0
      else fst_active s = fst (last L) \<and> fst_activeCount s = length (snd (last L)) \<and>
        (\<exists>f. fst_activeFile s = Some f \<and> map_of (dk_names (fst_fs s)) (fst_active s) = Some f))"

text \<open>During an \<^verbatim>\<open>Append\<close> the active segment may not be durable yet and the index lags.\<close>

definition store_mid :: "disk file_storage \<Rightarrow> layout \<Rightarrow> bool" where
  "store_mid s L \<longleftrightarrow> clean_but (if L = [] then {} else {fst (last L)}) (fst_fs s) \<and> on_disk (fst_fs s) L \<and>
     layout_ok L \<and> active_ok s L \<and> 0 < fst_max s"

definition store_ok :: "disk file_storage \<Rightarrow> layout \<Rightarrow> bool" where
  "store_ok s L \<longleftrightarrow> store_mid s L \<and> clean_but {} (fst_fs s) \<and> fst_idx s = layout_idx L"

lemma segs_new_name:
  assumes "layout_ok L" and "all_filled L"
  shows "segmentName (length (layout_log L) + 1) \<notin> fst ` set L"
    and "layout_ok (L @ [(segmentName (length (layout_log L) + 1), [])])"
proof -
  let ?n = "segmentName (length (layout_log L) + 1)"
  have "segs_from 1 (L @ [(?n, [])])"
    using assms by (simp add: segs_from_append layout_ok_def)
  then have "sorted_wrt (<) (map fst (L @ [(?n, [])]))"
    using assms(1) by (intro segs_from_sorted) (auto simp: layout_ok_def)
  then show "?n \<notin> fst ` set L" by (auto simp: sorted_wrt_append)
  show "layout_ok (L @ [(?n, [])])"
    using assms by (simp add: segs_from_append layout_ok_def)
qed

lemma layout_ok_snoc_entry:
  assumes "layout_ok (L @ [(n, es)])" and "entry_fits e" and "ent_Index e = length (layout_log L) + length es + 1"
    and "length (layout_log L) + length es + 2 < name_limit"
  shows "layout_ok (L @ [(n, es @ [e])])"
  using assms by (auto simp: layout_ok_def segs_from_append contiguous_from_append)

lemma layout_snoc_entry [simp]: "seg_bytes (es @ [e]) = seg_bytes es @ rec_bytes e"
  by (simp add: seg_bytes_def)

lemma store_mid_idx [simp]: "store_mid (s\<lparr>fst_idx := x\<rparr>) L = store_mid s L"
  by (simp add: store_mid_def active_ok_def)

text \<open>What each state of an \<^verbatim>\<open>Append\<close> keeps of the one before.\<close>

definition frame :: "disk file_storage \<Rightarrow> disk file_storage \<Rightarrow> bool" where
  "frame s s' \<longleftrightarrow> fst_idx s' = fst_idx s \<and> fst_max s' = fst_max s \<and>
     (\<forall>n. \<not> has_suffix segSuffix n \<longrightarrow> files (fst_fs s') n = files (fst_fs s) n)"

lemma frame_trans: "frame s s' \<Longrightarrow> frame s' s'' \<Longrightarrow> frame s s''"
  by (simp add: frame_def)

section \<open>Append\<close>

lemma on_fs_eq: "m (fst_fs s) = (r, d) \<Longrightarrow> on_fs m s = (r, s\<lparr>fst_fs := d\<rparr>)"
  by (simp add: on_fs_def)

text \<open>Closing the active segment makes it durable.\<close>

lemma close_active:
  assumes "store_mid s L"
  obtains d where "clean_but {} d" "dk_names d = dk_names (fst_fs s)" "files d = files (fst_fs s)"
    "closeOnRollover os_ops s = (Inr (), s\<lparr>fst_fs := d, fst_activeFile := None\<rparr>)"
proof (cases "L = []")
  case True
  with assms have "clean_but {} (fst_fs s)" "fst_activeFile s = None" by (auto simp: store_mid_def active_ok_def)
  then show ?thesis by (intro that [of "fst_fs s"]) (simp_all add: closeOnRollover_def)
next
  case False
  with assms obtain f where f: "fst_activeFile s = Some f" "map_of (dk_names (fst_fs s)) (fst (last L)) = Some f"
    and cl: "clean_but {fst (last L)} (fst_fs s)"
    by (auto simp: store_mid_def active_ok_def)
  obtain d where d: "os_Sync f (fst_fs s) = (Inr (), d)" "clean_but ({fst (last L)} - {fst (last L)}) d"
    "dk_names d = dk_names (fst_fs s)" "files d = files (fst_fs s)"
    by (rule os_Sync_step [OF cl f(2)])
  then show ?thesis
    by (intro that [of d]) (simp_all add: closeOnRollover_def f io_defs on_fs_def os_Close_def)
qed

text \<open>Creating the segment of a new index, header written and name durable.\<close>

lemma create_segment:
  assumes "clean_but {} d" and "files d n = None"
  obtains f d1 d2 where "os_Create n d = (Inr f, d1)" "os_Write f b d1 = (Inr (), d2)"
    "clean_but {n} (d2\<lparr>dk_safe_names := dk_names d2\<rparr>)" "map_of (dk_names d2) n = Some f" "files d2 = (files d)(n \<mapsto> b)"
proof -
  obtain d1 f where c: "os_Create n d = (Inr f, d1)" "names_ok d1" "dk_safe_names d1 = dk_names d"
    "map_of (dk_names d1) = (map_of (dk_names d))(n \<mapsto> f)" "files d1 = (files d)(n \<mapsto> [])"
    "\<forall>m g. m \<notin> {} \<longrightarrow> map_of (dk_names d1) m = Some g \<longrightarrow> dk_safe d1 g = dk_data d1 g"
    by (rule os_Create_new [OF assms])
  let ?d1 = "d1\<lparr>dk_safe_names := dk_names d1\<rparr>"
  have ok1: "clean_but {} ?d1" using c(2,6) by (simp add: clean_but_def names_ok_def)
  obtain d2 where d2: "os_Write f b ?d1 = (Inr (), d2)" "clean_but {n} d2" "dk_names d2 = dk_names ?d1"
      "files d2 = (files ?d1)(n \<mapsto> [] @ b)"
    using os_Write_step [OF ok1, of n f "[]" b] c(4,5) by auto
  let ?d2 = "d1\<lparr>dk_data := (dk_data d1)(f := dk_data d1 f @ b)\<rparr>"
  have "d2 = ?d2\<lparr>dk_safe_names := dk_names ?d2\<rparr>" using d2(1) by (cases d1) (auto simp: os_Write_def)
  then have "clean_but {n} (?d2\<lparr>dk_safe_names := dk_names ?d2\<rparr>)" "files ?d2 = (files d)(n \<mapsto> b)"
    using d2(2,4) c(5) by simp_all
  moreover have "os_Write f b d1 = (Inr (), ?d2)" by (simp add: os_Write_def)
  ultimately show ?thesis using that c(1,4) by fastforce
qed

lemma on_disk_new:
  "on_disk d L \<Longrightarrow> n \<notin> fst ` set L \<Longrightarrow> files d' = (files d)(n \<mapsto> seg_bytes es) \<Longrightarrow> on_disk d' (L @ [(n, es)])"
  by (force simp: on_disk_def)

lemma rollover_step:
  assumes "store_mid s L" and "all_filled L"
  obtains s' where "rolloverLocked os_ops (length (layout_log L) + 1) s = (Inr (), s')"
    "store_mid s' (L @ [(segmentName (length (layout_log L) + 1), [])])" "frame s s'"
proof -
  let ?n = "segmentName (length (layout_log L) + 1)"
  have lok: "layout_ok L" and disk: "on_disk (fst_fs s) L" and max: "0 < fst_max s"
    using assms(1) by (simp_all add: store_mid_def)
  have suf: "has_suffix segSuffix ?n" using lok by (intro segmentName_suffix) (simp add: layout_ok_def)
  note new = segs_new_name [OF lok assms(2)]
  obtain d where d: "clean_but {} d" "dk_names d = dk_names (fst_fs s)" "files d = files (fst_fs s)"
    "closeOnRollover os_ops s = (Inr (), s\<lparr>fst_fs := d, fst_activeFile := None\<rparr>)"
    by (rule close_active [OF assms(1)])
  have none: "files d ?n = None" using disk new(1) suf d(3) by (auto simp: on_disk_def)
  obtain f d1 d2 where c: "os_Create ?n d = (Inr f, d1)" "os_Write f writeSegHeader d1 = (Inr (), d2)"
    "clean_but {?n} (d2\<lparr>dk_safe_names := dk_names d2\<rparr>)" "map_of (dk_names d2) ?n = Some f"
    "files d2 = (files d)(?n \<mapsto> writeSegHeader)"
    by (rule create_segment [OF d(1) none])
  let ?d = "d2\<lparr>dk_safe_names := dk_names d2\<rparr>"
  let ?s = "s\<lparr>fst_fs := ?d, fst_active := ?n, fst_activeFile := Some f, fst_activeCount := 0\<rparr>"
  have "rolloverLocked os_ops (length (layout_log L) + 1) s = (Inr (), ?s)"
    using d(4) c(1,2) by (simp add: rolloverLocked_def io_defs Let_def on_fs_def os_SyncDir_def)
  moreover have "on_disk ?d (L @ [(?n, [])])"
    using on_disk_new [OF disk new(1), of ?d "[]"] c(5) d(3) by (simp add: seg_bytes_def)
  then have "store_mid ?s (L @ [(?n, [])])"
    using c(3,4) new(2) max by (simp add: store_mid_def active_ok_def)
  moreover have "frame s ?s" using c(5) d(3) suf by (auto simp: frame_def)
  ultimately show ?thesis using that by blast
qed

lemma on_disk_last:
  "on_disk d (L @ [(n, es)]) \<Longrightarrow> n \<notin> fst ` set L \<Longrightarrow> files d' = (files d)(n \<mapsto> seg_bytes es') \<Longrightarrow>
   on_disk d' (L @ [(n, es')])"
  by (force simp: on_disk_def)

lemma write_record_step:
  assumes "store_mid s (L @ [(n, es)])" and "entry_fits e" and "ent_Index e = length (layout_log L) + length es + 1"
    and "length (layout_log L) + length es + 2 < name_limit" and "fst_activeFile s = Some f"
  obtains d where "writeRecordLocked os_ops f e s = (Inr (length (seg_bytes es) + 8), s\<lparr>fst_fs := d\<rparr>)"
    "store_mid (s\<lparr>fst_fs := d, fst_activeCount := fst_activeCount s + 1\<rparr>) (L @ [(n, es @ [e])])"
    "frame s (s\<lparr>fst_fs := d\<rparr>)"
proof -
  have cl: "clean_but {n} (fst_fs s)" and nf: "map_of (dk_names (fst_fs s)) n = Some f"
    and fl: "files (fst_fs s) n = Some (seg_bytes es)" and disk: "on_disk (fst_fs s) (L @ [(n, es)])"
    and lok: "layout_ok (L @ [(n, es)])"
    using assms(1,5) by (auto simp: store_mid_def active_ok_def on_disk_def)
  have fresh: "n \<notin> fst ` set L" using layout_ok_distinct [OF lok] by simp
  have suf: "has_suffix segSuffix n" using layout_ok_suffix [OF lok] by simp
  have sz: "dk_data (fst_fs s) f = seg_bytes es" using fl nf by (simp add: files_def)
  let ?h = "record_header (record_payload e)"
  obtain d1 where d1: "os_Write f ?h (fst_fs s) = (Inr (), d1)" "clean_but {n} d1"
      "dk_names d1 = dk_names (fst_fs s)" "files d1 = (files (fst_fs s))(n \<mapsto> seg_bytes es @ ?h)"
    using os_Write_step [OF cl nf fl] by auto
  have "map_of (dk_names d1) n = Some f" "files d1 n = Some (seg_bytes es @ ?h)" using d1(3,4) nf by simp_all
  from os_Write_step [OF d1(2) this] obtain d where d: "os_Write f (record_payload e) d1 = (Inr (), d)" "clean_but {n} d"
      "dk_names d = dk_names d1" "files d = (files d1)(n \<mapsto> (seg_bytes es @ ?h) @ record_payload e)"
    by auto
  have fd: "files d = (files (fst_fs s))(n \<mapsto> seg_bytes (es @ [e]))"
    using d(4) d1(4) by (simp add: rec_bytes_def)
  have "writeRecordLocked os_ops f e s = (Inr (length (seg_bytes es) + 8), s\<lparr>fst_fs := d\<rparr>)"
    using d1(1) d(1) sz
    by (simp add: writeRecordLocked_def io_defs on_fs_def os_Size_def encodeRecord_def recHeaderLen_def)
  moreover have "store_mid (s\<lparr>fst_fs := d, fst_activeCount := fst_activeCount s + 1\<rparr>) (L @ [(n, es @ [e])])"
    using assms(1,5) d(2,3) d1(3) nf on_disk_last [OF disk fresh fd] layout_ok_snoc_entry [OF lok assms(2-4)]
    by (auto simp: store_mid_def active_ok_def)
  moreover have "frame s (s\<lparr>fst_fs := d\<rparr>)" using fd suf by (auto simp: frame_def)
  ultimately show ?thesis by (rule that)
qed

lemma frame_count [simp]: "frame s (s'\<lparr>fst_activeCount := k\<rparr>) = frame s s'"
  by (simp add: frame_def)

lemma append_write:
  assumes "store_mid s (L @ [(n, es)])" and "entry_fits e" and "ent_Index e = length (layout_log L) + length es + 1"
    and "length (layout_log L) + length es + 2 < name_limit"
    and "fst_activeFile s \<noteq> None" and "fst_activeCount s < fst_max s"
  obtains s' where "appendOne os_ops e s = (Inr (last (seg_idx n segHeaderLen (es @ [e]))), s')"
    "store_mid s' (L @ [(n, es @ [e])])" "frame s s'"
proof -
  obtain f where f: "fst_activeFile s = Some f" using assms(5) by auto
  from write_record_step [OF assms(1-4) f] obtain d where
    d: "writeRecordLocked os_ops f e s = (Inr (length (seg_bytes es) + 8), s\<lparr>fst_fs := d\<rparr>)"
       "store_mid (s\<lparr>fst_fs := d, fst_activeCount := fst_activeCount s + 1\<rparr>) (L @ [(n, es @ [e])])"
       "frame s (s\<lparr>fst_fs := d\<rparr>)" by auto
  have "fst_active s = n" using assms(1) by (auto simp: store_mid_def active_ok_def)
  then show ?thesis
    using d assms(6)
    by (intro that [of "s\<lparr>fst_fs := d, fst_activeCount := fst_activeCount s + 1\<rparr>"])
      (auto simp: appendOne_def f io_bind_def seg_idx_append payloadFixedLen_def seg_bytes_def)
qed

lemma store_mid_active:
  assumes "store_mid s (L @ [(n, es)])"
  shows "fst_activeFile s \<noteq> None" "fst_activeCount s = length es" "fst_active s = n" "all_filled L" "0 < fst_max s"
  using assms by (auto simp: store_mid_def active_ok_def layout_ok_def segs_from_append)

lemma appendOne_roll:
  assumes "fst_activeFile s = None \<or> fst_activeCount s \<ge> fst_max s"
    and "rolloverLocked os_ops (ent_Index e) s = (Inr (), s')"
    and "fst_activeFile s' \<noteq> None" and "fst_activeCount s' < fst_max s'"
  shows "appendOne os_ops e s = appendOne os_ops e s'"
  using assms by (auto simp: appendOne_def io_bind_def)

lemma last_seg_idx: "layout_idx (L @ [(n, es @ [e])]) = layout_idx (L @ [(n, es)]) @ [last (seg_idx n segHeaderLen (es @ [e]))]"
  by (simp add: seg_idx_append)

lemma appendOne_step:
  assumes "store_mid s L" and "entry_fits e" and "ent_Index e = length (layout_log L) + 1"
    and "length (layout_log L) + 2 < name_limit"
  obtains s' L' ie where "appendOne os_ops e s = (Inr ie, s')" "store_mid s' L'" "frame s s'"
    "layout_log L' = layout_log L @ [e]" "layout_idx L' = layout_idx L @ [ie]" "L' \<noteq> []"
proof (cases "fst_activeFile s = None \<or> fst_activeCount s \<ge> fst_max s")
  case True
  have filled: "all_filled L"
  proof (cases L rule: rev_cases)
    case (snoc L0 x)
    obtain n es where x: "x = (n, es)" by (cases x)
    show ?thesis using True store_mid_active [of s L0 n es] assms(1) snoc x by auto
  qed simp
  let ?n = "segmentName (length (layout_log L) + 1)"
  obtain s1 where s1: "rolloverLocked os_ops (length (layout_log L) + 1) s = (Inr (), s1)"
    "store_mid s1 (L @ [(?n, [])])" "frame s s1"
    by (rule rollover_step [OF assms(1) filled])
  note act = store_mid_active [OF s1(2)]
  obtain s' where s': "appendOne os_ops e s1 = (Inr (last (seg_idx ?n segHeaderLen ([] @ [e]))), s')"
    "store_mid s' (L @ [(?n, [] @ [e])])" "frame s1 s'"
    using append_write [OF s1(2) assms(2)] assms(3,4) act by auto
  have "appendOne os_ops e s = appendOne os_ops e s1"
    using appendOne_roll [OF True] s1(1) assms(3) act by simp
  with s' frame_trans [OF s1(3) s'(3)] show ?thesis
    by (intro that [of _ s' "L @ [(?n, [e])]"]) auto
next
  case False
  then have "L \<noteq> []" using assms(1) by (auto simp: store_mid_def active_ok_def)
  then obtain L0 n es where L: "L = L0 @ [(n, es)]" by (metis prod.exhaust rev_exhaust)
  obtain s' where "appendOne os_ops e s = (Inr (last (seg_idx n segHeaderLen (es @ [e]))), s')"
    "store_mid s' (L0 @ [(n, es @ [e])])" "frame s s'"
    using append_write [of s L0 n es e] assms L False by auto
  then show ?thesis using L last_seg_idx by (intro that [of _ s' "L0 @ [(n, es @ [e])]"]) auto
qed

lemma appendAll_step:
  assumes "store_mid s L" and "\<forall>e \<in> set es. entry_fits e" and "contiguous_from (length (layout_log L) + 1) es"
    and "length (layout_log L) + length es + 1 < name_limit"
  shows "\<exists>s' L' ies. appendAll os_ops es s = (Inr ies, s') \<and> store_mid s' L' \<and> frame s s' \<and>
    layout_log L' = layout_log L @ es \<and> layout_idx L' = layout_idx L @ ies \<and> (es \<noteq> [] \<longrightarrow> L' \<noteq> [])"
  using assms
proof (induction es arbitrary: s L)
  case Nil
  then show ?case by (intro exI [of _ s] exI [of _ L] exI [of _ "[]"]) (simp add: io_ret_def frame_def)
next
  case (Cons e es)
  obtain s1 L1 ie where s1: "appendOne os_ops e s = (Inr ie, s1)" "store_mid s1 L1" "frame s s1"
    "layout_log L1 = layout_log L @ [e]" "layout_idx L1 = layout_idx L @ [ie]" "L1 \<noteq> []"
    using Cons.prems by (auto elim!: appendOne_step [of s L e])
  have "\<exists>s' L' ies. appendAll os_ops es s1 = (Inr ies, s') \<and> store_mid s' L' \<and> frame s1 s' \<and>
    layout_log L' = layout_log L1 @ es \<and> layout_idx L' = layout_idx L1 @ ies \<and> (es \<noteq> [] \<longrightarrow> L' \<noteq> [])"
    using Cons.prems s1 by (intro Cons.IH) auto
  then obtain s' L' ies where s': "appendAll os_ops es s1 = (Inr ies, s')" "store_mid s' L'" "frame s1 s'"
    "layout_log L' = layout_log L1 @ es" "layout_idx L' = layout_idx L1 @ ies" by blast
  have "length (layout_log L') \<noteq> 0" using s'(4) s1(4) by simp
  then have "L' \<noteq> []" by auto
  then show ?case
    using s1 s' frame_trans [OF s1(3) s'(3)]
    by (intro exI [of _ s'] exI [of _ L'] exI [of _ "ie # ies"]) (simp add: io_bind_def io_ret_def)
qed

definition keeps_state :: "disk file_storage \<Rightarrow> disk file_storage \<Rightarrow> bool" where
  "keeps_state s s' \<longleftrightarrow> (\<forall>n. \<not> has_suffix segSuffix n \<longrightarrow> files (fst_fs s') n = files (fst_fs s) n)"

lemma store_okD:
  assumes "store_ok s L"
  shows "store_mid s L" "clean_but {} (fst_fs s)" "fst_idx s = layout_idx L" "on_disk (fst_fs s) L" "layout_ok L"
    "contiguous_from 1 (layout_log L)" "length (layout_log L) + 1 < name_limit"
    "\<forall>e \<in> set (layout_log L). entry_fits e" "segs_from 1 L" "active_ok s L" "0 < fst_max s"
  using assms by (simp_all add: store_ok_def store_mid_def layout_ok_def)

lemma lastIndex_ok: "store_ok s L \<Longrightarrow> lastIndexLocked s = length (layout_log L)"
proof -
  assume ok: "store_ok s L"
  note D = store_okD [OF ok]
  show ?thesis
  proof (cases "layout_log L = []")
    case True
    then show ?thesis using D(3) by (simp add: lastIndexLocked_def)
  next
    case False
    then have ne: "layout_idx L \<noteq> []" by simp
    then have "ie_index (last (layout_idx L)) = ent_Index (last (layout_log L))"
      using layout_idx_sel(1) [of L] False by (metis last_map)
    then show ?thesis using D(3) ne False contiguous_from_last [OF D(6) False] by (simp add: lastIndexLocked_def)
  qed
qed

lemma store_sync:
  assumes "store_mid s L" and "L \<noteq> []" and "fst_activeFile s = Some f"
  obtains d where "os_Sync f (fst_fs s) = (Inr (), d)" "clean_but {} d" "files d = files (fst_fs s)"
    "store_mid (s\<lparr>fst_fs := d\<rparr>) L"
proof -
  have cl: "clean_but {fst (last L)} (fst_fs s)" and nf: "map_of (dk_names (fst_fs s)) (fst (last L)) = Some f"
    using assms by (auto simp: store_mid_def active_ok_def)
  obtain d where d: "os_Sync f (fst_fs s) = (Inr (), d)" "clean_but ({fst (last L)} - {fst (last L)}) d"
    "dk_names d = dk_names (fst_fs s)" "files d = files (fst_fs s)"
    by (rule os_Sync_step [OF cl nf])
  have "store_mid (s\<lparr>fst_fs := d\<rparr>) L"
    using assms d clean_but_mono [of "{}" d] by (auto simp: store_mid_def active_ok_def on_disk_def)
  with d show ?thesis by (intro that [of d]) auto
qed

lemma file_Append_ok:
  assumes "store_ok s L" and "\<forall>e \<in> set es. entry_fits e" and "length (layout_log L) + length es + 1 < name_limit"
    and "contiguous_from (length (layout_log L) + 1) es"
  obtains s' L' where "file_Append os_ops s es = (None, s')" "store_ok s' L'" "layout_log L' = layout_log L @ es"
    "keeps_state s s'"
proof (cases es)
  case Nil
  with assms(1) show ?thesis
    by (intro that [of s L]) (simp_all add: file_Append_def file_Append_io_def io_result_def keeps_state_def)
next
  case (Cons e es')
  note D = store_okD [OF assms(1)]
  have i: "ent_Index e = length (layout_log L) + 1" using assms(4) Cons by simp
  have succ: "u64_succ (lastIndexLocked s) = length (layout_log L) + 1"
    using lastIndex_ok [OF assms(1)] D(7) by (simp add: u64_succ_id)
  have bc: "batch_contiguous es"
    using batch_contiguous_iff [of "length (layout_log L) + 1" es] assms(3,4) Cons i by simp
  obtain s1 L1 ies where a: "appendAll os_ops es s = (Inr ies, s1)" "store_mid s1 L1" "frame s s1"
    "layout_log L1 = layout_log L @ es" "layout_idx L1 = layout_idx L @ ies" "L1 \<noteq> []"
    using appendAll_step [OF D(1) assms(2,4,3)] Cons by auto
  then obtain f where f: "fst_activeFile s1 = Some f" by (auto simp: store_mid_def active_ok_def)
  obtain d where d: "os_Sync f (fst_fs s1) = (Inr (), d)" "clean_but {} d" "files d = files (fst_fs s1)"
    "store_mid (s1\<lparr>fst_fs := d\<rparr>) L1"
    by (rule store_sync [OF a(2,6) f])
  let ?s = "s1\<lparr>fst_fs := d, fst_idx := fst_idx s @ ies\<rparr>"
  have "file_Append os_ops s es = (None, ?s)"
    using a(1,3) f d(1) i succ bc Cons
    by (simp add: file_Append_def file_Append_io_def io_result_def io_defs on_fs_def frame_def)
  moreover have "store_ok ?s L1"
    using d(2,4) a(5) D(3) by (simp add: store_ok_def)
  moreover have "keeps_state s ?s" using a(3) d(3) by (simp add: keeps_state_def frame_def)
  ultimately show ?thesis using a(4) that by blast
qed

lemma file_Append_rejects:
  assumes "store_ok s L" and "length (layout_log L) + length es + 1 < name_limit"
    and "\<not> contiguous_from (length (layout_log L) + 1) es"
  shows "file_Append os_ops s es = (Some (Wrapped ''file storage: append at index'' ErrNonContiguous), s)"
proof (cases es)
  case (Cons e es')
  have succ: "u64_succ (lastIndexLocked s) = length (layout_log L) + 1"
    using lastIndex_ok [OF assms(1)] store_okD(7) [OF assms(1)] by (simp add: u64_succ_id)
  have "batch_contiguous es \<longleftrightarrow> contiguous_from (length (layout_log L) + 1) es"
    if "ent_Index e = length (layout_log L) + 1"
    using assms(2) that Cons by (intro batch_contiguous_iff) auto
  then show ?thesis
    using assms(3) Cons succ by (auto simp: file_Append_def file_Append_io_def io_result_def errNonContiguous_def)
qed (use assms(3) in simp)

section \<open>Reads\<close>

lemma layout_reads_back:
  assumes "\<forall>x \<in> set L. files d (fst x) = Some (seg_bytes (snd x))" and "\<forall>e \<in> set (layout_log L). entry_fits e"
  shows "list_all2 (reads_back d) (layout_idx L) (layout_log L)"
  using assms
proof (induction L)
  case (Cons x L)
  obtain n es where x: "x = (n, es)" by (cases x)
  with Cons.prems obtain f where f: "map_of (dk_names d) n = Some f" "dk_data d f = seg_bytes es"
    by (auto simp: files_def)
  have "list_all2 (reads_back d) (seg_idx n (length writeSegHeader) es) es"
    using f Cons.prems(2) x by (intro segment_reads_back [of d n f writeSegHeader es "[]"]) (auto simp: seg_bytes_def)
  then show ?case using Cons x by (auto intro: list_all2_appendI)
qed simp

lemma file_Entries_ok:
  assumes "store_ok s L"
  shows "file_Entries os_ops s lo hi =
    (if lo < 1 \<or> hi < lo then Inl ErrInvalidRange
     else if length (layout_log L) + 1 < hi
       then Inl (Wrapped ''file storage: hi > LastIndex+1'' ErrUnexpectedEOF)
     else Inr (take (hi - lo) (drop (lo - 1) (layout_log L))))"
proof -
  note D = store_okD [OF assms]
  have "list_all2 (reads_back (fst_fs s)) (layout_idx L) (layout_log L)"
    using D(4,8) by (intro layout_reads_back) (auto simp: on_disk_def)
  then have "readEntries os_ops (take (hi - lo) (drop (lo - 1) (layout_idx L))) (fst_fs s) =
      (Inr (take (hi - lo) (drop (lo - 1) (layout_log L))), fst_fs s)"
    by (intro readEntries_all list_all2_takeI list_all2_dropI)
  moreover have "u64_succ (length (layout_log L)) = length (layout_log L) + 1"
    using D(7) by (simp add: u64_succ_id)
  ultimately show ?thesis
    using lastIndex_ok [OF assms] D(3) by (auto simp: file_Entries_def Let_def)
qed

lemma file_Term_ok:
  assumes "store_ok s L"
  shows "file_Term s i =
    (if i = 0 then Inr 0
     else if i > length (layout_log L) then Inl (Wrapped ''file storage: term'' ErrUnexpectedEOF)
     else Inr (ent_Term (layout_log L ! (i - 1))))"
proof -
  have "ie_term (layout_idx L ! (i - 1)) = ent_Term (layout_log L ! (i - 1))" if "0 < i" "i \<le> length (layout_log L)"
    using that layout_idx_sel(2) [of L] nth_map [of "i - 1" "layout_idx L" ie_term]
      nth_map [of "i - 1" "layout_log L" ent_Term] by simp
  then show ?thesis
    using lastIndex_ok [OF assms] store_okD(3) [OF assms] by (auto simp: file_Term_def)
qed

section \<open>TruncateSuffix\<close>

lemma layout_split:
  "pos < length (layout_log L) \<Longrightarrow>
   \<exists>L1 n es1 e es2 L2. L = L1 @ (n, es1 @ e # es2) # L2 \<and> pos = length (layout_log L1) + length es1"
proof (induction L arbitrary: pos)
  case (Cons x L)
  obtain n es where x: "x = (n, es)" by (cases x)
  show ?case
  proof (cases "pos < length es")
    case True
    then have "es = take pos es @ es ! pos # drop (Suc pos) es" by (simp add: id_take_nth_drop)
    then show ?thesis using x True
      by (intro exI [of _ "[]"] exI [of _ n] exI [of _ "take pos es"] exI [of _ "es ! pos"]
          exI [of _ "drop (Suc pos) es"] exI [of _ L]) auto
  next
    case False
    then have lt: "pos - length es < length (layout_log L)" using Cons.prems x by auto
    from Cons.IH [OF lt] obtain L1 m es1 e es2 L2
      where "L = L1 @ (m, es1 @ e # es2) # L2" "pos - length es = length (layout_log L1) + length es1"
      by blast
    then show ?thesis using x False
      by (intro exI [of _ "x # L1"] exI [of _ m] exI [of _ es1] exI [of _ e] exI [of _ es2] exI [of _ L2]) auto
  qed
qed simp

lemma remdups_replicate_Suc: "remdups (replicate (Suc k) n) = [n]"
  by (induction k) auto

lemma remdups_snoc_new: "n \<notin> set xs \<Longrightarrow> remdups (xs @ replicate (Suc k) n) = remdups xs @ [n]"
  using remdups_replicate_Suc [of k n] by (induction xs) auto

lemma firsts_block: "n \<notin> set xs \<Longrightarrow> 0 < k \<Longrightarrow> firsts (replicate k n @ xs) = n # firsts xs"
  using remdups_snoc_new [of n "rev xs" "k - 1"] by (simp add: firsts_def)

lemma layout_idx_segments: "map ie_segment (layout_idx L) = concat (map (\<lambda>(n, es). replicate (length es) n) L)"
  by (induction L) (auto simp: seg_idx_sel)

lemma set_layout_segments: "ie_segment ` set (layout_idx L) \<subseteq> fst ` set L"
proof -
  have "ie_segment ` set (layout_idx L) = set (map ie_segment (layout_idx L))" by simp
  also have "\<dots> \<subseteq> fst ` set L" unfolding layout_idx_segments by (induction L) auto
  finally show ?thesis .
qed

lemma firsts_layout: "distinct (map fst L) \<Longrightarrow> all_filled L \<Longrightarrow> firsts (map ie_segment (layout_idx L)) = map fst L"
proof (induction L)
  case (Cons x L)
  obtain n es where x: "x = (n, es)" by (cases x)
  have "n \<notin> set (map ie_segment (layout_idx L))" using Cons.prems x set_layout_segments [of L] by auto
  then show ?case using Cons x firsts_block [of n "map ie_segment (layout_idx L)" "length es"]
    by (auto simp: seg_idx_sel)
qed (simp add: firsts_def)

lemma removeSegs_os:
  assumes "distinct ns" and "\<forall>n \<in> set ns. map_of (dk_names (fst_fs s)) n \<noteq> None"
  shows "\<exists>ns'. removeSegs os_ops tf ns s = (Inr (), s\<lparr>fst_fs := fst_fs s\<lparr>dk_names := ns'\<rparr>\<rparr>) \<and>
    map_of ns' = (\<lambda>m. if m \<in> set ns then None else map_of (dk_names (fst_fs s)) m)"
  using assms
proof (induction ns arbitrary: s)
  case Nil
  then show ?case by (intro exI [of _ "dk_names (fst_fs s)"]) (simp add: io_ret_def)
next
  case (Cons n ns)
  let ?s = "s\<lparr>fst_fs := (fst_fs s)\<lparr>dk_names := AList.delete n (dk_names (fst_fs s))\<rparr>\<rparr>"
  have "\<exists>ns'. removeSegs os_ops tf ns ?s = (Inr (), ?s\<lparr>fst_fs := fst_fs ?s\<lparr>dk_names := ns'\<rparr>\<rparr>) \<and>
    map_of ns' = (\<lambda>m. if m \<in> set ns then None else map_of (dk_names (fst_fs ?s)) m)"
    using Cons.prems by (intro Cons.IH) (auto simp: delete_conv')
  moreover have "on_fs (os_Remove n) s = (Inr (), ?s)"
    using Cons.prems by (simp add: on_fs_def os_Remove_def)
  ultimately show ?case by (auto simp: io_bind_def io_join_def delete_conv' fun_eq_iff)
qed

text \<open>The disk part of the call, from the segment cut at \<open>es1\<close> and the later segments \<open>L2\<close>.\<close>

lemma cut_disk:
  assumes "clean_but {} d" and "files d n = Some (seg_bytes (es1 @ es2))" and "map_of (dk_names d) n = Some f"
  obtains d1 d2 where "os_Truncate f (length (seg_bytes es1)) d = (Inr (), d1)" "os_Sync f d1 = (Inr (), d2)"
    "clean_but {} d2" "dk_names d2 = dk_names d" "files d2 = (files d)(n \<mapsto> seg_bytes es1)"
proof -
  have le: "length (seg_bytes es1) \<le> length (seg_bytes (es1 @ es2))" by (simp add: seg_bytes_def)
  have cut: "take (length (seg_bytes es1)) (seg_bytes (es1 @ es2)) = seg_bytes es1" by (simp add: seg_bytes_def)
  from os_Truncate_step [OF assms(1,3,2) le] obtain d1 where d1: "os_Truncate f (length (seg_bytes es1)) d = (Inr (), d1)"
    "clean_but {n} d1" "dk_names d1 = dk_names d" "files d1 = (files d)(n \<mapsto> seg_bytes es1)"
    unfolding cut by auto
  have nf: "map_of (dk_names d1) n = Some f" using d1(3) assms(3) by simp
  from os_Sync_step [OF d1(2) nf] d1 show ?thesis by (auto intro: that)
qed

lemma clean_remove:
  assumes "clean_but {} d" and "map_of ns' = (\<lambda>m. if m \<in> A then None else map_of (dk_names d) m)"
  shows "clean_but {} (d\<lparr>dk_names := ns', dk_safe_names := ns'\<rparr>)"
    and "files (d\<lparr>dk_names := ns'\<rparr>) = (\<lambda>m. if m \<in> A then None else files d m)"
proof -
  have ok: "names_ok d" using assms(1) by (rule clean_but_names)
  have "names_ok (d\<lparr>dk_names := ns', dk_safe_names := ns'\<rparr>)"
    by (intro names_okI) (auto simp: assms(2) split: if_splits intro: names_ok_bound [OF ok] dest: names_ok_same [OF ok])
  then show "clean_but {} (d\<lparr>dk_names := ns', dk_safe_names := ns'\<rparr>)"
    using assms by (auto simp: clean_but_def split: if_splits)
  show "files (d\<lparr>dk_names := ns'\<rparr>) = (\<lambda>m. if m \<in> A then None else files d m)"
    by (auto simp: files_def assms(2) fun_eq_iff)
qed

lemma truncate_plan:
  assumes "layout_ok (L1 @ (n, es1 @ e # es2) # L2)" and "all_filled L2" and "pos = length (layout_log L1) + length es1"
  defines "idx \<equiv> layout_idx (L1 @ (n, es1 @ e # es2) # L2)"
  shows "ie_segment (idx ! pos) = n" and "ie_offset (idx ! pos) - 8 = length (seg_bytes es1)"
    and "firsts (filter (\<lambda>m. m \<noteq> n) (map ie_segment (drop pos idx))) = map fst L2"
    and "take pos idx = layout_idx (L1 @ [(n, es1)])"
    and "length (filter (\<lambda>ie. ie_segment ie = n) (take pos idx)) = length es1"
proof -
  let ?off = "segHeaderLen + length (concat (map rec_bytes es1))"
  have idx: "idx = layout_idx L1 @ seg_idx n segHeaderLen es1 @ seg_idx n ?off (e # es2) @ layout_idx L2"
    by (simp add: idx_def seg_idx_append)
  have dist: "distinct (map fst L2)" "n \<notin> fst ` set L2" "n \<notin> fst ` set L1"
    using layout_ok_distinct [OF assms(1)] by auto
  have drop: "drop pos idx = seg_idx n ?off (e # es2) @ layout_idx L2"
    and take: "take pos idx = layout_idx L1 @ seg_idx n segHeaderLen es1"
    by (simp_all add: idx assms(3))
  have at: "idx ! pos = hd (seg_idx n ?off (e # es2))"
    using drop by (metis append_Cons hd_append2 hd_drop_conv_nth length_seg_idx linorder_not_le drop_all
        list.distinct(1) list.sel(1) seg_idx.simps(2))
  show "ie_segment (idx ! pos) = n" "ie_offset (idx ! pos) - 8 = length (seg_bytes es1)"
    by (simp_all add: at seg_bytes_def)
  have "filter (\<lambda>m. m \<noteq> n) (map ie_segment (layout_idx L2)) = map ie_segment (layout_idx L2)"
    using set_layout_segments [of L2] dist(2) by (auto simp: filter_id_conv)
  then have "filter (\<lambda>m. m \<noteq> n) (map ie_segment (drop pos idx)) = map ie_segment (layout_idx L2)"
    unfolding drop map_append filter_append seg_idx_sel(3) by simp
  then show "firsts (filter (\<lambda>m. m \<noteq> n) (map ie_segment (drop pos idx))) = map fst L2"
    using firsts_layout [OF dist(1) assms(2)] by simp
  show "take pos idx = layout_idx (L1 @ [(n, es1)])" by (simp add: take)
  have "filter (\<lambda>ie. ie_segment ie = n) (layout_idx L1) = []"
    using set_layout_segments [of L1] dist(3) by (auto simp: filter_empty_conv)
  moreover have "\<forall>ie \<in> set (seg_idx n segHeaderLen es1). ie_segment ie = n"
    using seg_idx_sel(3) [of n segHeaderLen es1] by (metis image_eqI in_set_replicate set_map)
  ultimately show "length (filter (\<lambda>ie. ie_segment ie = n) (take pos idx)) = length es1"
    by (simp add: take)
qed

lemma layout_ok_cut:
  assumes "layout_ok (L1 @ (n, es1 @ es2) # L2)"
  shows "layout_ok (L1 @ [(n, es1)])"
  using assms by (auto simp: layout_ok_def segs_from_append contiguous_from_append)

lemma file_TruncateSuffix_ok:
  assumes "store_ok s L" and "all_filled L" and "1 \<le> from" and "from \<le> length (layout_log L)"
  obtains s' L' where "file_TruncateSuffix os_ops s from = (None, s')" "store_ok s' L'"
    "layout_log L' = take (from - 1) (layout_log L)" "keeps_state s s'"
proof -
  note D = store_okD [OF assms(1)]
  obtain pos where Suc: "from = Suc pos" using assms(3) by (cases "from") auto
  have pos: "pos < length (layout_log L)" using assms(4) Suc by simp
  have len: "length (fst_idx s) = length (layout_log L)" by (simp add: D(3))
  from layout_split [OF pos] obtain L1 n es1 e es2 L2
    where L: "L = L1 @ (n, es1 @ e # es2) # L2" and p: "pos = length (layout_log L1) + length es1" by blast
  note plan = truncate_plan [OF D(5) [unfolded L] _ p, folded L D(3)]
  have fill: "all_filled L2" and dist: "distinct (map fst L)" using assms(2) L layout_ok_distinct [OF D(5)] by auto
  have fl: "files (fst_fs s) n = Some (seg_bytes (es1 @ e # es2))"
    and fl2: "\<forall>m \<in> fst ` set L2. files (fst_fs s) m \<noteq> None" using D(4) L by (auto simp: on_disk_def)
  then obtain f where f: "map_of (dk_names (fst_fs s)) n = Some f" by (auto simp: files_def)
  obtain g where g: "fst_activeFile s = Some g" using D(10) L by (auto simp: active_ok_def)
  obtain d1 d2 where d: "os_Truncate f (length (seg_bytes es1)) (fst_fs s) = (Inr (), d1)" "os_Sync f d1 = (Inr (), d2)"
    "clean_but {} d2" "dk_names d2 = dk_names (fst_fs s)" "files d2 = (files (fst_fs s))(n \<mapsto> seg_bytes es1)"
    by (rule cut_disk [OF D(2) fl f])
  let ?s2 = "s\<lparr>fst_fs := d2, fst_activeFile := None\<rparr>"
  have "\<exists>ns. removeSegs os_ops f (map fst L2) ?s2 = (Inr (), ?s2\<lparr>fst_fs := fst_fs ?s2\<lparr>dk_names := ns\<rparr>\<rparr>) \<and>
      map_of ns = (\<lambda>m. if m \<in> set (map fst L2) then None else map_of (dk_names (fst_fs ?s2)) m)"
    using dist L fl2 d(4) by (intro removeSegs_os) (auto simp: files_def)
  then obtain ns where ns: "removeSegs os_ops f (map fst L2) ?s2 = (Inr (), s\<lparr>fst_activeFile := None, fst_fs := d2\<lparr>dk_names := ns\<rparr>\<rparr>)"
      "map_of ns = (\<lambda>m. if m \<in> fst ` set L2 then None else map_of (dk_names d2) m)"
    by (auto cong: if_cong)
  let ?d = "d2\<lparr>dk_names := ns, dk_safe_names := ns\<rparr>"
  note clean = clean_remove [OF d(3) ns(2)]
  let ?s = "s\<lparr>fst_activeFile := Some f, fst_fs := ?d, fst_idx := take pos (fst_idx s), fst_active := n, fst_activeCount := length es1\<rparr>"
  have run: "file_TruncateSuffix os_ops s from = (None, ?s)"
    using plan(1,2,3,5) [OF fill] lastIndex_ok [OF assms(1)] pos f g d(1,2) ns(1) len
    by (simp add: Suc file_TruncateSuffix_def file_TruncateSuffix_io_def truncateFrom_def io_result_def Let_def io_defs on_fs_def
        os_OpenAppend_def os_Open_def os_Close_def os_SyncDir_def recHeaderLen_def)
  have nL: "n \<notin> fst ` set L1" "n \<notin> fst ` set L2" "\<forall>m \<in> fst ` set L1. m \<notin> fst ` set L2" using dist L by auto
  have "on_disk ?d (L1 @ [(n, es1)])"
    using D(4) nL by (auto simp: on_disk_def clean(2) d(5) L image_iff)
  then have "store_ok ?s (L1 @ [(n, es1)])"
    using clean(1) clean_but_mono [OF clean(1)] layout_ok_cut [OF D(5) [unfolded L]] D(11) plan(4) [OF fill] nL f
    by (simp add: store_ok_def store_mid_def active_ok_def ns(2) d(4))
  moreover have "\<forall>m \<in> fst ` set L. has_suffix segSuffix m" using layout_ok_suffix [OF D(5)] by blast
  then have "keeps_state s ?s" using L by (auto simp: keeps_state_def clean(2) d(5))
  moreover have "layout_log (L1 @ [(n, es1)]) = take (from - 1) (layout_log L)"
    using p by (simp add: L Suc)
  ultimately show ?thesis using run that by blast
qed

section \<open>HardState and snapshot\<close>

lemma store_ok_state_file:
  assumes "store_ok s L" and "clean_but {} d" and "files d = (files (fst_fs s))(tmp := None, final \<mapsto> bs)"
    and "\<forall>n. n \<noteq> tmp \<longrightarrow> n \<noteq> final \<longrightarrow> map_of (dk_names d) n = map_of (dk_names (fst_fs s)) n"
    and "\<not> has_suffix segSuffix tmp" and "\<not> has_suffix segSuffix final"
  shows "store_ok (s\<lparr>fst_fs := d\<rparr>) L"
proof -
  note D = store_okD [OF assms(1)]
  have seg: "n \<noteq> tmp \<and> n \<noteq> final" if "n \<in> fst ` set L" for n
    using layout_ok_suffix [OF D(5) that] assms(5,6) by auto
  have "on_disk d L" using D(4) seg assms(3,5,6) by (auto simp: on_disk_def)
  moreover have "active_ok (s\<lparr>fst_fs := d\<rparr>) L"
    using D(10) seg assms(4) by (auto simp: active_ok_def)
  ultimately show ?thesis
    using assms(2) clean_but_mono [OF assms(2)] D by (simp add: store_ok_def store_mid_def)
qed

text \<open>What the store holds besides its log.\<close>

definition hs_on :: "disk \<Rightarrow> goerr + hardstate" where
  "hs_on d = fst (file_LoadHardState_io os_ops d)"

definition snap_on :: "disk \<Rightarrow> goerr + snapshot" where
  "snap_on d = fst (file_LoadSnapshot_io os_ops d)"

lemma state_file_names [simp]:
  "hardStateTmpFile \<noteq> hardStateFile" "snapshotTmpFile \<noteq> snapshotFile" "hardStateFile \<noteq> hardStateTmpFile"
  "snapshotFile \<noteq> snapshotTmpFile" "snapshotFile \<noteq> hardStateFile" "snapshotFile \<noteq> hardStateTmpFile"
  "hardStateFile \<noteq> snapshotFile" "hardStateFile \<noteq> snapshotTmpFile"
  by (simp_all add: hardStateFile_def hardStateTmpFile_def snapshotFile_def snapshotTmpFile_def)

lemma keeps_state_on: "keeps_state s s' \<Longrightarrow> hs_on (fst_fs s') = hs_on (fst_fs s) \<and> snap_on (fst_fs s') = snap_on (fst_fs s)"
  by (simp add: keeps_state_def hs_on_def snap_on_def LoadHardState_os LoadSnapshot_os)

lemma file_SaveHardState_ok:
  assumes "store_ok s L" and "hardstate_fits hs"
  obtains s' where "file_SaveHardState os_ops s hs = (None, s')" "store_ok s' L"
    "hs_on (fst_fs s') = Inr hs" "snap_on (fst_fs s') = snap_on (fst_fs s)"
proof -
  obtain d where d: "file_SaveHardState_io os_ops hs (fst_fs s) = (Inr (), d)" "clean_but {} d"
    "files d = (files (fst_fs s))(hardStateTmpFile := None, hardStateFile \<mapsto> encodeHardState hs)"
    "\<forall>n. n \<noteq> hardStateTmpFile \<longrightarrow> n \<noteq> hardStateFile \<longrightarrow> map_of (dk_names d) n = map_of (dk_names (fst_fs s)) n"
    unfolding SaveHardState_replaces
    by (rule replace_file_os [OF store_okD(2) [OF assms(1)], of hardStateTmpFile hardStateFile]) auto
  have "hs_on d = Inr hs" "snap_on d = snap_on (fst_fs s)"
    using d(3) decode_encode_hardstate [OF assms(2)]
    by (simp_all add: hs_on_def snap_on_def LoadHardState_os LoadSnapshot_os decode_file_def)
  then show ?thesis
    using store_ok_state_file [OF assms(1) d(2-4)] d(1)
    by (intro that [of "s\<lparr>fst_fs := d\<rparr>"]) (simp_all add: file_SaveHardState_def on_fs_def io_result_def)
qed

lemma file_SaveSnapshot_ok:
  assumes "store_ok s L" and "snapshot_fits sn"
  obtains s' where "file_SaveSnapshot os_ops s sn = (None, s')" "store_ok s' L"
    "snap_on (fst_fs s') = Inr sn" "hs_on (fst_fs s') = hs_on (fst_fs s)"
proof -
  obtain d where d: "file_SaveSnapshot_io os_ops sn (fst_fs s) = (Inr (), d)" "clean_but {} d"
    "files d = (files (fst_fs s))(snapshotTmpFile := None, snapshotFile \<mapsto> encodeSnapshot sn)"
    "\<forall>n. n \<noteq> snapshotTmpFile \<longrightarrow> n \<noteq> snapshotFile \<longrightarrow> map_of (dk_names d) n = map_of (dk_names (fst_fs s)) n"
    unfolding SaveSnapshot_replaces
    by (rule replace_file_os [OF store_okD(2) [OF assms(1)], of snapshotTmpFile snapshotFile]) auto
  have "snap_on d = Inr sn" "hs_on d = hs_on (fst_fs s)"
    using d(3) decode_encode_snapshot [OF assms(2)]
    by (simp_all add: hs_on_def snap_on_def LoadHardState_os LoadSnapshot_os decode_file_def)
  then show ?thesis
    using store_ok_state_file [OF assms(1) d(2-4)] d(1)
    by (intro that [of "s\<lparr>fst_fs := d\<rparr>"]) (simp_all add: file_SaveSnapshot_def on_fs_def io_result_def)
qed

section \<open>Recovery\<close>

lemma scanOne_os:
  assumes "clean_but {} (fst_fs s)" and "files (fst_fs s) n = Some (seg_bytes es @ t)" and "torn t"
    and "\<forall>e \<in> set es. entry_fits e"
  obtains d where "scanOne os_ops n s = (Inr (seg_recs segHeaderLen es, length (seg_bytes es)), s\<lparr>fst_fs := d\<rparr>)"
    "clean_but {} d" "dk_names d = dk_names (fst_fs s)" "files d = (files (fst_fs s))(n \<mapsto> seg_bytes es)"
proof -
  obtain f where f: "map_of (dk_names (fst_fs s)) n = Some f" and data: "dk_data (fst_fs s) f = seg_bytes es @ t"
    using assms(2) by (auto simp: files_def)
  note scan = scanSegment_records [OF data assms(4,3)]
  note run = scanOne_def io_defs on_fs_def os_OpenAppend_def os_Open_def os_Size_def os_Close_def
  show ?thesis
  proof (cases "t = []")
    case True
    have "scanOne os_ops n s = (Inr (seg_recs segHeaderLen es, length (seg_bytes es)), s\<lparr>fst_fs := fst_fs s\<rparr>)"
      using f data scan True by (simp add: run)
    then show ?thesis using assms(1,2) True by (intro that [of "fst_fs s"]) auto
  next
    case False
    obtain d1 where d1: "os_Truncate f (length (seg_bytes es)) (fst_fs s) = (Inr (), d1)" "clean_but {n} d1"
      "dk_names d1 = dk_names (fst_fs s)" "files d1 = (files (fst_fs s))(n \<mapsto> seg_bytes es)"
      using os_Truncate_step [OF assms(1) f assms(2), of "length (seg_bytes es)"] by auto
    obtain d2 where d2: "os_Sync f d1 = (Inr (), d2)" "clean_but {} d2" "dk_names d2 = dk_names d1" "files d2 = files d1"
      using os_Sync_step [OF d1(2), of n f] d1(3) f by auto
    have same: "d2\<lparr>dk_safe_names := dk_names d2\<rparr> = d2" using d2(2) by (cases d2) (simp add: clean_but_def)
    have "scanOne os_ops n s = (Inr (seg_recs segHeaderLen es, length (seg_bytes es)), s\<lparr>fst_fs := d2\<rparr>)"
      using f data scan False d1(1) d2(1) same by (simp add: run os_SyncDir_def)
    then show ?thesis using d1 d2 by (intro that [of d2]) auto
  qed
qed

lemma recoverSegs_os:
  assumes "clean_but {} (fst_fs s)" and "distinct (map fst L)" and "\<forall>e \<in> set (layout_log L). entry_fits e"
    and "\<forall>x \<in> set L. \<exists>t. files (fst_fs s) (fst x) = Some (seg_bytes (snd x) @ t) \<and> torn t"
  shows "\<exists>d. recoverSegs os_ops (map fst L) s = (Inr (), s\<lparr>fst_fs := d, fst_idx := fst_idx s @ layout_idx L,
      fst_active := (if L = [] then fst_active s else fst (last L)),
      fst_activeCount := (if L = [] then fst_activeCount s else length (snd (last L)))\<rparr>) \<and>
    clean_but {} d \<and> dk_names d = dk_names (fst_fs s) \<and>
    (\<forall>x \<in> set L. files d (fst x) = Some (seg_bytes (snd x))) \<and>
    (\<forall>n. n \<notin> fst ` set L \<longrightarrow> files d n = files (fst_fs s) n)"
  using assms
proof (induction L arbitrary: s)
  case Nil
  then show ?case by (intro exI [of _ "fst_fs s"]) (simp add: io_ret_def)
next
  case (Cons x L)
  obtain n es where x: "x = (n, es)" by (cases x)
  with Cons.prems(4) obtain t where t: "files (fst_fs s) n = Some (seg_bytes es @ t)" "torn t" by auto
  have fits: "\<forall>e \<in> set es. entry_fits e" using Cons.prems(3) x by auto
  obtain d1 where d1: "scanOne os_ops n s = (Inr (seg_recs segHeaderLen es, length (seg_bytes es)), s\<lparr>fst_fs := d1\<rparr>)"
    "clean_but {} d1" "dk_names d1 = dk_names (fst_fs s)" "files d1 = (files (fst_fs s))(n \<mapsto> seg_bytes es)"
    by (rule scanOne_os [OF Cons.prems(1) t fits])
  let ?s = "s\<lparr>fst_fs := d1, fst_idx := fst_idx s @ seg_idx n segHeaderLen es, fst_active := n, fst_activeCount := length es\<rparr>"
  have step: "recoverSegs os_ops (map fst (x # L)) s = recoverSegs os_ops (map fst L) ?s"
    using d1(1) x by (simp add: io_bind_def seg_recs_idx)
  have nL: "n \<notin> fst ` set L" using Cons.prems(2) x by simp
  have "\<forall>y \<in> set L. \<exists>t. files (fst_fs ?s) (fst y) = Some (seg_bytes (snd y) @ t) \<and> torn t"
    using Cons.prems(4) nL d1(4) by (auto simp: image_iff)
  from Cons.IH [OF _ _ _ this] obtain d where d: "recoverSegs os_ops (map fst L) ?s =
      (Inr (), ?s\<lparr>fst_fs := d, fst_idx := fst_idx ?s @ layout_idx L,
        fst_active := (if L = [] then fst_active ?s else fst (last L)),
        fst_activeCount := (if L = [] then fst_activeCount ?s else length (snd (last L)))\<rparr>)"
    "clean_but {} d" "dk_names d = dk_names d1" "\<forall>x \<in> set L. files d (fst x) = Some (seg_bytes (snd x))"
    "\<forall>n. n \<notin> fst ` set L \<longrightarrow> files d n = files d1 n"
    using Cons.prems(2,3) d1(2) by auto
  show ?case unfolding step using d d1 x nL by (intro exI [of _ d]) (auto simp: image_iff)
qed

lemma recovered_names:
  assumes "layout_ok L" and "\<forall>x \<in> set L. files d (fst x) \<noteq> None"
    and "\<forall>n. has_suffix segSuffix n \<longrightarrow> files d n \<noteq> None \<longrightarrow> n \<in> fst ` set L"
  shows "filter (has_suffix segSuffix) (sort (remdups (map fst (dk_names d)))) = map fst L"
proof (rule sorted_distinct_set_unique)
  show "sorted (map fst L)"
    using segs_from_sorted [of 1 L] assms(1) strict_sorted_iff by (auto simp: layout_ok_def)
  show "distinct (map fst L)" by (rule layout_ok_distinct [OF assms(1)])
  have names: "files d n \<noteq> None \<longleftrightarrow> n \<in> fst ` set (dk_names d)" for n
    by (simp add: files_def map_of_eq_None_iff)
  show "set (filter (has_suffix segSuffix) (sort (remdups (map fst (dk_names d))))) = set (map fst L)"
    using assms(2,3) layout_ok_suffix [OF assms(1)] by (auto simp flip: names)
qed (auto simp: sorted_filter [of "\<lambda>x. x", simplified])

text \<open>
  Opening: from a durable directory whose segments hold the layout, each possibly with a torn
  tail, the store comes up with exactly that layout; the tails are gone.
\<close>

lemma openWith_os:
  assumes "clean_but {} d" and "layout_ok L"
    and "\<forall>x \<in> set L. \<exists>t. files d (fst x) = Some (seg_bytes (snd x) @ t) \<and> torn t"
    and "\<forall>n. has_suffix segSuffix n \<longrightarrow> files d n \<noteq> None \<longrightarrow> n \<in> fst ` set L"
  obtains s where "openWith os_ops d = Inr s" "store_ok s L"
    "\<forall>n. \<not> has_suffix segSuffix n \<longrightarrow> files (fst_fs s) n = files d n"
proof -
  let ?s0 = "\<lparr>fst_fs = d, fst_idx = [], fst_active = '''', fst_activeFile = None,
              fst_activeCount = 0, fst_max = defaultMaxEntriesPerSegment\<rparr>"
  have fits: "\<forall>e \<in> set (layout_log L). entry_fits e" using assms(2) by (simp add: layout_ok_def)
  have names: "filter (has_suffix segSuffix) (sort (remdups (map fst (dk_names d)))) = map fst L"
    using assms(3,4) by (intro recovered_names [OF assms(2)]) auto
  have "\<forall>x \<in> set L. \<exists>t. files (fst_fs ?s0) (fst x) = Some (seg_bytes (snd x) @ t) \<and> torn t" using assms(3) by simp
  from recoverSegs_os [OF _ layout_ok_distinct [OF assms(2)] fits this] obtain d' where
    r: "recoverSegs os_ops (map fst L) ?s0 = (Inr (), ?s0\<lparr>fst_fs := d', fst_idx := layout_idx L,
        fst_active := (if L = [] then '''' else fst (last L)),
        fst_activeCount := (if L = [] then 0 else length (snd (last L)))\<rparr>)"
    and d': "clean_but {} d'" "dk_names d' = dk_names d" "\<forall>x \<in> set L. files d' (fst x) = Some (seg_bytes (snd x))"
      "\<forall>n. n \<notin> fst ` set L \<longrightarrow> files d' n = files d n"
    using assms(1) by auto
  have disk: "on_disk d' L" using d'(3,4) assms(4) by (fastforce simp: on_disk_def)
  have keep: "\<forall>n. \<not> has_suffix segSuffix n \<longrightarrow> files d' n = files d n"
    using d'(4) layout_ok_suffix [OF assms(2)] by blast
  have read: "io_wrap w (on_fs (v_ReadDir os_ops)) ?s0 = (Inr (sort (remdups (map fst (dk_names d)))), ?s0)" for w
    by (simp add: io_wrap_def on_fs_def os_ReadDir_def)
  have max: "0 < defaultMaxEntriesPerSegment" by (simp add: defaultMaxEntriesPerSegment_def)
  show ?thesis
  proof (cases "L = []")
    case True
    let ?s = "?s0\<lparr>fst_fs := d'\<rparr>"
    have "openWith os_ops d = Inr ?s"
      using r read names True by (simp add: openWith_def recover_def io_bind_def)
    moreover have "store_ok ?s L" using True d'(1) disk assms(2) max by (simp add: store_ok_def store_mid_def active_ok_def)
    ultimately show ?thesis using keep that by force
  next
    case False
    then have act: "fst (last L) \<in> fst ` set L" by simp
    have ne: "fst (last L) \<noteq> ''''" using layout_ok_suffix [OF assms(2) act] by (auto simp: has_suffix_def segSuffix_def)
    obtain f where f: "map_of (dk_names d') (fst (last L)) = Some f"
      using d'(3) act by (auto simp: files_def)
    let ?s = "?s0\<lparr>fst_fs := d', fst_idx := layout_idx L, fst_active := fst (last L),
        fst_activeCount := length (snd (last L)), fst_activeFile := Some f\<rparr>"
    have "openWith os_ops d = Inr ?s"
      using r read names False ne f
      by (simp add: openWith_def recover_def io_bind_def io_wrap_def on_fs_def os_OpenAppend_def os_Open_def)
    moreover have "store_ok ?s L"
      using False d'(1) clean_but_mono [OF d'(1)] disk assms(2) max f by (simp add: store_ok_def store_mid_def active_ok_def)
    ultimately show ?thesis using keep that by force
  qed
qed

section \<open>The same answers as the in-RAM store\<close>

text \<open>A call of the \<^verbatim>\<open>Storage\<close> interface, or losing power and opening the directory again.\<close>

datatype store_call =
  CAppend "entry list" | CTruncate nat | CEntries nat nat | CTerm nat | CFirst | CLast
  | CSaveHS hardstate | CLoadHS | CSaveSnap snapshot | CLoadSnap | CReopen

text \<open>Error texts are not compared.\<close>

datatype store_reply = RFail | RDone | REntries "entry list" | RNum nat | RHs hardstate | RSnap snapshot

definition done_reply :: "goerr option \<times> 's \<Rightarrow> store_reply \<times> 's" where
  "done_reply r = (if fst r = None then RDone else RFail, snd r)"

definition read_reply :: "('a \<Rightarrow> store_reply) \<Rightarrow> 's \<Rightarrow> goerr + 'a \<Rightarrow> store_reply \<times> 's" where
  "read_reply C s r = (case r of Inl _ \<Rightarrow> RFail | Inr x \<Rightarrow> C x, s)"

fun store_do :: "'s storage_ops \<Rightarrow> ('s \<Rightarrow> store_reply \<times> 's) \<Rightarrow> store_call \<Rightarrow> 's \<Rightarrow> store_reply \<times> 's" where
  "store_do ops reopen (CAppend es) s = done_reply (op_Append ops s es)"
| "store_do ops reopen (CTruncate i) s = done_reply (op_TruncateSuffix ops s i)"
| "store_do ops reopen (CEntries lo hi) s = read_reply REntries s (op_Entries ops s lo hi)"
| "store_do ops reopen (CTerm i) s = read_reply RNum s (op_Term ops s i)"
| "store_do ops reopen CFirst s = read_reply RNum s (op_FirstIndex ops s)"
| "store_do ops reopen CLast s = read_reply RNum s (op_LastIndex ops s)"
| "store_do ops reopen (CSaveHS hs) s = done_reply (op_SaveHardState ops s hs)"
| "store_do ops reopen CLoadHS s = read_reply RHs s (op_LoadHardState ops s)"
| "store_do ops reopen (CSaveSnap sn) s = done_reply (op_SaveSnapshot ops s sn)"
| "store_do ops reopen CLoadSnap s = read_reply RSnap s (op_LoadSnapshot ops s)"
| "store_do ops reopen CReopen s = reopen s"

fun store_run :: "'s storage_ops \<Rightarrow> ('s \<Rightarrow> store_reply \<times> 's) \<Rightarrow> store_call list \<Rightarrow> 's \<Rightarrow> store_reply list \<times> 's" where
  "store_run ops reopen [] s = ([], s)"
| "store_run ops reopen (c # cs) s =
     (case store_do ops reopen c s of (r, s') \<Rightarrow>
      case store_run ops reopen cs s' of (rs, s'') \<Rightarrow> (r # rs, s''))"

definition file_reopen :: "disk file_storage \<Rightarrow> store_reply \<times> disk file_storage" where
  "file_reopen s = (case openWith os_ops (crash (fst_fs s)) of Inl _ \<Rightarrow> (RFail, s) | Inr s' \<Rightarrow> (RDone, s'))"

definition mem_reopen :: "mem_storage \<Rightarrow> store_reply \<times> mem_storage" where
  "mem_reopen m = (RDone, m)"

text \<open>
  What a call has to respect: values that fit their fields, an index with a sixteen-digit
  name, and no truncation while the active segment is empty.
\<close>

fun call_fits :: "disk file_storage \<Rightarrow> store_call \<Rightarrow> bool" where
  "call_fits s (CAppend es) = (list_all entry_fits es \<and> lastIndexLocked s + length es + 1 < name_limit)"
| "call_fits s (CTruncate i) = (1 \<le> i \<and> i \<le> lastIndexLocked s \<longrightarrow> 0 < fst_activeCount s)"
| "call_fits s (CSaveHS hs) = hardstate_fits hs"
| "call_fits s (CSaveSnap sn) = snapshot_fits sn"
| "call_fits s _ = True"

fun calls_fit :: "disk file_storage \<Rightarrow> store_call list \<Rightarrow> bool" where
  "calls_fit s [] = True"
| "calls_fit s (c # cs) = (call_fits s c \<and> calls_fit (snd (store_do (file_ops os_ops) file_reopen c s)) cs)"

definition file_rep :: "disk file_storage \<Rightarrow> mem_storage \<Rightarrow> bool" where
  "file_rep s m \<longleftrightarrow> (\<exists>L. store_ok s L \<and> mem_entries m = layout_log L) \<and>
     hs_on (fst_fs s) = Inr (mem_hs m) \<and> snap_on (fst_fs s) = Inr (mem_snap m)"

lemma file_repE:
  assumes "file_rep s m"
  obtains L where "store_ok s L" "mem_entries m = layout_log L" "hs_on (fst_fs s) = Inr (mem_hs m)"
    "snap_on (fst_fs s) = Inr (mem_snap m)" "mem_wf m"
  using assms store_okD(6,7) by (fastforce simp: file_rep_def mem_wf_def)

lemma active_filled: "store_ok s L \<Longrightarrow> 0 < fst_activeCount s \<Longrightarrow> all_filled L"
proof (cases L rule: rev_cases)
  case (snoc L0 x)
  assume ok: "store_ok s L" and c: "0 < fst_activeCount s"
  then show ?thesis using store_mid_active [of s L0 "fst x" "snd x"] store_okD(1) [OF ok] snoc by auto
qed simp

definition answers_alike :: "disk file_storage \<Rightarrow> mem_storage \<Rightarrow> store_call \<Rightarrow> bool" where
  "answers_alike s m c \<longleftrightarrow>
     fst (store_do (file_ops os_ops) file_reopen c s) = fst (store_do mem_ops mem_reopen c m) \<and>
     file_rep (snd (store_do (file_ops os_ops) file_reopen c s)) (snd (store_do mem_ops mem_reopen c m))"

lemma append_alike:
  assumes "file_rep s m" and "call_fits s (CAppend es)"
  shows "answers_alike s m (CAppend es)"
proof -
  obtain L where L: "store_ok s L" "mem_entries m = layout_log L" "hs_on (fst_fs s) = Inr (mem_hs m)"
    "snap_on (fst_fs s) = Inr (mem_snap m)" "mem_wf m" using assms(1) by (rule file_repE)
  have lim: "length (layout_log L) + length es + 1 < name_limit" and fits: "\<forall>e \<in> set es. entry_fits e"
    using assms(2) lastIndex_ok [OF L(1)] by (simp_all add: list_all_iff)
  have mem: "mem_Append m es = (if contiguous_from (length (layout_log L) + 1) es
     then (None, m\<lparr>mem_entries := layout_log L @ es\<rparr>)
     else (Some (Wrapped ''memory storage: append'' ErrNonContiguous), m))"
    using mem_Append_eq [OF L(5), of es] L(2) lim by simp
  show ?thesis
  proof (cases "contiguous_from (length (layout_log L) + 1) es")
    case True
    obtain s' L' where s': "file_Append os_ops s es = (None, s')" "store_ok s' L'" "layout_log L' = layout_log L @ es"
      "keeps_state s s'" by (rule file_Append_ok [OF L(1) fits lim True])
    then have "file_rep s' (m\<lparr>mem_entries := layout_log L @ es\<rparr>)"
      using L keeps_state_on [OF s'(4)] by (auto simp: file_rep_def)
    then show ?thesis using s'(1) mem True by (simp add: answers_alike_def done_reply_def)
  next
    case False
    then show ?thesis
      using file_Append_rejects [OF L(1) lim False] mem assms(1) by (simp add: answers_alike_def done_reply_def)
  qed
qed

lemma truncate_alike:
  assumes "file_rep s m" and "call_fits s (CTruncate i)"
  shows "answers_alike s m (CTruncate i)"
proof -
  obtain L where L: "store_ok s L" "mem_entries m = layout_log L" "hs_on (fst_fs s) = Inr (mem_hs m)"
    "snap_on (fst_fs s) = Inr (mem_snap m)" "mem_wf m" using assms(1) by (rule file_repE)
  note last = lastIndex_ok [OF L(1)]
  show ?thesis
  proof (cases "1 \<le> i \<and> i \<le> length (layout_log L)")
    case True
    then have "all_filled L" using assms(2) last active_filled [OF L(1)] by simp
    with True obtain s' L' where s': "file_TruncateSuffix os_ops s i = (None, s')" "store_ok s' L'"
      "layout_log L' = take (i - 1) (layout_log L)" "keeps_state s s'"
      using file_TruncateSuffix_ok [OF L(1)] by metis
    then have "file_rep s' (m\<lparr>mem_entries := take (i - 1) (layout_log L)\<rparr>)"
      using L keeps_state_on [OF s'(4)] by (auto simp: file_rep_def)
    then show ?thesis
      using s'(1) True L(2) by (auto simp: answers_alike_def done_reply_def mem_TruncateSuffix_def Let_def)
  next
    case False
    then show ?thesis
      using last L(2) assms(1)
      by (auto simp: answers_alike_def done_reply_def mem_TruncateSuffix_def Let_def file_TruncateSuffix_def
          file_TruncateSuffix_io_def io_result_def)
  qed
qed

lemma reopen_alike: "file_rep s m \<Longrightarrow> answers_alike s m CReopen"
proof -
  assume "file_rep s m"
  then obtain L where L: "store_ok s L" "mem_entries m = layout_log L" "hs_on (fst_fs s) = Inr (mem_hs m)"
    "snap_on (fst_fs s) = Inr (mem_snap m)" "mem_wf m" by (rule file_repE)
  note D = store_okD [OF L(1)] and cr = crash_clean [OF store_okD(2) [OF L(1)]]
  have "torn []" by (simp add: torn_def)
  then have segs: "\<forall>x \<in> set L. \<exists>t. files (crash (fst_fs s)) (fst x) = Some (seg_bytes (snd x) @ t) \<and> torn t"
    using D(4) cr by (auto simp: on_disk_def intro!: exI [of _ "[]"])
  have rest: "\<forall>n. has_suffix segSuffix n \<longrightarrow> files (crash (fst_fs s)) n \<noteq> None \<longrightarrow> n \<in> fst ` set L"
    using D(4) cr by (auto simp: on_disk_def)
  obtain s' where s': "openWith os_ops (crash (fst_fs s)) = Inr s'" "store_ok s' L"
    "\<forall>n. \<not> has_suffix segSuffix n \<longrightarrow> files (fst_fs s') n = files (crash (fst_fs s)) n"
    by (rule openWith_os [OF conjunct1 [OF cr] D(5) segs rest])
  have "keeps_state s s'" using s'(3) cr by (simp add: keeps_state_def)
  then have "file_rep s' m" using L s'(2) keeps_state_on by (auto simp: file_rep_def)
  then show ?thesis using s'(1) by (simp add: answers_alike_def file_reopen_def mem_reopen_def)
qed

lemma save_alike:
  assumes "file_rep s m"
  shows "hardstate_fits hs \<Longrightarrow> answers_alike s m (CSaveHS hs)" "snapshot_fits sn \<Longrightarrow> answers_alike s m (CSaveSnap sn)"
proof -
  obtain L where L: "store_ok s L" "mem_entries m = layout_log L" "hs_on (fst_fs s) = Inr (mem_hs m)"
    "snap_on (fst_fs s) = Inr (mem_snap m)" "mem_wf m" using assms by (rule file_repE)
  show "answers_alike s m (CSaveHS hs)" if fits: "hardstate_fits hs"
    by (rule file_SaveHardState_ok [OF L(1) fits])
      (use L in \<open>auto simp: answers_alike_def done_reply_def mem_state_defs file_rep_def\<close>)
  show "answers_alike s m (CSaveSnap sn)" if fits: "snapshot_fits sn"
    by (rule file_SaveSnapshot_ok [OF L(1) fits])
      (use L in \<open>auto simp: answers_alike_def done_reply_def mem_state_defs file_rep_def\<close>)
qed

lemma read_alike:
  assumes "file_rep s m" and "c \<in> {CEntries lo hi, CTerm i, CFirst, CLast, CLoadHS, CLoadSnap}"
  shows "answers_alike s m c"
proof -
  obtain L where L: "store_ok s L" "mem_entries m = layout_log L" "hs_on (fst_fs s) = Inr (mem_hs m)"
    "snap_on (fst_fs s) = Inr (mem_snap m)" "mem_wf m" using assms(1) by (rule file_repE)
  show ?thesis
    using assms L(2-5) lastIndex_ok [OF L(1)] file_Entries_ok [OF L(1)] file_Term_ok [OF L(1)] mem_Entries_eq [OF L(5)]
    by (auto simp: answers_alike_def read_reply_def mem_state_defs file_FirstIndex_def file_LastIndex_def mem_Term_def
        file_LoadHardState_def file_LoadSnapshot_def hs_on_def snap_on_def)
qed

lemma call_alike: "file_rep s m \<Longrightarrow> call_fits s c \<Longrightarrow> answers_alike s m c"
  by (cases c) (simp_all add: append_alike truncate_alike save_alike reopen_alike read_alike)

lemma run_alike:
  "file_rep s m \<Longrightarrow> calls_fit s cs \<Longrightarrow>
   fst (store_run (file_ops os_ops) file_reopen cs s) = fst (store_run mem_ops mem_reopen cs m) \<and>
   file_rep (snd (store_run (file_ops os_ops) file_reopen cs s)) (snd (store_run mem_ops mem_reopen cs m))"
proof (induction cs arbitrary: s m)
  case (Cons c cs)
  then have "answers_alike s m c" using call_alike by simp
  moreover obtain r s' where f: "store_do (file_ops os_ops) file_reopen c s = (r, s')" by fastforce
  moreover obtain r' m' where g: "store_do mem_ops mem_reopen c m = (r', m')" by fastforce
  ultimately have "r = r'" "file_rep s' m'" by (simp_all add: answers_alike_def)
  with Cons.IH [of s' m'] Cons.prems f g show ?case by (simp add: split_beta)
qed simp

end
