(* ===== verification/File_Durable.thy ===== *)
theory File_Durable
  imports File_Refines
begin

text \<open>
  What the durable store promises: it answers like the in-RAM store through any sequence of
  calls and power losses, an \<^verbatim>\<open>Append\<close> cut short at any byte leaves a prefix of its batch,
  and saving the HardState is all or nothing whatever calls fail.
\<close>

section \<open>Injected faults\<close>

text \<open>Call number \<open>k\<close> fails, and does nothing, when \<open>bad k\<close>.\<close>

definition faulty :: "(nat \<Rightarrow> bool) \<Rightarrow> (disk, 'a) io \<Rightarrow> (disk \<times> nat, 'a) io" where
  "faulty bad m v =
     (if bad (snd v) then (Inl (ErrOther ''input/output error''), (fst v, snd v + 1))
      else case m (fst v) of (r, d) \<Rightarrow> (r, (d, snd v + 1)))"

definition fault_ops :: "(nat \<Rightarrow> bool) \<Rightarrow> (disk \<times> nat) vfs_ops" where
  "fault_ops bad =
     \<lparr>v_Open = (\<lambda>n. faulty bad (os_Open n)), v_Create = (\<lambda>n. faulty bad (os_Create n)),
      v_OpenAppend = (\<lambda>n. faulty bad (os_OpenAppend n)), v_Rename = (\<lambda>a b. faulty bad (os_Rename a b)),
      v_SyncDir = faulty bad os_SyncDir, v_Remove = (\<lambda>n. faulty bad (os_Remove n)),
      v_ReadDir = faulty bad os_ReadDir, f_Write = (\<lambda>f p. faulty bad (os_Write f p)),
      f_ReadAt = (\<lambda>f n off v.
         if bad (snd v) then (([], Some (ErrOther ''input/output error'')), (fst v, snd v + 1))
         else case os_ReadAt f n off (fst v) of (r, d) \<Rightarrow> (r, (d, snd v + 1))),
      f_Sync = (\<lambda>f. faulty bad (os_Sync f)), f_Truncate = (\<lambda>f n. faulty bad (os_Truncate f n)),
      f_Close = (\<lambda>f. faulty bad (os_Close f)), f_Size = (\<lambda>f. faulty bad (os_Size f))\<rparr>"

section \<open>Replacing a file is atomic\<close>

lemma crash_agrees:
  assumes "clean_but {} d" and "dk_safe_names d' = dk_names d" and "\<And>g. g \<noteq> f \<Longrightarrow> dk_safe d' g = dk_safe d g"
    and "\<And>m. m \<noteq> tmp \<Longrightarrow> map_of (dk_names d) m \<noteq> Some f" and "m \<noteq> tmp"
  shows "files (crash d') m = files d m"
proof (cases "map_of (dk_names d) m")
  case (Some g)
  then have "g \<noteq> f" using assms(4,5) by blast
  then show ?thesis using assms(1-3) Some by (simp add: files_def crash_def clean_but_def)
qed (simp add: files_def crash_def assms(2))

lemma replace_file_atomic:
  assumes "clean_but {} d" and "tmp \<noteq> final"
    and "replace_file (fault_ops bad) w tmp final bs (d, k) = (r, (d', k'))"
  shows "(\<forall>m. m \<noteq> tmp \<longrightarrow> files (crash d') m = files d m) \<and> r \<noteq> Inr () \<or>
    (\<forall>m. m \<noteq> tmp \<longrightarrow> files (crash d') m = ((files d)(final \<mapsto> bs)) m)"
proof -
  note ok = clean_but_names [OF assms(1)]
  have safe: "dk_safe_names d = dk_names d" using assms(1) by (simp add: clean_but_def)
  obtain f c where c: "os_Create tmp d = (Inr f, c)"
    and n1: "map_of (dk_names c) = (map_of (dk_names d))(tmp \<mapsto> f)"
    and dt: "dk_data c = (dk_data d)(f := [])" and sn: "dk_safe_names c = dk_safe_names d"
    and sf: "\<And>g. g \<noteq> f \<Longrightarrow> dk_safe c g = dk_safe d g"
    and fr: "\<And>m. m \<noteq> tmp \<Longrightarrow> map_of (dk_names d) m \<noteq> Some f"
    by (rule os_Create_named [OF ok, of tmp]) blast
  note run = replace_file_def fault_ops_def faulty_def io_defs os_Write_def os_Sync_def os_Close_def
    os_Rename_def os_SyncDir_def
  consider (whole) "\<forall>i < 6. \<not> bad (k + i)" | (part) "\<exists>i < 6. bad (k + i)" by blast
  then show ?thesis
  proof cases
    case whole
    then have b: "\<not> bad k" "\<not> bad (Suc k)" "\<not> bad (Suc (Suc k))" "\<not> bad (Suc (Suc (Suc k)))"
      "\<not> bad (Suc (Suc (Suc (Suc k))))" "\<not> bad (Suc (Suc (Suc (Suc (Suc k)))))"
      using whole [rule_format, of 0] whole [rule_format, of 1] whole [rule_format, of 2]
        whole [rule_format, of 3] whole [rule_format, of 4] whole [rule_format, of 5] by (simp_all add: numeral_nat)
    obtain d2 where d2: "replace_file os_ops w tmp final bs d = (Inr (), d2)" "clean_but {} d2"
      "files d2 = (files d)(tmp := None, final \<mapsto> bs)"
      by (rule replace_file_os [OF assms(1,2)])
    have "d' = d2" using assms(3) d2(1) b c n1 by (auto simp: run)
    then show ?thesis using crash_clean [OF d2(2)] d2(3) by auto
  next
    case part
    then have some: "bad k \<or> bad (Suc k) \<or> bad (Suc (Suc k)) \<or> bad (Suc (Suc (Suc k))) \<or>
      bad (Suc (Suc (Suc (Suc k)))) \<or> bad (Suc (Suc (Suc (Suc (Suc k)))))"
      by (auto simp: numeral_nat less_Suc_eq)
    have "dk_safe_names d' = dk_names d \<and> (\<forall>g. g \<noteq> f \<longrightarrow> dk_safe d' g = dk_safe d g) \<and> r \<noteq> Inr ()"
      using assms(3) some c n1 sn safe sf by (auto simp: run split: if_splits)
    then show ?thesis using crash_agrees [OF assms(1), of d' f tmp] fr by blast
  qed
qed







section \<open>The store over its life\<close>





text \<open>
  C24: Whatever file-system calls fail while the HardState is saved, after a power loss the
  store loads the old HardState or the new one, and the new one if the call returned without
  an error; the snapshot and the segments are untouched.
\<close>

theorem hardstate_save_atomic:
  assumes "clean_but {} d" and "hardstate_fits hs"
    and "file_SaveHardState_io (fault_ops bad) hs (d, k) = (r, (d', k'))"
  shows "(hs_on (crash d') = hs_on d \<and> r \<noteq> Inr () \<or> hs_on (crash d') = Inr hs) \<and>
    snap_on (crash d') = snap_on d \<and> (\<forall>n. has_suffix segSuffix n \<longrightarrow> files (crash d') n = files d n)"
proof -
  have other: "\<forall>n. has_suffix segSuffix n \<longrightarrow> n \<noteq> hardStateTmpFile \<and> n \<noteq> hardStateFile" by auto
  from replace_file_atomic [OF assms(1) _ assms(3) [unfolded SaveHardState_replaces]] consider
      (old) "\<forall>m. m \<noteq> hardStateTmpFile \<longrightarrow> files (crash d') m = files d m" "r \<noteq> Inr ()"
    | (new) "\<forall>m. m \<noteq> hardStateTmpFile \<longrightarrow> files (crash d') m = ((files d)(hardStateFile \<mapsto> encodeHardState hs)) m"
    by auto
  then show ?thesis
  proof cases
    case old
    then show ?thesis using other by (simp add: hs_on_def snap_on_def LoadHardState_os LoadSnapshot_os)
  next
    case new
    then show ?thesis using other decode_encode_hardstate [OF assms(2)]
      by (simp add: hs_on_def snap_on_def LoadHardState_os LoadSnapshot_os decode_file_def)
  qed
qed

end
