(* ===== verification/File_Runs.thy ===== *)
theory File_Runs
  imports File_Durable Raft_Demo
begin

text \<open>
  Concrete runs of the durable store: the theorems of the store applied to a run, and the
  sequences of calls and faults on which the code does not keep a promise.
\<close>

section \<open>Running the code on whole records\<close>

text \<open>
  The runs use records with one byte of data. Segments are kept as \<open>seg_bytes\<close> of their
  entries, so that no checksum is computed: the lemmas on scanning and reading back apply.
\<close>

definition rec_at :: "nat \<Rightarrow> nat \<Rightarrow> entry" where
  "rec_at i t = \<lparr>ent_Term = t, ent_Index = i, ent_Data = [of_nat i]\<rparr>"

definition demo_hs :: hardstate where
  "demo_hs = \<lparr>hs_CurrentTerm = 2, hs_VotedFor = ''b'', hs_Commit = 1\<rparr>"

lemma rec_at_sel [simp]: "ent_Index (rec_at i t) = i" "ent_Term (rec_at i t) = t" "length (ent_Data (rec_at i t)) = 1"
  by (simp_all add: rec_at_def)

lemma rec_at_fits [simp]: "i < 2 ^ 64 \<Longrightarrow> t < 2 ^ 64 \<Longrightarrow> entry_fits (rec_at i t)"
  by (simp add: entry_fits_def)

lemma segmentName_eq [simp]: "m < name_limit \<Longrightarrow> n < name_limit \<Longrightarrow> segmentName m = segmentName n \<longleftrightarrow> m = n"
  using segmentName_less [of m n] segmentName_less [of n m] by (metis linorder_neqE_nat order_less_irrefl)

lemma segmentName_le [simp]: "m < name_limit \<Longrightarrow> n < name_limit \<Longrightarrow> segmentName m \<le> segmentName n \<longleftrightarrow> m \<le> n"
  using segmentName_less [of m n] segmentName_less [of n m] by (metis leD leI le_less)

lemma segmentName_named [simp]:
  "n < name_limit \<Longrightarrow> segmentName n \<noteq> ''''" "n < name_limit \<Longrightarrow> has_suffix segSuffix (segmentName n)"
  using segmentName_state_file segmentName_suffix by simp_all








declare layout_snoc_entry [simp del]

section \<open>Concrete runs\<close>




theorem hardstate_save_atomic_witness:
  "let (r, (d, k)) = file_SaveHardState_io (fault_ops (\<lambda>k. k = 5)) demo_hs (empty_disk, 0)
   in r \<noteq> Inr () \<and> (hs_on (crash d) = Inr zero_hardstate \<or> hs_on (crash d) = Inr demo_hs)"
proof -
  obtain r d k where run: "file_SaveHardState_io (fault_ops (\<lambda>k. k = 5)) demo_hs (empty_disk, 0) = (r, (d, k))"
    by (metis prod.exhaust)
  have "r \<noteq> Inr ()"
    using run
    by (auto simp: file_SaveHardState_io_def fault_ops_def faulty_def io_defs os_Create_def os_Write_def os_Sync_def
        os_Close_def os_Rename_def empty_disk_def Let_def)
  moreover have "hs_on empty_disk = Inr zero_hardstate"
    by (simp add: hs_on_def LoadHardState_os files_def empty_disk_def decode_file_def)
  moreover have "hardstate_fits demo_hs" by (simp add: hardstate_fits_def demo_hs_def)
  ultimately show ?thesis using hardstate_save_atomic [OF clean_empty _ run] run by auto
qed


section \<open>Where the store does not keep its promise\<close>

















end
