(* ===== verification/Clock_Heap.thy ===== *)
theory Clock_Heap
  imports Toyraft_Prelude "HOL-Library.Multiset"
begin

text \<open>
  \<^verbatim>\<open>container/heap\<close>, which the fake clock keeps its timers in: the functions over any value
  that implements \<^verbatim>\<open>heap.Interface\<close>, and the locale \<open>heap_interface\<close> with what the
  implementation has to provide. Shown: every function keeps the heap order and the
  elements, and \<^verbatim>\<open>Pop\<close> returns a least one.
\<close>

section \<open>The functions\<close>

function heap_up :: "('h \<Rightarrow> nat \<Rightarrow> nat \<Rightarrow> bool) \<Rightarrow> (nat \<Rightarrow> nat \<Rightarrow> 'h \<Rightarrow> 'h) \<Rightarrow> nat \<Rightarrow> 'h \<Rightarrow> 'h" where
  "heap_up lt swp j h =
     (let i = (j - 1) div 2 in
      if i = j \<or> \<not> lt h j i then h else heap_up lt swp i (swp i j h))"
  by pat_completeness auto

termination heap_up
  by (relation "measure (\<lambda>(lt, swp, j, h). j)") auto

text \<open>The result of \<open>heap_down\<close> is the heap and the final position.\<close>

function heap_down :: "('h \<Rightarrow> nat \<Rightarrow> nat \<Rightarrow> bool) \<Rightarrow> (nat \<Rightarrow> nat \<Rightarrow> 'h \<Rightarrow> 'h) \<Rightarrow> nat \<Rightarrow> nat \<Rightarrow> 'h \<Rightarrow> 'h \<times> nat" where
  "heap_down lt swp i n h =
     (let j1 = 2 * i + 1 in
      if j1 \<ge> n then (h, i)
      else
        let j2 = j1 + 1;
            j = (if j2 < n \<and> lt h j2 j1 then j2 else j1)
        in if \<not> lt h j i then (h, i) else heap_down lt swp j n (swp i j h))"
  by pat_completeness auto

termination heap_down
  by (relation "measure (\<lambda>(lt, swp, i, n, h). n - i)") (auto simp: Let_def split: if_splits)

declare heap_up.simps [simp del] heap_down.simps [simp del]

definition heap_Push ::
  "('h \<Rightarrow> nat) \<Rightarrow> ('h \<Rightarrow> nat \<Rightarrow> nat \<Rightarrow> bool) \<Rightarrow> (nat \<Rightarrow> nat \<Rightarrow> 'h \<Rightarrow> 'h) \<Rightarrow> ('x \<Rightarrow> 'h \<Rightarrow> 'h) \<Rightarrow> 'x \<Rightarrow> 'h \<Rightarrow> 'h" where
  "heap_Push len lt swp push x h = (let h = push x h in heap_up lt swp (len h - 1) h)"

definition heap_Pop ::
  "('h \<Rightarrow> nat) \<Rightarrow> ('h \<Rightarrow> nat \<Rightarrow> nat \<Rightarrow> bool) \<Rightarrow> (nat \<Rightarrow> nat \<Rightarrow> 'h \<Rightarrow> 'h) \<Rightarrow> ('h \<Rightarrow> 'x \<times> 'h) \<Rightarrow> 'h \<Rightarrow> 'x \<times> 'h" where
  "heap_Pop len lt swp pop h =
     (let n = len h - 1; h = swp 0 n h; (h, _) = heap_down lt swp 0 n h in pop h)"

definition heap_Remove ::
  "('h \<Rightarrow> nat) \<Rightarrow> ('h \<Rightarrow> nat \<Rightarrow> nat \<Rightarrow> bool) \<Rightarrow> (nat \<Rightarrow> nat \<Rightarrow> 'h \<Rightarrow> 'h) \<Rightarrow> ('h \<Rightarrow> 'x \<times> 'h) \<Rightarrow> nat \<Rightarrow> 'h \<Rightarrow> 'x \<times> 'h" where
  "heap_Remove len lt swp pop i h =
     (let n = len h - 1 in
      if n \<noteq> i then
        (let h = swp i n h; (h, i') = heap_down lt swp i n h;
             h = (if i' > i then h else heap_up lt swp i h)
         in pop h)
      else pop h)"

section \<open>Heap order on a list\<close>

abbreviation parent :: "nat \<Rightarrow> nat" where
  "parent i \<equiv> (i - 1) div 2"

definition heap_ordered :: "nat \<Rightarrow> 'k::linorder list \<Rightarrow> bool" where
  "heap_ordered n ys \<longleftrightarrow> (\<forall>i. 0 < i \<longrightarrow> i < n \<longrightarrow> ys ! parent i \<le> ys ! i)"

text \<open>Order everywhere except between \<open>j\<close> and its parent (\<open>up\<close>), its children (\<open>down\<close>), or both.\<close>

definition past :: "nat \<Rightarrow> nat \<Rightarrow> 'k::linorder list \<Rightarrow> bool" where
  "past n j ys \<longleftrightarrow> (\<forall>c. 0 < j \<longrightarrow> 0 < c \<longrightarrow> c < n \<longrightarrow> parent c = j \<longrightarrow> ys ! parent j \<le> ys ! c)"

definition order_up :: "nat \<Rightarrow> nat \<Rightarrow> 'k::linorder list \<Rightarrow> bool" where
  "order_up n j ys \<longleftrightarrow> (\<forall>i. 0 < i \<longrightarrow> i < n \<longrightarrow> i \<noteq> j \<longrightarrow> ys ! parent i \<le> ys ! i) \<and> past n j ys"

definition order_down :: "nat \<Rightarrow> nat \<Rightarrow> 'k::linorder list \<Rightarrow> bool" where
  "order_down n j ys \<longleftrightarrow> (\<forall>i. 0 < i \<longrightarrow> i < n \<longrightarrow> parent i \<noteq> j \<longrightarrow> ys ! parent i \<le> ys ! i) \<and> past n j ys"

definition order_but :: "nat \<Rightarrow> nat \<Rightarrow> 'k::linorder list \<Rightarrow> bool" where
  "order_but n j ys \<longleftrightarrow>
     (\<forall>i. 0 < i \<longrightarrow> i < n \<longrightarrow> i \<noteq> j \<longrightarrow> parent i \<noteq> j \<longrightarrow> ys ! parent i \<le> ys ! i) \<and> past n j ys"

definition swap_at :: "nat \<Rightarrow> nat \<Rightarrow> 'a list \<Rightarrow> 'a list" where
  "swap_at i j xs = xs[i := xs ! j, j := xs ! i]"

lemma length_swap_at [simp]: "length (swap_at i j xs) = length xs"
  by (simp add: swap_at_def)

lemma nth_swap_at:
  "i < length xs \<Longrightarrow> j < length xs \<Longrightarrow> k < length xs \<Longrightarrow>
   swap_at i j xs ! k = (if k = j then xs ! i else if k = i then xs ! j else xs ! k)"
  by (simp add: swap_at_def nth_list_update)

lemma mset_swap_at [simp]: "i < length xs \<Longrightarrow> j < length xs \<Longrightarrow> mset (swap_at i j xs) = mset xs"
  by (simp add: swap_at_def mset_swap)

lemma map_swap_at: "i < length xs \<Longrightarrow> j < length xs \<Longrightarrow> map f (swap_at i j xs) = swap_at i j (map f xs)"
  by (simp add: swap_at_def map_update)

lemma parent_less: "0 < i \<Longrightarrow> parent i < i"
  by simp

lemma parent_parent: "0 < j \<Longrightarrow> parent j = parent i \<Longrightarrow> 0 < i \<Longrightarrow> i \<noteq> j \<Longrightarrow> i = 2 * parent j + 1 \<or> i = 2 * parent j + 2"
  by linarith

lemma children: "0 < c \<Longrightarrow> parent c = i \<longleftrightarrow> c = 2 * i + 1 \<or> c = 2 * i + 2"
  by linarith

text \<open>One turn of each loop.\<close>

lemma up_turn:
  assumes up: "order_up n j ys" and "0 < j" "j < n" "n \<le> length ys" and lt: "ys ! j < ys ! parent j"
  shows "order_up n (parent j) (swap_at (parent j) j ys)"
proof -
  let ?p = "parent j" and ?z = "swap_at (parent j) j ys"
  have nth: "?z ! k = (if k = j then ys ! ?p else if k = ?p then ys ! j else ys ! k)" if "k < n" for k
    using assms that by (intro nth_swap_at) auto
  have p: "?p < j" using \<open>0 < j\<close> by simp
  have "?z ! parent i \<le> ?z ! i" if i: "0 < i" "i < n" "i \<noteq> ?p" for i
  proof (cases "i = j")
    case True
    then show ?thesis using nth lt p i by simp
  next
    case False
    have ord: "ys ! parent i \<le> ys ! i" using up i False by (simp add: order_up_def)
    have pn: "parent i < n" using i by linarith
    consider "parent i = j" | "parent i = ?p" | "parent i \<noteq> j" "parent i \<noteq> ?p" by blast
    then show ?thesis
    proof cases
      case 1
      then have "ys ! ?p \<le> ys ! i" using up i \<open>0 < j\<close> by (simp add: order_up_def past_def)
      then show ?thesis using nth [OF pn] nth [of i] i False 1 by simp
    next
      case 2
      then show ?thesis using nth [OF pn] nth [of i] i False ord lt p by simp
    next
      case 3
      then show ?thesis using nth [OF pn] nth [of i] i False ord by simp
    qed
  qed
  moreover have "past n ?p ?z"
    unfolding past_def
  proof (intro allI impI)
    fix c assume c: "0 < ?p" "0 < c" "c < n" "parent c = ?p"
    have gp: "ys ! parent ?p \<le> ys ! ?p" using up c(1) p \<open>j < n\<close> by (simp add: order_up_def)
    have q: "parent ?p < n" "parent ?p \<noteq> ?p" "parent ?p \<noteq> j" using c(1) p \<open>j < n\<close> by linarith+
    have le: "ys ! ?p \<le> ys ! c" if "c \<noteq> j"
      using up [unfolded order_up_def, THEN conjunct1, rule_format, OF c(2,3) that] c(4) by simp
    have "c \<noteq> ?p" using c by linarith
    then have zc: "?z ! c = (if c = j then ys ! ?p else ys ! c)" unfolding nth [OF c(3)] by (simp only: if_False)
    have zp: "?z ! parent ?p = ys ! parent ?p" unfolding nth [OF q(1)] using q(2,3) by (simp only: if_False)
    show "?z ! parent ?p \<le> ?z ! c" unfolding zc zp using gp order_trans [OF gp le] by (simp split: if_split)
  qed
  ultimately show ?thesis by (simp add: order_up_def)
qed

lemma down_turn:
  assumes but: "order_but n i ys" and "i < n" "n \<le> length ys"
    and j: "0 < j" "j < n" "parent j = i" and lt: "ys ! j < ys ! i"
    and least: "\<And>c. 0 < c \<Longrightarrow> c < n \<Longrightarrow> parent c = i \<Longrightarrow> ys ! j \<le> ys ! c"
  shows "order_down n j (swap_at i j ys)"
proof -
  let ?z = "swap_at i j ys"
  have nth: "?z ! k = (if k = j then ys ! i else if k = i then ys ! j else ys ! k)" if "k < n" for k
    using assms that by (intro nth_swap_at) auto
  have ij: "i < j" using j by linarith
  have "?z ! parent k \<le> ?z ! k" if k: "0 < k" "k < n" "parent k \<noteq> j" for k
  proof -
    have pn: "parent k < n" using k by linarith
    consider "k = j" | "k = i" | "k \<noteq> j" "parent k = i" | "k \<noteq> j" "k \<noteq> i" "parent k \<noteq> i" by blast
    then show ?thesis
    proof cases
      case 1
      then show ?thesis using nth [OF pn] nth [OF k(2)] lt ij j by simp
    next
      case 2
      then have "ys ! parent i \<le> ys ! j" using but j k by (simp add: order_but_def past_def)
      moreover have "parent i < i" using k 2 by simp
      ultimately show ?thesis using nth [OF pn] nth [OF k(2)] 2 ij k by simp
    next
      case 3
      then show ?thesis using nth [OF pn] nth [OF k(2)] least [OF k(1,2)] ij by (cases "k = i") auto
    next
      case 4
      then have "ys ! parent k \<le> ys ! k" using but k by (simp add: order_but_def)
      then show ?thesis using nth [OF pn] nth [OF k(2)] 4 k by simp
    qed
  qed
  moreover have "past n j ?z"
    unfolding past_def
  proof (intro allI impI)
    fix c assume c: "0 < c" "c < n" "parent c = j"
    have "c \<noteq> i" "c \<noteq> j" "parent c \<noteq> i" using c ij by linarith+
    then have "ys ! parent c \<le> ys ! c"
      using but [unfolded order_but_def, THEN conjunct1, rule_format, OF c(1,2)] by blast
    then show "?z ! parent j \<le> ?z ! c"
      using nth [OF c(2)] nth [OF \<open>i < n\<close>] \<open>c \<noteq> i\<close> \<open>c \<noteq> j\<close> ij j(3) c(3) by simp
  qed
  ultimately show ?thesis by (simp add: order_down_def)
qed

lemma order_down_but: "order_down n i ys \<Longrightarrow> order_but n i ys"
  by (simp add: order_down_def order_but_def)

lemma order_up_root: "order_up n 0 ys \<Longrightarrow> heap_ordered n ys"
  by (simp add: order_up_def heap_ordered_def)

lemma order_up_done: "order_up n j ys \<Longrightarrow> ys ! parent j \<le> ys ! j \<Longrightarrow> heap_ordered n ys"
  by (metis order_up_def heap_ordered_def)

lemma order_down_done:
  assumes "order_down n i ys" and "\<And>c. 0 < c \<Longrightarrow> c < n \<Longrightarrow> parent c = i \<Longrightarrow> ys ! i \<le> ys ! c"
  shows "heap_ordered n ys"
  using assms by (metis order_down_def heap_ordered_def)

lemma order_but_done:
  assumes "order_but n i ys" and "\<And>c. 0 < c \<Longrightarrow> c < n \<Longrightarrow> parent c = i \<Longrightarrow> ys ! i \<le> ys ! c"
  shows "order_up n i ys"
  using assms unfolding order_but_def order_up_def by metis

lemma heap_ordered_root:
  assumes "heap_ordered n ys" and "i < n"
  shows "ys ! 0 \<le> ys ! i"
  using assms(2)
proof (induction i rule: less_induct)
  case (less i)
  show ?case
  proof (cases "i = 0")
    case False
    then have "parent i < i" "ys ! parent i \<le> ys ! i" using assms(1) less.prems by (simp_all add: heap_ordered_def)
    with less show ?thesis by (metis le_less_trans less_imp_le order_trans)
  qed simp
qed

section \<open>The interface\<close>

text \<open>
  \<open>keys\<close> lists the keys by position and \<open>elems\<close> the elements; \<open>inv\<close> is what the implementation
  maintains about itself.
\<close>

locale heap_interface =
  fixes len :: "'h \<Rightarrow> nat"
    and lt :: "'h \<Rightarrow> nat \<Rightarrow> nat \<Rightarrow> bool"
    and swp :: "nat \<Rightarrow> nat \<Rightarrow> 'h \<Rightarrow> 'h"
    and keys :: "'h \<Rightarrow> 'k::linorder list"
    and elems :: "'h \<Rightarrow> 'x list"
    and inv :: "'h \<Rightarrow> bool"
  assumes len_keys: "length (keys h) = len h" and len_elems: "length (elems h) = len h"
    and lt_keys: "i < len h \<Longrightarrow> j < len h \<Longrightarrow> lt h i j \<longleftrightarrow> keys h ! i < keys h ! j"
    and swp_keys: "i < len h \<Longrightarrow> j < len h \<Longrightarrow> inv h \<Longrightarrow> keys (swp i j h) = swap_at i j (keys h)"
    and swp_elems: "i < len h \<Longrightarrow> j < len h \<Longrightarrow> inv h \<Longrightarrow> elems (swp i j h) = swap_at i j (elems h)"
    and swp_inv: "i < len h \<Longrightarrow> j < len h \<Longrightarrow> inv h \<Longrightarrow> inv (swp i j h)"
begin

definition same :: "'h \<Rightarrow> 'h \<Rightarrow> bool" where
  "same h h' \<longleftrightarrow> inv h' \<and> len h' = len h \<and> mset (elems h') = mset (elems h)"

lemma swp_same: "i < len h \<Longrightarrow> j < len h \<Longrightarrow> inv h \<Longrightarrow> same h (swp i j h)"
  using len_elems [of h] len_elems [of "swp i j h"] by (simp add: same_def swp_inv swp_elems)

lemma same_trans: "same h h' \<Longrightarrow> same h' h'' \<Longrightarrow> same h h''"
  by (simp add: same_def)

text \<open>Positions from \<open>n\<close> on are not touched.\<close>

definition keeps_from :: "nat \<Rightarrow> 'h \<Rightarrow> 'h \<Rightarrow> bool" where
  "keeps_from n h h' \<longleftrightarrow> (\<forall>k. n \<le> k \<longrightarrow> k < len h \<longrightarrow> keys h' ! k = keys h ! k \<and> elems h' ! k = elems h ! k)"

lemma swp_keeps: "i < n \<Longrightarrow> j < n \<Longrightarrow> n \<le> len h \<Longrightarrow> inv h \<Longrightarrow> keeps_from n h (swp i j h)"
  by (simp add: keeps_from_def swp_keys swp_elems nth_swap_at len_keys len_elems)

lemma keeps_trans: "keeps_from n h h' \<Longrightarrow> same h h' \<Longrightarrow> keeps_from n h' h'' \<Longrightarrow> keeps_from n h h''"
  by (simp add: keeps_from_def same_def)

lemma up_ok:
  assumes "inv h" and "j < n" and "n \<le> len h" and "order_up n j (keys h)"
  shows "heap_ordered n (keys (heap_up lt swp j h)) \<and> same h (heap_up lt swp j h) \<and> keeps_from n h (heap_up lt swp j h)"
  using assms
proof (induction j arbitrary: h rule: less_induct)
  case (less j)
  let ?p = "parent j" and ?y = "keys h"
  note step = heap_up.simps [of lt swp j h, unfolded Let_def]
  show ?case
  proof (cases "?p = j \<or> \<not> lt h j ?p")
    case True
    have "heap_ordered n ?y"
    proof (cases "j = 0")
      case False
      then have "?p < j" by simp
      then have "?y ! ?p \<le> ?y ! j" using True less.prems lt_keys [of j h ?p] by auto
      then show ?thesis using less.prems(4) order_up_done by blast
    qed (use less.prems(4) order_up_root in blast)
    then show ?thesis using True step less.prems(1) by (simp add: same_def keeps_from_def)
  next
    case False
    then have pj: "?p < j" "0 < j" by linarith+
    let ?h = "swp ?p j h"
    have b: "?p < len h" "j < len h" using pj less.prems(2,3) by simp_all
    have "?y ! j < ?y ! ?p" using False lt_keys [OF b(2,1)] by simp
    then have "order_up n ?p (keys ?h)"
      using up_turn [OF less.prems(4) pj(2) less.prems(2)] less.prems(1,3) swp_keys [OF b] len_keys by simp
    moreover have s: "same h ?h" using swp_same [OF b less.prems(1)] .
    ultimately have "heap_ordered n (keys (heap_up lt swp ?p ?h)) \<and> same ?h (heap_up lt swp ?p ?h) \<and>
        keeps_from n ?h (heap_up lt swp ?p ?h)"
      using less.prems pj by (intro less.IH) (auto simp: same_def)
    moreover have "heap_up lt swp j h = heap_up lt swp ?p ?h" using step False by (simp only: if_False)
    moreover have k: "keeps_from n h ?h" using pj less.prems(1-3) by (intro swp_keeps) simp_all
    ultimately show ?thesis using same_trans [OF s] keeps_trans [OF k s] by metis
  qed
qed

end

context heap_interface
begin

text \<open>The child the loop looks at, and the two ways a turn ends.\<close>

definition child :: "nat \<Rightarrow> nat \<Rightarrow> 'h \<Rightarrow> nat" where
  "child n i h = (if 2 * i + 2 < n \<and> lt h (2 * i + 2) (2 * i + 1) then 2 * i + 2 else 2 * i + 1)"

lemma down_step:
  "heap_down lt swp i n h =
     (if 2 * i + 1 \<ge> n \<or> \<not> lt h (child n i h) i then (h, i)
      else heap_down lt swp (child n i h) n (swp i (child n i h) h))"
  by (subst heap_down.simps) (simp add: Let_def child_def)

lemma child_least:
  assumes "2 * i + 1 < n" and "n \<le> len h"
  shows "0 < child n i h" "child n i h < n" "parent (child n i h) = i" "i < child n i h"
    and "0 < c \<Longrightarrow> c < n \<Longrightarrow> parent c = i \<Longrightarrow> keys h ! child n i h \<le> keys h ! c"
proof -
  show "0 < child n i h" "child n i h < n" "i < child n i h" using assms by (auto simp: child_def)
  show "parent (child n i h) = i" by (simp add: child_def)
  assume c: "0 < c" "c < n" "parent c = i"
  then consider "c = 2 * i + 1" | "c = 2 * i + 2" by linarith
  then show "keys h ! child n i h \<le> keys h ! c"
  proof cases
    case 1
    then show ?thesis using assms c lt_keys [of "2 * i + 2" h "2 * i + 1"] by (auto simp: child_def)
  next
    case 2
    then show ?thesis using assms c lt_keys [of "2 * i + 2" h "2 * i + 1"] by (auto simp: child_def not_less)
  qed
qed

lemma down_stops:
  assumes "2 * i + 1 \<ge> n \<or> \<not> lt h (child n i h) i" and "i < n" and "n \<le> len h"
    and c: "0 < c" "c < n" "parent c = i"
  shows "keys h ! i \<le> keys h ! c"
proof (cases "2 * i + 1 \<ge> n")
  case True
  then show ?thesis using c by linarith
next
  case False
  note ch = child_least [of i n h]
  have "keys h ! i \<le> keys h ! child n i h"
    using False assms(1-3) ch(2) lt_keys [of "child n i h" h i] by auto
  also have "\<dots> \<le> keys h ! c" using ch(5) [OF _ assms(3) c] False by simp
  finally show ?thesis .
qed

lemma down_moves:
  assumes "\<not> (2 * i + 1 \<ge> n \<or> \<not> lt h (child n i h) i)" and "i < n" and "n \<le> len h" and "inv h"
    and "order_but n i (keys h)"
  shows "order_down n (child n i h) (keys (swp i (child n i h) h))"
proof -
  have lt: "2 * i + 1 < n" "lt h (child n i h) i" using assms(1) by auto
  note ch = child_least [OF lt(1) assms(3)]
  have b: "i < len h" "child n i h < len h" using assms(2,3) ch(2) by simp_all
  have "keys h ! child n i h < keys h ! i" using lt(2) lt_keys [OF b(2,1)] by simp
  then show ?thesis
    unfolding swp_keys [OF b assms(4)]
    using assms(2,3,5) ch by (intro down_turn) (auto simp: len_keys)
qed

lemma down_ok:
  assumes "inv h" and "i < n" and "n \<le> len h" and "order_down n i (keys h)"
  shows "heap_ordered n (keys (fst (heap_down lt swp i n h))) \<and> same h (fst (heap_down lt swp i n h)) \<and>
    keeps_from n h (fst (heap_down lt swp i n h)) \<and> i \<le> snd (heap_down lt swp i n h)"
  using assms
proof (induction "n - i" arbitrary: i h rule: less_induct)
  case less
  let ?j = "child n i h" and ?h = "swp i (child n i h) h"
  show ?case
  proof (cases "2 * i + 1 \<ge> n \<or> \<not> lt h ?j i")
    case True
    have "heap_ordered n (keys h)"
      using down_stops [OF True less.prems(2,3)] by (intro order_down_done [OF less.prems(4)]) auto
    moreover have "heap_down lt swp i n h = (h, i)" by (subst down_step) (simp only: True if_True)
    ultimately show ?thesis using less.prems(1) by (simp add: same_def keeps_from_def)
  next
    case False
    then have "2 * i + 1 < n" by simp
    note ch = child_least [OF this less.prems(3)]
    have run: "heap_down lt swp i n h = heap_down lt swp ?j n ?h" by (subst down_step) (simp only: False if_False)
    have b: "i < len h" "?j < len h" using ch(2) less.prems(2,3) by simp_all
    note s = swp_same [OF b less.prems(1)]
    have k: "keeps_from n h ?h" by (rule swp_keeps [OF less.prems(2) ch(2) less.prems(3,1)])
    have "order_down n ?j (keys ?h)"
      by (rule down_moves [OF False less.prems(2,3,1) order_down_but [OF less.prems(4)]])
    then have "heap_ordered n (keys (fst (heap_down lt swp ?j n ?h))) \<and> same ?h (fst (heap_down lt swp ?j n ?h)) \<and>
      keeps_from n ?h (fst (heap_down lt swp ?j n ?h)) \<and> ?j \<le> snd (heap_down lt swp ?j n ?h)"
      using less.prems(2,3) s ch by (intro less.hyps) (auto simp: same_def)
    then show ?thesis unfolding run using same_trans [OF s] keeps_trans [OF k s] ch(4) by auto
  qed
qed

lemma down_but:
  assumes "inv h" and "i < n" and "n \<le> len h" and "order_but n i (keys h)"
    and "heap_down lt swp i n h = (h', i')"
  shows "if i' > i then heap_ordered n (keys h') \<and> same h h' \<and> keeps_from n h h'
    else h' = h \<and> order_up n i (keys h)"
proof (cases "2 * i + 1 \<ge> n \<or> \<not> lt h (child n i h) i")
  case True
  have "heap_down lt swp i n h = (h, i)" by (subst down_step) (simp only: True if_True)
  then show ?thesis
    using assms(5) order_but_done [OF assms(4)] down_stops [OF True assms(2,3)] by auto
next
  case False
  then have "2 * i + 1 < n" by simp
  note ch = child_least [OF this assms(3)]
  let ?j = "child n i h" and ?h = "swp i (child n i h) h"
  have "heap_down lt swp i n h = heap_down lt swp ?j n ?h" by (subst down_step) (simp only: False if_False)
  then have run: "heap_down lt swp ?j n ?h = (h', i')" using assms(5) by simp
  have b: "i < len h" "?j < len h" using ch(2) assms(2,3) by simp_all
  note s = swp_same [OF b assms(1)]
  have k: "keeps_from n h ?h" by (rule swp_keeps [OF assms(2) ch(2) assms(3,1)])
  have "heap_ordered n (keys h') \<and> same ?h h' \<and> keeps_from n ?h h' \<and> ?j \<le> i'"
    using down_ok [of ?h ?j n] down_moves [OF False assms(2,3,1,4)] run s ch(2) assms(3) by (auto simp: same_def)
  then show ?thesis using same_trans [OF s] keeps_trans [OF k s] ch(4) by auto
qed

end

section \<open>Push, Pop and Remove\<close>

lemma heap_ordered_take: "heap_ordered n ys \<Longrightarrow> m \<le> n \<Longrightarrow> heap_ordered m ys"
  by (simp add: heap_ordered_def)

lemma heap_ordered_cong:
  assumes "heap_ordered n ys" and "\<And>k. k < n \<Longrightarrow> zs ! k = ys ! k"
  shows "heap_ordered n zs"
  unfolding heap_ordered_def
proof (intro allI impI)
  fix i assume i: "0 < i" "i < n"
  then have "parent i < n" by linarith
  then show "zs ! parent i \<le> zs ! i" using assms i by (simp add: heap_ordered_def)
qed

lemma order_up_snoc: "heap_ordered (length ys) ys \<Longrightarrow> order_up (Suc (length ys)) (length ys) (ys @ [y])"
  unfolding order_up_def past_def heap_ordered_def
proof (intro conjI allI impI)
  fix i assume h: "\<forall>i>0. i < length ys \<longrightarrow> ys ! parent i \<le> ys ! i" and i: "0 < i" "i < Suc (length ys)" "i \<noteq> length ys"
  have "i < length ys" "parent i < length ys" using i by linarith+
  then show "(ys @ [y]) ! parent i \<le> (ys @ [y]) ! i" using h i by (simp add: nth_append)
next
  fix c assume "0 < c" "c < Suc (length ys)" "parent c = length ys"
  then show "(ys @ [y]) ! parent (length ys) \<le> (ys @ [y]) ! c" by linarith
qed

lemma order_but_swap:
  assumes heap: "heap_ordered (Suc n) ys" and "i < n" and "n < length ys"
  shows "order_but n i (swap_at i n ys)"
proof -
  let ?z = "swap_at i n ys"
  have nth: "?z ! k = (if k = i then ys ! n else ys ! k)" if "k < n" for k
    using assms that by (subst nth_swap_at) auto
  have ord: "ys ! parent k \<le> ys ! k" if "0 < k" "k < n" for k
    using heap that by (simp add: heap_ordered_def)
  have "?z ! parent k \<le> ?z ! k" if k: "0 < k" "k < n" "k \<noteq> i" "parent k \<noteq> i" for k
  proof -
    have "parent k < n" using k by linarith
    then show ?thesis using nth [of "parent k"] nth [OF k(2)] k ord [OF k(1,2)] by (simp only: if_False)
  qed
  moreover have "past n i ?z"
    unfolding past_def
  proof (intro allI impI)
    fix c assume c: "0 < i" "0 < c" "c < n" "parent c = i"
    have q: "parent i < n" "parent i \<noteq> i" "c \<noteq> i" using c assms(2) by linarith+
    have "ys ! parent i \<le> ys ! i" "ys ! i \<le> ys ! c" using ord [OF c(1) assms(2)] ord [OF c(2,3)] c(4) by simp_all
    then show "?z ! parent i \<le> ?z ! c" using nth [OF q(1)] nth [OF c(3)] q by (simp only: if_False)
  qed
  ultimately show ?thesis by (simp add: order_but_def)
qed

text \<open>
  \<open>val\<close> is the part of an element that heap operations keep; they may change the rest, such as
  a position stored in it.
\<close>

locale heap_impl = heap_interface len lt swp keys elems inv
  for len :: "'h \<Rightarrow> nat" and lt :: "'h \<Rightarrow> nat \<Rightarrow> nat \<Rightarrow> bool" and swp :: "nat \<Rightarrow> nat \<Rightarrow> 'h \<Rightarrow> 'h"
    and keys :: "'h \<Rightarrow> 'k::linorder list" and elems :: "'h \<Rightarrow> 'x list" and inv :: "'h \<Rightarrow> bool" +
  fixes val :: "'y \<Rightarrow> 'x" and push :: "'y \<Rightarrow> 'h \<Rightarrow> 'h" and pop :: "'h \<Rightarrow> 'y \<times> 'h" and fresh :: "'y \<Rightarrow> 'h \<Rightarrow> bool"
  assumes push_law: "inv h \<Longrightarrow> fresh x h \<Longrightarrow>
      inv (push x h) \<and> elems (push x h) = elems h @ [val x] \<and> (\<exists>k. keys (push x h) = keys h @ [k])"
    and pop_law: "inv h \<Longrightarrow> 0 < len h \<Longrightarrow> pop h = (x, h') \<Longrightarrow>
      inv h' \<and> val x = last (elems h) \<and> elems h' = butlast (elems h) \<and> keys h' = butlast (keys h)"
begin

definition heap_ok :: "'h \<Rightarrow> bool" where
  "heap_ok h \<longleftrightarrow> inv h \<and> heap_ordered (len h) (keys h)"

lemma Push_ok:
  assumes "heap_ok h" and "fresh x h"
  defines "h' \<equiv> heap_Push len lt swp push x h"
  shows "heap_ok h' \<and> mset (elems h') = add_mset (val x) (mset (elems h))"
proof -
  have inv: "inv h" and ord: "heap_ordered (len h) (keys h)" using assms(1) by (simp_all add: heap_ok_def)
  obtain k where p: "inv (push x h)" "elems (push x h) = elems h @ [val x]" "keys (push x h) = keys h @ [k]"
    using push_law [OF inv assms(2)] by blast
  have len: "len (push x h) = Suc (len h)" using len_keys [of "push x h"] len_keys [of h] p(3) by simp
  have "order_up (Suc (len h)) (len h) (keys (push x h))"
    using order_up_snoc [of "keys h" k] ord p(3) len_keys by simp
  from up_ok [OF p(1) _ _ this] show ?thesis
    using p len by (simp add: h'_def heap_Push_def Let_def heap_ok_def same_def)
qed

text \<open>Taking the last element off a heap that is in order up to it.\<close>

lemma pop_last:
  assumes "inv h" and "len h = Suc n" and "heap_ordered n (keys h)" and "pop h = (x, h')"
  shows "heap_ok h' \<and> val x = elems h ! n \<and> mset (elems h) = add_mset (val x) (mset (elems h'))"
proof -
  have l: "length (elems h) = Suc n" "length (keys h) = Suc n" using len_elems [of h] len_keys [of h] assms(2) by simp_all
  have p: "inv h'" "val x = last (elems h)" "elems h' = butlast (elems h)" "keys h' = butlast (keys h)"
    using pop_law [OF assms(1) _ assms(4)] assms(2) by auto
  have "len h' = n" using len_keys [of h'] p(4) l(2) by simp
  moreover have "heap_ordered n (keys h')"
    using l(2) by (intro heap_ordered_cong [OF assms(3)]) (simp add: p(4) nth_butlast)
  ultimately have "heap_ok h'" using p(1) by (simp add: heap_ok_def)
  moreover have "elems h \<noteq> []" using l(1) by auto
  then have e: "elems h' @ [val x] = elems h" and "val x = elems h ! n"
    using p(2,3) l(1) append_butlast_last_id [of "elems h"] by (simp_all add: last_conv_nth)
  moreover have "mset (elems h' @ [val x]) = add_mset (val x) (mset (elems h'))" by simp
  ultimately show ?thesis by (simp only: e simp_thms)
qed

lemma Pop_ok:
  assumes "heap_ok h" and "0 < len h" and "heap_Pop len lt swp pop h = (x, h')"
  shows "heap_ok h' \<and> val x = elems h ! 0 \<and> mset (elems h) = add_mset (val x) (mset (elems h'))"
proof -
  obtain n where n: "len h = Suc n" using assms(2) by (cases "len h") auto
  have inv: "inv h" and ord: "heap_ordered (Suc n) (keys h)" using assms(1) n by (simp_all add: heap_ok_def)
  let ?h = "swp 0 n h" and ?d = "fst (heap_down lt swp 0 n (swp 0 n h))"
  have b: "0 < len h" "n < len h" using n by simp_all
  note s = swp_same [OF b inv]
  have e: "elems ?h ! n = elems h ! 0"
    using swp_elems [OF b inv] nth_swap_at [of 0 "elems h" n n] len_elems [of h] n by simp
  have "heap_ordered n (keys ?d) \<and> same ?h ?d \<and> keeps_from n ?h ?d"
  proof (cases "n = 0")
    case True
    then have "heap_down lt swp 0 n ?h = (?h, 0)" by (subst heap_down.simps) simp
    then show ?thesis using True s by (simp add: heap_ordered_def same_def keeps_from_def)
  next
    case False
    have "order_but n 0 (keys ?h)"
      unfolding swp_keys [OF b inv] using ord False n len_keys [of h] by (intro order_but_swap) auto
    then have "order_down n 0 (keys ?h)" by (simp add: order_but_def order_down_def past_def)
    then show ?thesis using down_ok [of ?h 0 n] s False n by (simp add: same_def)
  qed
  then have d: "heap_ordered n (keys ?d)" "same ?h ?d" "keeps_from n ?h ?d" by simp_all
  have "pop ?d = (x, h')" using assms(3) n by (simp add: heap_Pop_def Let_def split_beta)
  from pop_last [OF _ _ d(1) this] d s n have "heap_ok h'" "val x = elems ?d ! n" "mset (elems ?d) = add_mset (val x) (mset (elems h'))"
    by (auto simp: same_def)
  moreover have "elems ?d ! n = elems ?h ! n" using d(3) s n by (simp add: keeps_from_def same_def)
  ultimately show ?thesis using e d(2) s by (simp add: same_def)
qed

lemma Remove_ok:
  assumes "heap_ok h" and "i < len h" and "heap_Remove len lt swp pop i h = (x, h')"
  shows "heap_ok h' \<and> val x = elems h ! i \<and> mset (elems h) = add_mset (val x) (mset (elems h'))"
proof -
  obtain n where n: "len h = Suc n" using assms(2) by (cases "len h") auto
  have inv: "inv h" and ord: "heap_ordered (Suc n) (keys h)" using assms(1) n by (simp_all add: heap_ok_def)
  show ?thesis
  proof (cases "i = n")
    case True
    then have "pop h = (x, h')" using assms(3) n by (simp add: heap_Remove_def Let_def)
    then show ?thesis using pop_last [OF inv n heap_ordered_take [OF ord]] True by simp
  next
    case False
    then have i: "i < n" using assms(2) n by simp
    have b: "i < len h" "n < len h" using n i by simp_all
    let ?h = "swp i n h"
    note s = swp_same [OF b inv]
    have e: "elems ?h ! n = elems h ! i"
      using swp_elems [OF b inv] nth_swap_at [of i "elems h" n n] len_elems [of h] n i by simp
    have but: "order_but n i (keys ?h)"
      unfolding swp_keys [OF b inv] using ord i n len_keys [of h] by (intro order_but_swap) auto
    obtain h1 i' where dn: "heap_down lt swp i n ?h = (h1, i')" by (cases "heap_down lt swp i n ?h")
    let ?d = "if i' > i then h1 else heap_up lt swp i h1"
    have "heap_ordered n (keys ?d) \<and> same ?h ?d \<and> keeps_from n ?h ?d"
      using down_but [OF _ i _ but dn] up_ok [of ?h i n] s n i by (auto simp: same_def split: if_splits)
    then have d: "heap_ordered n (keys ?d)" "same ?h ?d" "keeps_from n ?h ?d" by simp_all
    have "pop ?d = (x, h')" using assms(3) n False dn by (simp add: heap_Remove_def Let_def)
    from pop_last [OF _ _ d(1) this] d s n have "heap_ok h'" "val x = elems ?d ! n" "mset (elems ?d) = add_mset (val x) (mset (elems h'))"
      by (auto simp: same_def)
    moreover have "elems ?d ! n = elems ?h ! n" using d(3) s n by (simp add: keeps_from_def same_def)
    ultimately show ?thesis using e d(2) s by (simp add: same_def)
  qed
qed

lemma root_least: "heap_ok h \<Longrightarrow> i < len h \<Longrightarrow> keys h ! 0 \<le> keys h ! i"
  using heap_ordered_root [of "len h" "keys h" i] by (simp add: heap_ok_def)

end

end
