(* ===== verification/Clock_Fake.thy ===== *)
theory Clock_Fake
  imports Clock_Heap "HOL-Library.Product_Lexorder"
begin

text \<open>
  The test clock, \<^verbatim>\<open>internal/clock/fake.go\<close>. Timers are objects in a memory \<open>fk_mem\<close>, named by
  numbers, because handles, the heap and \<^verbatim>\<open>Advance\<close> share them; \<^verbatim>\<open>fakeTimerHeap\<close> is a slice of such
  pointers with the position of each kept in its \<^verbatim>\<open>idx\<close>. Times and durations are integers
  (nanoseconds since the epoch). A timer's channel holds at most one value.
\<close>

record fakeTimer =
  tm_expiry :: int
  tm_seq :: nat
  tm_period :: int
  tm_ch :: "int list"
  tm_stopped :: bool
  tm_idx :: int

record fake =
  fk_now :: int
  fk_seq :: nat
  fk_timers :: "nat list"
  fk_mem :: "nat \<Rightarrow> fakeTimer"
  fk_next :: nat

definition zero_timer :: fakeTimer where
  "zero_timer = \<lparr>tm_expiry = 0, tm_seq = 0, tm_period = 0, tm_ch = [], tm_stopped = False, tm_idx = 0\<rparr>"

definition NewFake :: fake where
  "NewFake = \<lparr>fk_now = 0, fk_seq = 0, fk_timers = [], fk_mem = (\<lambda>_. zero_timer), fk_next = 0\<rparr>"

definition Now :: "fake \<Rightarrow> int" where
  "Now f = fk_now f"

definition set_idx :: "nat \<Rightarrow> int \<Rightarrow> fake \<Rightarrow> fake" where
  "set_idx t i f = f\<lparr>fk_mem := (fk_mem f)(t := (fk_mem f t)\<lparr>tm_idx := i\<rparr>)\<rparr>"

section \<open>fakeTimerHeap\<close>

definition ft_Len :: "fake \<Rightarrow> nat" where
  "ft_Len f = length (fk_timers f)"

definition ft_Less :: "fake \<Rightarrow> nat \<Rightarrow> nat \<Rightarrow> bool" where
  "ft_Less f i j =
     (let a = fk_mem f (fk_timers f ! i); b = fk_mem f (fk_timers f ! j) in
      if tm_expiry a = tm_expiry b then tm_seq a < tm_seq b else tm_expiry a < tm_expiry b)"

definition ft_Swap :: "nat \<Rightarrow> nat \<Rightarrow> fake \<Rightarrow> fake" where
  "ft_Swap i j f =
     (let f = f\<lparr>fk_timers := swap_at i j (fk_timers f)\<rparr>
      in set_idx (fk_timers f ! j) (int j) (set_idx (fk_timers f ! i) (int i) f))"

definition ft_Push :: "nat \<Rightarrow> fake \<Rightarrow> fake" where
  "ft_Push t f =
     (let f = set_idx t (int (length (fk_timers f))) f in f\<lparr>fk_timers := fk_timers f @ [t]\<rparr>)"

definition ft_Pop :: "fake \<Rightarrow> nat \<times> fake" where
  "ft_Pop f = (let t = last (fk_timers f) in (t, (set_idx t (- 1) f)\<lparr>fk_timers := butlast (fk_timers f)\<rparr>))"

abbreviation Push_timer :: "nat \<Rightarrow> fake \<Rightarrow> fake" where
  "Push_timer \<equiv> heap_Push ft_Len ft_Less ft_Swap ft_Push"

abbreviation Pop_timer :: "fake \<Rightarrow> nat \<times> fake" where
  "Pop_timer \<equiv> heap_Pop ft_Len ft_Less ft_Swap ft_Pop"

abbreviation Remove_timer :: "nat \<Rightarrow> fake \<Rightarrow> nat \<times> fake" where
  "Remove_timer \<equiv> heap_Remove ft_Len ft_Less ft_Swap ft_Pop"

section \<open>Registering\<close>

definition nextSeqLocked :: "fake \<Rightarrow> nat \<times> fake" where
  "nextSeqLocked f = (let s = u64_succ (fk_seq f) in (s, f\<lparr>fk_seq := s\<rparr>))"

text \<open>Allocation of a timer object with the given period.\<close>

definition alloc_timer :: "int \<Rightarrow> fake \<Rightarrow> nat \<times> fake" where
  "alloc_timer period f =
     (let t = fk_next f
      in (t, f\<lparr>fk_mem := (fk_mem f)(t := zero_timer\<lparr>tm_period := period\<rparr>), fk_next := t + 1\<rparr>))"

text \<open>\<^verbatim>\<open>t.expiry = e; t.seq = f.nextSeqLocked(); heap.Push(&f.timers, t)\<close>\<close>

definition register :: "nat \<Rightarrow> int \<Rightarrow> fake \<Rightarrow> fake" where
  "register t e f =
     (let (s, f) = nextSeqLocked f
      in Push_timer t (f\<lparr>fk_mem := (fk_mem f)(t := (fk_mem f t)\<lparr>tm_expiry := e, tm_seq := s\<rparr>)\<rparr>))"

definition NewTimer :: "int \<Rightarrow> fake \<Rightarrow> nat \<times> fake" where
  "NewTimer d f = (let (t, f) = alloc_timer 0 f in (t, register t (fk_now f + d) f))"

definition After :: "int \<Rightarrow> fake \<Rightarrow> nat \<times> fake" where
  "After d f = NewTimer d f"

definition NewTicker :: "int \<Rightarrow> fake \<Rightarrow> (nat \<times> fake) option" where
  "NewTicker d f =
     (if d \<le> 0 then None else let (t, f) = alloc_timer d f in Some (t, register t (fk_now f + d) f))"

section \<open>Handles\<close>

definition timer_Stop :: "nat \<Rightarrow> fake \<Rightarrow> bool \<times> fake" where
  "timer_Stop t f =
     (if tm_stopped (fk_mem f t) then (False, f)
      else
        let active = (tm_idx (fk_mem f t) \<ge> 0);
            f = (if active then snd (Remove_timer (nat (tm_idx (fk_mem f t))) f) else f)
        in (active, f\<lparr>fk_mem := (fk_mem f)(t := (fk_mem f t)\<lparr>tm_stopped := True\<rparr>)\<rparr>))"

definition timer_Reset :: "nat \<Rightarrow> int \<Rightarrow> fake \<Rightarrow> bool \<times> fake" where
  "timer_Reset t d f =
     (let wasActive = (tm_idx (fk_mem f t) \<ge> 0);
          f = (if wasActive then snd (Remove_timer (nat (tm_idx (fk_mem f t))) f) else f);
          f = f\<lparr>fk_mem := (fk_mem f)(t := (fk_mem f t)\<lparr>tm_stopped := False, tm_period := 0\<rparr>)\<rparr>
      in (wasActive, register t (fk_now f + d) f))"

definition ticker_Stop :: "nat \<Rightarrow> fake \<Rightarrow> fake" where
  "ticker_Stop t f = snd (timer_Stop t f)"

text \<open>Receiving from the channel of a handle; \<open>None\<close> when it would block.\<close>

definition recv :: "nat \<Rightarrow> fake \<Rightarrow> (int \<times> fake) option" where
  "recv t f =
     (case tm_ch (fk_mem f t) of
        [] \<Rightarrow> None
      | x # xs \<Rightarrow> Some (x, f\<lparr>fk_mem := (fk_mem f)(t := (fk_mem f t)\<lparr>tm_ch := xs\<rparr>)\<rparr>))"

section \<open>Advance\<close>

text \<open>
  The three parts of a turn of the loop, as the mutex cuts them: taking the next due timer
  (\<open>Inl\<close> when none is due and the clock is set to the deadline), the send, and arming a
  ticker again.
\<close>

definition advance_take :: "int \<Rightarrow> fake \<Rightarrow> fake + (nat \<times> bool \<times> fake)" where
  "advance_take deadline f =
     (if fk_timers f = [] \<or> tm_expiry (fk_mem f (fk_timers f ! 0)) > deadline
      then Inl (f\<lparr>fk_now := deadline\<rparr>)
      else
        let (t, f) = Pop_timer f in
        if tm_stopped (fk_mem f t) then Inr (t, False, f)
        else Inr (t, True, f\<lparr>fk_now := tm_expiry (fk_mem f t)\<rparr>))"

text \<open>A full channel blocks the send until its consumer receives; if it never does, \<^verbatim>\<open>Advance\<close> panics.\<close>

definition advance_send :: "(nat \<Rightarrow> bool) \<Rightarrow> nat \<Rightarrow> int \<Rightarrow> fake \<Rightarrow> fake option" where
  "advance_send drains t fireAt f =
     (let ch = tm_ch (fk_mem f t) in
      if ch = [] then Some (f\<lparr>fk_mem := (fk_mem f)(t := (fk_mem f t)\<lparr>tm_ch := [fireAt]\<rparr>)\<rparr>)
      else if drains t then Some (f\<lparr>fk_mem := (fk_mem f)(t := (fk_mem f t)\<lparr>tm_ch := tl ch @ [fireAt]\<rparr>)\<rparr>)
      else None)"

definition advance_rearm :: "nat \<Rightarrow> int \<Rightarrow> fake \<Rightarrow> fake" where
  "advance_rearm t fireAt f =
     (if tm_period (fk_mem f t) > 0 \<and> \<not> tm_stopped (fk_mem f t)
      then register t (fireAt + tm_period (fk_mem f t)) f else f)"

section \<open>The timer heap implements the interface\<close>

definition key :: "fakeTimer \<Rightarrow> int \<times> nat" where
  "key x = (tm_expiry x, tm_seq x)"

definition ft_keys :: "fake \<Rightarrow> (int \<times> nat) list" where
  "ft_keys f = map (\<lambda>t. key (fk_mem f t)) (fk_timers f)"

text \<open>What a heap operation started in \<open>f0\<close> maintains: positions are right, and nothing but the
  slice and the positions changes; a timer that leaves the heap has position -1.\<close>

definition ft_inv :: "fake \<Rightarrow> fake \<Rightarrow> bool" where
  "ft_inv f0 f \<longleftrightarrow> distinct (fk_timers f) \<and> (\<forall>i < length (fk_timers f). tm_idx (fk_mem f (fk_timers f ! i)) = int i) \<and>
     fk_now f = fk_now f0 \<and> fk_seq f = fk_seq f0 \<and> fk_next f = fk_next f0 \<and>
     (\<forall>t. (fk_mem f t)\<lparr>tm_idx := 0\<rparr> = (fk_mem f0 t)\<lparr>tm_idx := 0\<rparr>) \<and>
     (\<forall>t. t \<notin> set (fk_timers f) \<longrightarrow> tm_idx (fk_mem f t) = - 1 \<or>
        t \<notin> set (fk_timers f0) \<and> tm_idx (fk_mem f t) = tm_idx (fk_mem f0 t))"

lemma set_idx_sel [simp]:
  "fk_timers (set_idx t i f) = fk_timers f" "fk_now (set_idx t i f) = fk_now f" "fk_seq (set_idx t i f) = fk_seq f"
  "fk_next (set_idx t i f) = fk_next f"
  "fk_mem (set_idx t i f) u = (if u = t then (fk_mem f t)\<lparr>tm_idx := i\<rparr> else fk_mem f u)"
  by (simp_all add: set_idx_def)

lemma key_idx [simp]: "key (x\<lparr>tm_idx := i\<rparr>) = key x" "key (x\<lparr>tm_ch := c\<rparr>) = key x" "key (x\<lparr>tm_stopped := b\<rparr>) = key x"
  by (simp_all add: key_def)

lemma ft_Swap_sel [simp]:
  "fk_timers (ft_Swap i j f) = swap_at i j (fk_timers f)" "fk_now (ft_Swap i j f) = fk_now f"
  "fk_seq (ft_Swap i j f) = fk_seq f" "fk_next (ft_Swap i j f) = fk_next f"
  "key (fk_mem (ft_Swap i j f) u) = key (fk_mem f u)"
  by (simp_all add: ft_Swap_def Let_def)

lemma key_less: "key a < key b \<longleftrightarrow> (if tm_expiry a = tm_expiry b then tm_seq a < tm_seq b else tm_expiry a < tm_expiry b)"
  by (auto simp: key_def less_prod_def)

lemma ft_Less_keys: "i < ft_Len f \<Longrightarrow> j < ft_Len f \<Longrightarrow> ft_Less f i j \<longleftrightarrow> ft_keys f ! i < ft_keys f ! j"
  by (simp add: ft_Less_def ft_Len_def ft_keys_def key_less Let_def)

lemma ft_Swap_keys: "i < ft_Len f \<Longrightarrow> j < ft_Len f \<Longrightarrow> ft_keys (ft_Swap i j f) = swap_at i j (ft_keys f)"
  by (simp add: ft_keys_def ft_Len_def map_swap_at)

lemma ft_Push_keys: "ft_keys (ft_Push t f) = ft_keys f @ [key (fk_mem f t)]"
  by (simp add: ft_keys_def ft_Push_def Let_def)

lemma ft_Pop_keys: "ft_Pop f = (t, f') \<Longrightarrow> ft_keys f' = butlast (ft_keys f)"
  by (auto simp: ft_keys_def ft_Pop_def Let_def map_butlast intro!: arg_cong [where f = butlast])

lemma swap_at_set [simp]: "i < length xs \<Longrightarrow> j < length xs \<Longrightarrow> set (swap_at i j xs) = set xs"
  by (metis mset_swap_at set_mset_mset)

lemma swap_at_distinct [simp]: "i < length xs \<Longrightarrow> j < length xs \<Longrightarrow> distinct (swap_at i j xs) = distinct xs"
  by (simp add: swap_at_def)

lemma ft_Swap_inv:
  assumes "i < ft_Len f" "j < ft_Len f" and inv: "ft_inv f0 f"
  shows "ft_inv f0 (ft_Swap i j f)"
proof -
  let ?xs = "fk_timers f" and ?z = "swap_at i j (fk_timers f)"
  have b: "i < length ?xs" "j < length ?xs" using assms(1,2) by (simp_all add: ft_Len_def)
  have d: "distinct ?xs" using inv by (simp add: ft_inv_def)
  have mem: "fk_mem (ft_Swap i j f) u =
      (fk_mem f u)\<lparr>tm_idx := (if u = ?xs ! i then int j else if u = ?xs ! j then int i else tm_idx (fk_mem f u))\<rparr>" for u
    using nth_swap_at [OF b b(1)] nth_swap_at [OF b b(2)] by (auto simp: ft_Swap_def Let_def)
  have "tm_idx (fk_mem (ft_Swap i j f) (?z ! k)) = int k" if k: "k < length ?xs" for k
  proof -
    have "tm_idx (fk_mem f (?xs ! k)) = int k" using inv k by (simp add: ft_inv_def)
    then show ?thesis
      unfolding mem nth_swap_at [OF b k] using d b k by (auto simp: nth_eq_iff_index_eq)
  qed
  moreover have "?xs ! i \<in> set ?xs" "?xs ! j \<in> set ?xs" using b by simp_all
  ultimately show ?thesis using inv b unfolding ft_inv_def by (auto simp: mem)
qed

lemma ft_Push_inv: "ft_inv f0 f \<Longrightarrow> t \<notin> set (fk_timers f) \<Longrightarrow> ft_inv f0 (ft_Push t f)"
  unfolding ft_inv_def by (auto simp: ft_Push_def Let_def nth_append less_Suc_eq)

lemma ft_Pop_inv:
  assumes "ft_inv f0 f" "0 < ft_Len f" "ft_Pop f = (t, f')"
  shows "ft_inv f0 f'"
proof -
  obtain xs where xs: "fk_timers f = xs @ [t]"
    using assms(2,3) by (auto simp: ft_Len_def ft_Pop_def Let_def intro: append_butlast_last_id [symmetric])
  have f': "f' = (set_idx t (- 1) f)\<lparr>fk_timers := xs\<rparr>" using assms(3) xs by (auto simp: ft_Pop_def Let_def)
  have "\<forall>i < length (xs @ [t]). tm_idx (fk_mem f ((xs @ [t]) ! i)) = int i" using assms(1) xs by (simp add: ft_inv_def)
  then have "tm_idx (fk_mem f (xs ! i)) = int i" if "i < length xs" for i
    using that by (metis length_append_singleton less_SucI nth_append)
  moreover have "t \<notin> set xs" using assms(1) xs by (simp add: ft_inv_def)
  ultimately show ?thesis using assms(1) xs unfolding ft_inv_def by (auto simp: f')
qed

text \<open>For a heap with its positions right: the operations keep them so and change nothing else.\<close>

interpretation ft: heap_impl ft_Len ft_Less ft_Swap ft_keys fk_timers "ft_inv f0" "\<lambda>t. t" ft_Push ft_Pop
  "\<lambda>t f. t \<notin> set (fk_timers f)" for f0
proof (unfold_locales, goal_cases)
  case (7 h x)
  then show ?case using ft_Push_inv ft_Push_keys by (auto simp: ft_Push_def Let_def)
next
  case (8 h x h')
  then have "ft_inv f0 h'" "ft_keys h' = butlast (ft_keys h)" using ft_Pop_inv ft_Pop_keys by blast+
  then show ?case using 8(3) by (auto simp: ft_Pop_def Let_def)
qed (simp_all add: ft_Less_keys ft_Swap_keys ft_Swap_inv, simp_all add: ft_Len_def ft_keys_def)

section \<open>The invariant of the clock\<close>

abbreviation core :: "fakeTimer \<Rightarrow> fakeTimer" where
  "core x \<equiv> x\<lparr>tm_idx := 0\<rparr>"

lemma core_eqD:
  assumes "core x = core y"
  shows "tm_expiry x = tm_expiry y" "tm_seq x = tm_seq y" "tm_period x = tm_period y" "tm_ch x = tm_ch y"
    "tm_stopped x = tm_stopped y" "key x = key y"
  using assms by (cases x; cases y; simp add: key_def)+

text \<open>
  Registered timers are in the heap at their positions, none is stopped, and every other
  timer has position -1. \<open>clock_but t\<close> leaves the position of \<open>t\<close> open, as during registration.
\<close>

definition clock_but :: "nat option \<Rightarrow> fake \<Rightarrow> bool" where
  "clock_but x f \<longleftrightarrow> ft.heap_ok f f \<and>
     (\<forall>t \<in> set (fk_timers f). t < fk_next f \<and> \<not> tm_stopped (fk_mem f t)) \<and>
     (\<forall>t < fk_next f. t \<notin> set (fk_timers f) \<longrightarrow> x \<noteq> Some t \<longrightarrow> tm_idx (fk_mem f t) = - 1) \<and>
     (\<forall>t < fk_next f. 0 \<le> tm_period (fk_mem f t) \<and> length (tm_ch (fk_mem f t)) \<le> 1)"

abbreviation clock_ok :: "fake \<Rightarrow> bool" where
  "clock_ok \<equiv> clock_but None"

lemma ft_inv_refl: "ft_inv f f \<longleftrightarrow> distinct (fk_timers f) \<and> (\<forall>i < length (fk_timers f). tm_idx (fk_mem f (fk_timers f ! i)) = int i)"
  by (auto simp: ft_inv_def)

lemma ft_invD:
  assumes "ft_inv f0 f"
  shows "fk_now f = fk_now f0" "fk_seq f = fk_seq f0" "fk_next f = fk_next f0" "core (fk_mem f t) = core (fk_mem f0 t)"
    "ft_inv f f" "distinct (fk_timers f)"
    "t \<notin> set (fk_timers f) \<Longrightarrow> tm_idx (fk_mem f t) = - 1 \<or> t \<notin> set (fk_timers f0) \<and> tm_idx (fk_mem f t) = tm_idx (fk_mem f0 t)"
  using assms by (auto simp: ft_inv_def)

lemma heap_ok_self: "ft.heap_ok f0 f \<Longrightarrow> ft.heap_ok f f"
  using ft_invD(5) by (auto simp: ft.heap_ok_def)

lemma clock_NewFake: "clock_ok NewFake"
  by (simp add: clock_but_def ft.heap_ok_def ft_inv_refl NewFake_def ft_Len_def heap_ordered_def)

text \<open>A change of a timer that keeps its place and its key.\<close>

lemma heap_ok_mem:
  assumes "ft.heap_ok f f" and "key x = key (fk_mem f t)" and "tm_idx x = tm_idx (fk_mem f t)"
  shows "ft.heap_ok (f\<lparr>fk_mem := (fk_mem f)(t := x)\<rparr>) (f\<lparr>fk_mem := (fk_mem f)(t := x)\<rparr>)"
proof -
  have "ft_keys (f\<lparr>fk_mem := (fk_mem f)(t := x)\<rparr>) = ft_keys f" using assms(2) by (simp add: ft_keys_def)
  then show ?thesis using assms by (auto simp: ft.heap_ok_def ft_inv_refl ft_Len_def)
qed

text \<open>A change of a timer outside the heap.\<close>

lemma heap_ok_off:
  assumes "ft.heap_ok f f" and "t \<notin> set (fk_timers f)"
  shows "ft.heap_ok (f\<lparr>fk_mem := (fk_mem f)(t := x)\<rparr>) (f\<lparr>fk_mem := (fk_mem f)(t := x)\<rparr>)"
proof -
  have "ft_keys (f\<lparr>fk_mem := (fk_mem f)(t := x)\<rparr>) = ft_keys f" using assms(2) by (auto simp: ft_keys_def)
  moreover have "fk_timers f ! i \<noteq> t" if "i < length (fk_timers f)" for i using assms(2) that nth_mem by blast
  ultimately show ?thesis using assms by (auto simp: ft.heap_ok_def ft_inv_refl ft_Len_def)
qed

lemma heap_ok_fields [simp]:
  "ft.heap_ok (f\<lparr>fk_now := n\<rparr>) (f\<lparr>fk_now := n\<rparr>) = ft.heap_ok f f"
  "ft.heap_ok (f\<lparr>fk_seq := s\<rparr>) (f\<lparr>fk_seq := s\<rparr>) = ft.heap_ok f f"
  "ft.heap_ok (f\<lparr>fk_next := m\<rparr>) (f\<lparr>fk_next := m\<rparr>) = ft.heap_ok f f"
  by (simp_all add: ft.heap_ok_def ft_inv_refl ft_Len_def ft_keys_def)

lemma register_ok:
  assumes "clock_but (Some t) f" and "t \<notin> set (fk_timers f)" and "t < fk_next f" and "\<not> tm_stopped (fk_mem f t)"
    and f'_def: "f' = register t e f"
  shows "clock_ok f'" "fk_now f' = fk_now f" "fk_next f' = fk_next f" "fk_seq f' = u64_succ (fk_seq f)"
    "mset (fk_timers f') = add_mset t (mset (fk_timers f))"
    "core (fk_mem f' u) = core (if u = t then (fk_mem f t)\<lparr>tm_expiry := e, tm_seq := u64_succ (fk_seq f)\<rparr> else fk_mem f u)"
proof -
  let ?f = "f\<lparr>fk_seq := u64_succ (fk_seq f), fk_mem := (fk_mem f)(t := (fk_mem f t)\<lparr>tm_expiry := e, tm_seq := u64_succ (fk_seq f)\<rparr>)\<rparr>"
  have f': "f' = Push_timer t ?f"
    by (simp add: f'_def register_def nextSeqLocked_def Let_def)
  have "ft.heap_ok ?f ?f"
    using heap_ok_off [of "f\<lparr>fk_seq := u64_succ (fk_seq f)\<rparr>" t] assms(1,2) by (simp add: clock_but_def)
  from ft.Push_ok [OF this] have p: "ft.heap_ok ?f f'" "mset (fk_timers f') = add_mset t (mset (fk_timers f))"
    using assms(2) by (simp_all add: f')
  have inv: "ft_inv ?f f'" using p(1) by (simp add: ft.heap_ok_def)
  note D = ft_invD [OF inv] and C = core_eqD [OF ft_invD(4) [OF inv]]
  have set: "set (fk_timers f') = insert t (set (fk_timers f))" using p(2) by (metis set_mset_add_mset_insert set_mset_mset)
  show "fk_now f' = fk_now f" "fk_next f' = fk_next f" "fk_seq f' = u64_succ (fk_seq f)"
    "mset (fk_timers f') = add_mset t (mset (fk_timers f))"
    "core (fk_mem f' u) = core (if u = t then (fk_mem f t)\<lparr>tm_expiry := e, tm_seq := u64_succ (fk_seq f)\<rparr> else fk_mem f u)"
    using D p(2) by simp_all
  have off: "tm_idx (fk_mem f' u) = - 1" if "u < fk_next f" "u \<notin> set (fk_timers f')" for u
    using D(7) [OF that(2)] assms(1) that set by (auto simp: clock_but_def)
  show "clock_ok f'"
    unfolding clock_but_def
  proof (intro conjI ballI allI impI)
    show "ft.heap_ok f' f'" by (rule heap_ok_self [OF p(1)])
    fix u assume "u \<in> set (fk_timers f')"
    then show "u < fk_next f'" "\<not> tm_stopped (fk_mem f' u)"
      using assms(1,3,4) set D(2,3) C by (auto simp: clock_but_def)
  next
    fix u assume "u < fk_next f'"
    then show "0 \<le> tm_period (fk_mem f' u)" "length (tm_ch (fk_mem f' u)) \<le> 1"
      using assms(1,3) D(3) C by (auto simp: clock_but_def)
  next
    fix u assume "u < fk_next f'" "u \<notin> set (fk_timers f')"
    then show "tm_idx (fk_mem f' u) = - 1" using off D(3) by simp
  qed
qed

text \<open>Taking a timer out of the heap, whichever way.\<close>

lemma taken_ok:
  assumes "clock_ok f" and "ft.heap_ok f f'" and "mset (fk_timers f) = add_mset t (mset (fk_timers f'))"
  shows "clock_ok f'" "t \<notin> set (fk_timers f')" "set (fk_timers f) = insert t (set (fk_timers f'))"
    "fk_now f' = fk_now f" "fk_next f' = fk_next f" "fk_seq f' = fk_seq f" "core (fk_mem f' u) = core (fk_mem f u)"
proof -
  have inv: "ft_inv f f'" using assms(2) by (simp add: ft.heap_ok_def)
  note D = ft_invD [OF inv] and C = core_eqD [OF ft_invD(4) [OF inv]]
  show set: "set (fk_timers f) = insert t (set (fk_timers f'))" using assms(3) by (metis set_mset_add_mset_insert set_mset_mset)
  have "distinct (fk_timers f)" using assms(1) by (simp add: clock_but_def ft.heap_ok_def ft_inv_refl)
  then have "count (mset (fk_timers f)) t \<le> 1" by (simp add: distinct_count_atmost_1)
  then have "count (mset (fk_timers f')) t = 0" unfolding assms(3) by simp
  then show "t \<notin> set (fk_timers f')" by (metis not_in_iff set_mset_mset)
  have off: "tm_idx (fk_mem f' u) = - 1" if "u < fk_next f" "u \<notin> set (fk_timers f')" for u
    using D(7) [OF that(2)] assms(1) that set by (auto simp: clock_but_def)
  show "fk_now f' = fk_now f" "fk_next f' = fk_next f" "fk_seq f' = fk_seq f" "core (fk_mem f' u) = core (fk_mem f u)"
    using D by simp_all
  show "clock_ok f'"
    using assms(1) set off heap_ok_self [OF assms(2)] D(2,3) C unfolding clock_but_def by auto
qed

lemma Pop_timer_ok:
  assumes "clock_ok f" and "fk_timers f \<noteq> []" and "Pop_timer f = (t, f')"
  shows "ft.heap_ok f f'" "t = fk_timers f ! 0" "mset (fk_timers f) = add_mset t (mset (fk_timers f'))"
  using ft.Pop_ok [of f f t f'] assms by (simp_all add: clock_but_def ft_Len_def)

lemma Remove_timer_ok:
  assumes "clock_ok f" and "t \<in> set (fk_timers f)"
  obtains f' where "Remove_timer (nat (tm_idx (fk_mem f t))) f = (t, f')" "ft.heap_ok f f'"
    "mset (fk_timers f) = add_mset t (mset (fk_timers f'))" "0 \<le> tm_idx (fk_mem f t)"
proof -
  obtain i where i: "i < length (fk_timers f)" "fk_timers f ! i = t" using assms(2) by (auto simp: in_set_conv_nth)
  have ok: "ft.heap_ok f f" using assms(1) by (simp add: clock_but_def)
  then have idx: "tm_idx (fk_mem f t) = int i" using i by (auto simp: ft.heap_ok_def ft_inv_refl)
  obtain x f' where r: "Remove_timer i f = (x, f')" by fastforce
  from ft.Remove_ok [OF ok _ r] i show ?thesis
    using r idx by (intro that [of f']) (auto simp: ft_Len_def)
qed

lemma in_heap_iff: "clock_ok f \<Longrightarrow> t < fk_next f \<Longrightarrow> t \<in> set (fk_timers f) \<longleftrightarrow> 0 \<le> tm_idx (fk_mem f t)"
proof
  assume ok: "clock_ok f"
  show "0 \<le> tm_idx (fk_mem f t)" if "t \<in> set (fk_timers f)" by (rule Remove_timer_ok [OF ok that]) simp
  show "t \<in> set (fk_timers f)" if "t < fk_next f" "0 \<le> tm_idx (fk_mem f t)"
    using ok that by (auto simp: clock_but_def)
qed

lemma top_least:
  assumes "clock_ok f" and "u \<in> set (fk_timers f)"
  shows "key (fk_mem f (fk_timers f ! 0)) \<le> key (fk_mem f u)"
proof -
  obtain i where i: "i < length (fk_timers f)" "fk_timers f ! i = u" using assms(2) by (auto simp: in_set_conv_nth)
  then have "0 < length (fk_timers f)" by auto
  then show ?thesis
    using ft.root_least [of f f i] assms(1) i by (auto simp: clock_but_def ft_Len_def ft_keys_def)
qed

section \<open>Every operation keeps the invariant\<close>

lemma clock_but_weaken: "clock_ok f \<Longrightarrow> clock_but x f"
  by (simp add: clock_but_def)

lemma clock_ok_now [simp]: "clock_but x (f\<lparr>fk_now := n\<rparr>) = clock_but x f"
  by (simp add: clock_but_def)

text \<open>Changing a timer outside the heap.\<close>

lemma clock_but_off:
  assumes "clock_but x f" and "t \<notin> set (fk_timers f)" and "0 \<le> tm_period y" and "length (tm_ch y) \<le> 1"
    and "tm_idx y = tm_idx (fk_mem f t)"
  shows "clock_but x (f\<lparr>fk_mem := (fk_mem f)(t := y)\<rparr>)"
proof -
  have "ft.heap_ok (f\<lparr>fk_mem := (fk_mem f)(t := y)\<rparr>) (f\<lparr>fk_mem := (fk_mem f)(t := y)\<rparr>)"
    using assms(1,2) by (intro heap_ok_off) (auto simp: clock_but_def)
  then show ?thesis using assms by (auto simp: clock_but_def)
qed

lemma alloc_timer_ok:
  assumes "clock_ok f" and "0 \<le> p" and "alloc_timer p f = (t, f')"
  shows "clock_but (Some t) f'" "t \<notin> set (fk_timers f')" "t < fk_next f'" "\<not> tm_stopped (fk_mem f' t)" "t = fk_next f"
    "fk_timers f' = fk_timers f" "fk_now f' = fk_now f" "fk_next f' = fk_next f + 1" "fk_seq f' = fk_seq f"
    "fk_mem f' = (fk_mem f)(fk_next f := zero_timer\<lparr>tm_period := p\<rparr>)"
proof -
  have f': "f' = f\<lparr>fk_mem := (fk_mem f)(fk_next f := zero_timer\<lparr>tm_period := p\<rparr>), fk_next := fk_next f + 1\<rparr>" and t: "t = fk_next f"
    using assms(3) by (auto simp: alloc_timer_def Let_def)
  have new: "fk_next f \<notin> set (fk_timers f)" using assms(1) by (auto simp: clock_but_def)
  have "ft.heap_ok f' f'"
    unfolding f' heap_ok_fields using heap_ok_off [OF _ new] assms(1) by (auto simp: clock_but_def)
  then show "clock_but (Some t) f'"
    using assms(1,2) t unfolding clock_but_def by (auto simp: f' less_Suc_eq zero_timer_def)
  show "t \<notin> set (fk_timers f')" using new t by (simp add: f')
qed (use assms(3) in \<open>auto simp: alloc_timer_def Let_def zero_timer_def\<close>)

lemma NewTimer_ok:
  assumes "clock_ok f" and "NewTimer d f = (t, f')"
  shows "clock_ok f'" "mset (fk_timers f') = add_mset t (mset (fk_timers f))" "fk_now f' = fk_now f"
    "tm_expiry (fk_mem f' t) = fk_now f + d" "tm_period (fk_mem f' t) = 0" "tm_seq (fk_mem f' t) = u64_succ (fk_seq f)"
    "t \<notin> set (fk_timers f)" "u \<noteq> t \<Longrightarrow> core (fk_mem f' u) = core (fk_mem f u)"
proof -
  obtain f1 where a: "alloc_timer 0 f = (t, f1)" and f': "f' = register t (fk_now f1 + d) f1"
    using assms(2) by (auto simp: NewTimer_def Let_def split: prod.splits)
  note A = alloc_timer_ok [OF assms(1) _ a, simplified]
  note R = register_ok [OF A(1-4) f']
  show "clock_ok f'" "mset (fk_timers f') = add_mset t (mset (fk_timers f))" "fk_now f' = fk_now f" "t \<notin> set (fk_timers f)"
    using R(1,2,5) A by simp_all
  note C = core_eqD [OF R(6) [of t]]
  show "tm_expiry (fk_mem f' t) = fk_now f + d" "tm_period (fk_mem f' t) = 0" "tm_seq (fk_mem f' t) = u64_succ (fk_seq f)"
    using C A by simp_all
  show "core (fk_mem f' u) = core (fk_mem f u)" if "u \<noteq> t" using R(6) [of u] A(5,10) that by simp
qed

lemma NewTicker_ok:
  assumes "clock_ok f" and "NewTicker d f = Some (t, f')"
  shows "clock_ok f'" "mset (fk_timers f') = add_mset t (mset (fk_timers f))" "fk_now f' = fk_now f"
    "tm_expiry (fk_mem f' t) = fk_now f + d" "tm_period (fk_mem f' t) = d"
proof -
  obtain f1 where d: "0 < d" and a: "alloc_timer d f = (t, f1)" and f': "f' = register t (fk_now f1 + d) f1"
    using assms(2) by (auto simp: NewTicker_def Let_def split: prod.splits if_splits)
  note A = alloc_timer_ok [OF assms(1) _ a] and C = register_ok [OF _ _ _ _ f']
  have A': "clock_but (Some t) f1" "t \<notin> set (fk_timers f1)" "t < fk_next f1" "\<not> tm_stopped (fk_mem f1 t)"
    using A(1-4) d by simp_all
  note R = register_ok [OF A' f']
  show "clock_ok f'" "mset (fk_timers f') = add_mset t (mset (fk_timers f))" "fk_now f' = fk_now f"
    using R(1,2,5) A(6,7) d by simp_all
  show "tm_expiry (fk_mem f' t) = fk_now f + d" "tm_period (fk_mem f' t) = d"
    using core_eqD [OF R(6) [of t]] A(5,7,10) d by simp_all
qed

lemma timer_Stop_ok:
  assumes "clock_ok f" and "t < fk_next f" and "timer_Stop t f = (r, f')"
  shows "clock_ok f'" "r \<longleftrightarrow> t \<in> set (fk_timers f)" "set (fk_timers f') = set (fk_timers f) - {t}"
    "tm_stopped (fk_mem f' t)" "fk_now f' = fk_now f" "u \<noteq> t \<Longrightarrow> core (fk_mem f' u) = core (fk_mem f u)"
proof -
  have all: "clock_ok f' \<and> (r \<longleftrightarrow> t \<in> set (fk_timers f)) \<and> set (fk_timers f') = set (fk_timers f) - {t} \<and>
    tm_stopped (fk_mem f' t) \<and> fk_now f' = fk_now f \<and> (u \<noteq> t \<longrightarrow> core (fk_mem f' u) = core (fk_mem f u))"
  proof (cases "t \<in> set (fk_timers f)")
    case True
    obtain f1 where r: "Remove_timer (nat (tm_idx (fk_mem f t))) f = (t, f1)" "ft.heap_ok f f1"
      "mset (fk_timers f) = add_mset t (mset (fk_timers f1))" "0 \<le> tm_idx (fk_mem f t)"
      by (rule Remove_timer_ok [OF assms(1) True])
    note K = taken_ok [OF assms(1) r(2,3)]
    have ns: "\<not> tm_stopped (fk_mem f t)" using assms(1) True by (simp add: clock_but_def)
    have f': "f' = f1\<lparr>fk_mem := (fk_mem f1)(t := (fk_mem f1 t)\<lparr>tm_stopped := True\<rparr>)\<rparr>" and "r"
      using assms(3) ns r(1,4) by (auto simp: timer_Stop_def Let_def)
    have "clock_ok f'"
      unfolding f' using K(1,2,5) assms(2) by (intro clock_but_off) (auto simp: clock_but_def)
    then show ?thesis using K f' \<open>r\<close> True by auto
  next
    case False
    then have "tm_idx (fk_mem f t) < 0" using in_heap_iff [OF assms(1,2)] by simp
    then have f': "\<not> r" "f' = (if tm_stopped (fk_mem f t) then f else f\<lparr>fk_mem := (fk_mem f)(t := (fk_mem f t)\<lparr>tm_stopped := True\<rparr>)\<rparr>)"
      using assms(3) by (auto simp: timer_Stop_def Let_def split: if_splits)
    have "clock_ok (f\<lparr>fk_mem := (fk_mem f)(t := (fk_mem f t)\<lparr>tm_stopped := True\<rparr>)\<rparr>)"
      using assms(1,2) False by (intro clock_but_off) (auto simp: clock_but_def)
    then show ?thesis using f' assms(1) False by auto
  qed
  then show "clock_ok f'" "r \<longleftrightarrow> t \<in> set (fk_timers f)" "set (fk_timers f') = set (fk_timers f) - {t}"
    "tm_stopped (fk_mem f' t)" "fk_now f' = fk_now f" "u \<noteq> t \<Longrightarrow> core (fk_mem f' u) = core (fk_mem f u)" by auto
qed

lemma timer_Reset_ok:
  assumes "clock_ok f" and "t < fk_next f" and "timer_Reset t d f = (r, f')"
  shows "clock_ok f'" "r \<longleftrightarrow> t \<in> set (fk_timers f)" "set (fk_timers f') = insert t (set (fk_timers f))"
    "tm_expiry (fk_mem f' t) = fk_now f + d" "tm_period (fk_mem f' t) = 0" "fk_now f' = fk_now f"
proof -
  let ?upd = "\<lambda>f. f\<lparr>fk_mem := (fk_mem f)(t := (fk_mem f t)\<lparr>tm_stopped := False, tm_period := 0\<rparr>)\<rparr>"
  obtain f1 where f1: "clock_ok f1" "t \<notin> set (fk_timers f1)" "set (fk_timers f1) = set (fk_timers f) - {t}"
    "fk_now f1 = fk_now f" "fk_next f1 = fk_next f" "f' = register t (fk_now f + d) (?upd f1)" "r \<longleftrightarrow> t \<in> set (fk_timers f)"
  proof (cases "t \<in> set (fk_timers f)")
    case True
    obtain f1 where R: "Remove_timer (nat (tm_idx (fk_mem f t))) f = (t, f1)" "ft.heap_ok f f1"
      "mset (fk_timers f) = add_mset t (mset (fk_timers f1))" "0 \<le> tm_idx (fk_mem f t)"
      by (rule Remove_timer_ok [OF assms(1) True])
    note K = taken_ok [OF assms(1) R(2,3)]
    show ?thesis
      by (rule that [of f1]) (use K R(1,4) assms(3) True in \<open>auto simp: timer_Reset_def Let_def\<close>)
  next
    case False
    then have "tm_idx (fk_mem f t) < 0" using in_heap_iff [OF assms(1,2)] by simp
    then show ?thesis
      using assms(1,3) False by (intro that [of f]) (auto simp: timer_Reset_def Let_def)
  qed
  have ok: "clock_but (Some t) (?upd f1)"
    using f1(1,5) assms(2) by (intro clock_but_off [OF clock_but_weaken [OF f1(1)] f1(2)]) (auto simp: clock_but_def)
  have "t \<notin> set (fk_timers (?upd f1))" "t < fk_next (?upd f1)" "\<not> tm_stopped (fk_mem (?upd f1) t)"
    using f1(2,5) assms(2) by simp_all
  note R = register_ok [OF ok this f1(6)]
  have "mset (fk_timers f') = add_mset t (mset (fk_timers f1))" using R(5) by simp
  then have "set (fk_timers f') = insert t (set (fk_timers f1))" by (metis set_mset_add_mset_insert set_mset_mset)
  then show "set (fk_timers f') = insert t (set (fk_timers f))" using f1(3) by auto
  show "clock_ok f'" "r \<longleftrightarrow> t \<in> set (fk_timers f)" "fk_now f' = fk_now f" using R(1,2) f1(4,7) by simp_all
  show "tm_expiry (fk_mem f' t) = fk_now f + d" "tm_period (fk_mem f' t) = 0" using core_eqD [OF R(6) [of t]] by simp_all
qed

lemma chan_ok:
  assumes "clock_ok f" and "t < fk_next f" and "length c \<le> 1"
  shows "clock_ok (f\<lparr>fk_mem := (fk_mem f)(t := (fk_mem f t)\<lparr>tm_ch := c\<rparr>)\<rparr>)"
proof -
  let ?f = "f\<lparr>fk_mem := (fk_mem f)(t := (fk_mem f t)\<lparr>tm_ch := c\<rparr>)\<rparr>"
  have "ft.heap_ok ?f ?f" using assms(1) by (intro heap_ok_mem) (auto simp: clock_but_def)
  then show ?thesis using assms by (auto simp: clock_but_def)
qed

lemma recv_ok: "clock_ok f \<Longrightarrow> t < fk_next f \<Longrightarrow> recv t f = Some (x, f') \<Longrightarrow> clock_ok f'"
  using chan_ok [of f t] by (auto simp: recv_def clock_but_def split: list.splits)

section \<open>The loop of Advance\<close>

text \<open>
  \<^verbatim>\<open>Advance\<close> with no other goroutine touching the clock: \<open>drains t\<close> tells whether the consumer of
  timer \<open>t\<close> receives. The outer \<open>None\<close> is a loop that does not end, the inner a panic; the
  result lists the fired timers with their time and sequence number.
\<close>

type_synonym fired = "nat \<times> int \<times> nat"

partial_function (option) advanceLoop ::
  "(nat \<Rightarrow> bool) \<Rightarrow> int \<Rightarrow> fake \<Rightarrow> fired list \<Rightarrow> (fired list \<times> fake) option option" where
  "advanceLoop drains deadline f evs =
     (case advance_take deadline f of
        Inl f' \<Rightarrow> Some (Some (evs, f'))
      | Inr (t, live, f1) \<Rightarrow>
          if \<not> live then advanceLoop drains deadline f1 evs
          else (case advance_send drains t (fk_now f1) f1 of
                  None \<Rightarrow> Some None
                | Some f2 \<Rightarrow>
                    advanceLoop drains deadline (advance_rearm t (fk_now f1) f2)
                      (evs @ [(t, fk_now f1, tm_seq (fk_mem f1 t))])))"

definition Advance :: "(nat \<Rightarrow> bool) \<Rightarrow> int \<Rightarrow> fake \<Rightarrow> (fired list \<times> fake) option option" where
  "Advance drains d f = advanceLoop drains (fk_now f + d) f []"

text \<open>One turn on a clock in order: the least timer fires and a ticker is registered again.\<close>

definition due :: "int \<Rightarrow> fake \<Rightarrow> bool" where
  "due deadline f \<longleftrightarrow> fk_timers f \<noteq> [] \<and> tm_expiry (fk_mem f (fk_timers f ! 0)) \<le> deadline"

definition fire_due :: "nat \<Rightarrow> fake \<Rightarrow> fake" where
  "fire_due t f = (let f1 = (snd (Pop_timer f))\<lparr>fk_now := tm_expiry (fk_mem f t)\<rparr>
     in advance_rearm t (tm_expiry (fk_mem f t))
       (f1\<lparr>fk_mem := (fk_mem f1)(t := (fk_mem f1 t)\<lparr>tm_ch := [tm_expiry (fk_mem f t)]\<rparr>)\<rparr>))"

lemma fire_due_ok:
  assumes "clock_ok f" and "due deadline f" and t: "t = fk_timers f ! 0"
  defines "p \<equiv> tm_period (fk_mem f t)" and "e \<equiv> tm_expiry (fk_mem f t)"
  shows "clock_ok (fire_due t f)" "fk_next (fire_due t f) = fk_next f"
    "mset (fk_timers (fire_due t f)) = (if p > 0 then mset (fk_timers f) else mset (fk_timers f) - {#t#})"
    "u \<noteq> t \<Longrightarrow> core (fk_mem (fire_due t f) u) = core (fk_mem f u)"
    "tm_period (fk_mem (fire_due t f) t) = p" "p > 0 \<Longrightarrow> tm_expiry (fk_mem (fire_due t f) t) = e + p"
    "tm_ch (fk_mem (fire_due t f) t) = [e]"
proof -
  have ne: "fk_timers f \<noteq> []" using assms(2) by (simp add: due_def)
  obtain f0 where pop: "Pop_timer f = (t, f0)" "ft.heap_ok f f0" "mset (fk_timers f) = add_mset t (mset (fk_timers f0))"
    using Pop_timer_ok [OF assms(1) ne] t by (metis prod.exhaust)
  note K = taken_ok [OF assms(1) pop(2,3)]
  note C = core_eqD [OF K(7) [of t]]
  have "t \<in> set (fk_timers f)" using ne t by simp
  then have tn: "t < fk_next f" "\<not> tm_stopped (fk_mem f t)" "0 \<le> p" using assms(1) by (auto simp: clock_but_def p_def)
  define g where "g = f0\<lparr>fk_now := e\<rparr>\<lparr>fk_mem := (fk_mem f0)(t := (fk_mem f0 t)\<lparr>tm_ch := [e]\<rparr>)\<rparr>"
  have g: "clock_ok g" "t \<notin> set (fk_timers g)" "t < fk_next g" "\<not> tm_stopped (fk_mem g t)"
    using chan_ok [of "f0\<lparr>fk_now := e\<rparr>" t "[e]"] K tn C(5) by (simp_all add: g_def)
  have gt: "tm_period (fk_mem g t) = p" "tm_ch (fk_mem g t) = [e]" and go: "u \<noteq> t \<Longrightarrow> core (fk_mem g u) = core (fk_mem f u)"
    and gs: "mset (fk_timers g) = mset (fk_timers f) - {#t#}" "fk_next g = fk_next f"
    using C K pop(3) by (simp_all add: g_def p_def)
  have run: "fire_due t f = (if p > 0 then register t (e + p) g else g)"
    using pop(1) gt(1) g(4) by (simp add: fire_due_def Let_def advance_rearm_def g_def e_def p_def)
  show "clock_ok (fire_due t f)" "fk_next (fire_due t f) = fk_next f"
    "mset (fk_timers (fire_due t f)) = (if p > 0 then mset (fk_timers f) else mset (fk_timers f) - {#t#})"
    "u \<noteq> t \<Longrightarrow> core (fk_mem (fire_due t f) u) = core (fk_mem f u)"
    "tm_period (fk_mem (fire_due t f) t) = p" "p > 0 \<Longrightarrow> tm_expiry (fk_mem (fire_due t f) t) = e + p"
    "tm_ch (fk_mem (fire_due t f) t) = [e]"
    using register_ok [OF clock_but_weaken [OF g(1)] g(2-4) refl, of "e + p"] core_eqD [OF register_ok(6) [OF clock_but_weaken [OF g(1)] g(2-4) refl, of "e + p" t]]
      g(1) gt go gs pop(3) by (auto simp: run)
qed

lemma not_due: "\<not> due deadline f \<Longrightarrow> advanceLoop drains deadline f evs = Some (Some (evs, f\<lparr>fk_now := deadline\<rparr>))"
  by (subst advanceLoop.simps) (auto simp: advance_take_def due_def)

lemma advance_turn:
  assumes "clock_ok f" and "due deadline f" and t: "t = fk_timers f ! 0"
  shows "advanceLoop drains deadline f evs =
    (if tm_ch (fk_mem f t) = [] \<or> drains t
     then advanceLoop drains deadline (fire_due t f) (evs @ [(t, key (fk_mem f t))]) else Some None)"
proof -
  have ne: "fk_timers f \<noteq> []" "\<not> deadline < tm_expiry (fk_mem f t)" using assms(2) t by (simp_all add: due_def)
  obtain f0 where pop: "Pop_timer f = (t, f0)" "ft.heap_ok f f0" "mset (fk_timers f) = add_mset t (mset (fk_timers f0))"
    using Pop_timer_ok [OF assms(1) ne(1)] t by (metis prod.exhaust)
  note C = core_eqD [OF taken_ok(7) [OF assms(1) pop(2,3), of t]]
  have "t \<in> set (fk_timers f)" using ne t by simp
  then have tn: "\<not> tm_stopped (fk_mem f t)" "length (tm_ch (fk_mem f t)) \<le> 1" using assms(1) by (auto simp: clock_but_def)
  have take: "advance_take deadline f = Inr (t, True, f0\<lparr>fk_now := tm_expiry (fk_mem f t)\<rparr>)"
    using ne pop(1) tn C t by (simp add: advance_take_def)
  have "tl (tm_ch (fk_mem f t)) = []" using tn(2) by (cases "tm_ch (fk_mem f t)") auto
  then show ?thesis
    by (subst advanceLoop.simps) (simp add: take advance_send_def Let_def C fire_due_def pop(1) key_def)
qed

text \<open>When a timer with these fields fires up to a deadline, if left alone.\<close>

definition firings :: "int \<Rightarrow> fakeTimer \<Rightarrow> nat" where
  "firings deadline x =
     (if deadline < tm_expiry x then 0 else if tm_period x = 0 then 1
      else nat ((deadline - tm_expiry x) div tm_period x) + 1)"

definition fire_times :: "int \<Rightarrow> fakeTimer \<Rightarrow> int list" where
  "fire_times deadline x = map (\<lambda>k. tm_expiry x + int k * tm_period x) [0..<firings deadline x]"

lemma firings_core: "core x = core y \<Longrightarrow> firings d x = firings d y \<and> fire_times d x = fire_times d y"
  using core_eqD [of x y] by (simp add: firings_def fire_times_def)

lemma firings_step:
  assumes "0 < tm_period x" and "tm_expiry x \<le> d" and "tm_expiry y = tm_expiry x + tm_period x" and "tm_period y = tm_period x"
  shows "firings d x = Suc (firings d y)" "fire_times d x = tm_expiry x # fire_times d y"
proof -
  let ?e = "tm_expiry x" and ?p = "tm_period x"
  have "(d - ?e) div ?p = (d - (?e + ?p)) div ?p + 1"
    using assms(1) div_add_self1 [of ?p "d - (?e + ?p)"] by (simp add: algebra_simps)
  moreover have "d < ?e + ?p \<longleftrightarrow> (d - ?e) div ?p \<le> 0"
    using assms(1,2) by (metis add.commute add_diff_cancel_left' diff_ge_0_iff_ge diff_less_eq div_pos_pos_trivial int_div_pos_eq linorder_not_less pos_imp_zdiv_nonneg_iff pos_imp_zdiv_pos_iff order_refl)
  ultimately show s: "firings d x = Suc (firings d y)"
    using assms by (auto simp: firings_def nat_add_distrib)
  show "fire_times d x = tm_expiry x # fire_times d y"
    unfolding fire_times_def s using assms(3,4)
    by (simp add: upt_conv_Cons map_Suc_upt [symmetric] comp_def algebra_simps del: upt_Suc)
qed

lemma fire_due_step:
  assumes "clock_ok f" and "due deadline f" and t: "t = fk_timers f ! 0"
  defines "f' \<equiv> fire_due t f"
  shows "t \<in> set (fk_timers f)"
    "set (fk_timers f') = (if tm_period (fk_mem f t) > 0 then set (fk_timers f) else set (fk_timers f) - {t})"
    "u \<noteq> t \<Longrightarrow> firings deadline (fk_mem f' u) = firings deadline (fk_mem f u) \<and> fire_times deadline (fk_mem f' u) = fire_times deadline (fk_mem f u)"
    "t \<in> set (fk_timers f') \<Longrightarrow> firings deadline (fk_mem f t) = Suc (firings deadline (fk_mem f' t)) \<and>
       fire_times deadline (fk_mem f t) = tm_expiry (fk_mem f t) # fire_times deadline (fk_mem f' t)"
    "t \<notin> set (fk_timers f') \<Longrightarrow> firings deadline (fk_mem f t) = 1 \<and> fire_times deadline (fk_mem f t) = [tm_expiry (fk_mem f t)]"
    "v \<in> set (fk_timers f') \<Longrightarrow> key (fk_mem f t) \<le> key (fk_mem f' v)"
proof -
  note F = fire_due_ok [OF assms(1-3)]
  have e: "tm_expiry (fk_mem f t) \<le> deadline" and ne: "fk_timers f \<noteq> []" using assms(2) t by (simp_all add: due_def)
  show tin: "t \<in> set (fk_timers f)" using ne t by simp
  have "distinct (fk_timers f)" using assms(1) by (simp add: clock_but_def ft.heap_ok_def ft_inv_refl)
  then have "set_mset (mset (fk_timers f) - {#t#}) = set (fk_timers f) - {t}"
    by (metis mset_remove1 set_mset_mset set_remove1_eq)
  then show S: "set (fk_timers f') = (if tm_period (fk_mem f t) > 0 then set (fk_timers f) else set (fk_timers f) - {t})"
    using arg_cong [OF F(3), of set_mset] by (simp add: f'_def split: if_splits)
  show "firings deadline (fk_mem f' u) = firings deadline (fk_mem f u) \<and> fire_times deadline (fk_mem f' u) = fire_times deadline (fk_mem f u)"
    if "u \<noteq> t" using firings_core [OF F(4) [OF that]] by (simp add: f'_def)
  show "firings deadline (fk_mem f t) = Suc (firings deadline (fk_mem f' t)) \<and>
       fire_times deadline (fk_mem f t) = tm_expiry (fk_mem f t) # fire_times deadline (fk_mem f' t)" if "t \<in> set (fk_timers f')"
    using that S F(5,6) e firings_step [of "fk_mem f t" deadline "fk_mem f' t"] by (simp add: f'_def split: if_splits)
  show "firings deadline (fk_mem f t) = 1 \<and> fire_times deadline (fk_mem f t) = [tm_expiry (fk_mem f t)]" if "t \<notin> set (fk_timers f')"
  proof -
    have "\<not> 0 < tm_period (fk_mem f t)" using that S tin by auto
    moreover have "0 \<le> tm_period (fk_mem f t)" using assms(1) tin by (auto simp: clock_but_def)
    ultimately have p: "tm_period (fk_mem f t) = 0" by simp
    show ?thesis using e by (simp add: firings_def fire_times_def p)
  qed
  show "key (fk_mem f t) \<le> key (fk_mem f' v)" if "v \<in> set (fk_timers f')"
  proof (cases "v = t")
    case True
    then have "0 < tm_period (fk_mem f t)" using that S by (auto split: if_splits)
    then show ?thesis using F(6) True by (simp add: f'_def key_def less_eq_prod_def)
  next
    case False
    then show ?thesis
      using top_least [OF assms(1), of v] that S core_eqD(6) [OF F(4) [OF False]] t by (auto simp: f'_def split: if_splits)
  qed
qed

text \<open>Induction over the turns of \<^verbatim>\<open>Advance\<close>: each turn leaves one firing fewer to come.\<close>

lemma advance_induct [consumes 1, case_names idle turn]:
  assumes "clock_ok f"
    and idle: "\<And>f. clock_ok f \<Longrightarrow> \<not> due deadline f \<Longrightarrow> P f"
    and turn: "\<And>f t. clock_ok f \<Longrightarrow> due deadline f \<Longrightarrow> t = fk_timers f ! 0 \<Longrightarrow> clock_ok (fire_due t f) \<Longrightarrow> P (fire_due t f) \<Longrightarrow> P f"
  shows "P f"
  using assms(1)
proof (induction "\<Sum>u \<in> set (fk_timers f). firings deadline (fk_mem f u)" arbitrary: f rule: less_induct)
  case less
  show ?case
  proof (cases "due deadline f")
    case True
    define t f' where "t = fk_timers f ! 0" and "f' = fire_due t f"
    note F = fire_due_step [OF less(2) True t_def, folded f'_def]
    have ok: "clock_ok f'" using fire_due_ok(1) [OF less(2) True t_def] by (simp add: f'_def)
    let ?g = "\<lambda>f u. firings deadline (fk_mem f u)"
    have "sum (?g f) (set (fk_timers f)) = ?g f t + sum (?g f) (set (fk_timers f) - {t})"
      using F(1) by (simp add: sum.remove)
    moreover have "sum (?g f') (set (fk_timers f')) =
        (if t \<in> set (fk_timers f') then ?g f' t else 0) + sum (?g f') (set (fk_timers f') - {t})"
      by (simp add: sum.remove)
    moreover have "sum (?g f') (set (fk_timers f') - {t}) = sum (?g f) (set (fk_timers f) - {t})"
      using F(2,3) by (intro sum.cong) auto
    moreover have "(if t \<in> set (fk_timers f') then ?g f' t else 0) < ?g f t" using F(4,5) by simp
    ultimately have "sum (?g f') (set (fk_timers f')) < sum (?g f) (set (fk_timers f))" by linarith
    then show ?thesis using turn [OF less(2) True t_def] less(1) [OF _ ok] ok by (simp add: f'_def)
  qed (use idle less(2) in blast)
qed

definition stuck :: "(nat \<Rightarrow> bool) \<Rightarrow> int \<Rightarrow> fake \<Rightarrow> nat \<Rightarrow> bool" where
  "stuck drains deadline f t \<longleftrightarrow> t \<in> set (fk_timers f) \<and> \<not> drains t \<and> 1 \<le> firings deadline (fk_mem f t) \<and>
     2 \<le> firings deadline (fk_mem f t) + length (tm_ch (fk_mem f t))"

lemma advanceLoop_outcome:
  assumes "clock_ok f"
  shows "\<exists>r. advanceLoop drains deadline f evs = Some r \<and> (r = None \<longleftrightarrow> (\<exists>t. stuck drains deadline f t))"
  using assms
proof (induction f arbitrary: evs rule: advance_induct [where deadline = deadline])
  case (idle f)
  have "firings deadline (fk_mem f t) = 0" if "t \<in> set (fk_timers f)" for t
    using top_least [OF idle(1) that] idle(2) that by (force simp: due_def firings_def key_def less_eq_prod_def)
  then show ?case by (auto simp: not_due [OF idle(2)] stuck_def)
next
  case (turn f t)
  note F = fire_due_step [OF turn(1-3)] and C = fire_due_ok [OF turn(1-3)]
  have one: "1 \<le> firings deadline (fk_mem f t)" using F(4,5) by (cases "t \<in> set (fk_timers (fire_due t f))") auto
  show ?case
  proof (cases "tm_ch (fk_mem f t) = [] \<or> drains t")
    case True
    have "stuck drains deadline (fire_due t f) u = stuck drains deadline f u" for u
    proof (cases "u = t")
      case False
      then show ?thesis using F(2,3) core_eqD(4) [OF C(4) [OF False]] by (auto simp: stuck_def)
    next
      case same: True
      show ?thesis
        unfolding same using True F(1,4,5) C(7) by (cases "t \<in> set (fk_timers (fire_due t f))") (auto simp: stuck_def)
    qed
    then show ?thesis using turn(5) advance_turn [OF turn(1-3)] True by simp
  next
    case False
    then have "stuck drains deadline f t" using F(1) one by (cases "tm_ch (fk_mem f t)") (auto simp: stuck_def)
    then show ?thesis using advance_turn [OF turn(1-3)] False by auto
  qed
qed

text \<open>The times at which the events of a run fire timer \<open>t\<close>.\<close>

definition times_of :: "nat \<Rightarrow> fired list \<Rightarrow> int list" where
  "times_of t evs = map (\<lambda>(u, e, s). e) (filter (\<lambda>(u, e, s). u = t) evs)"

definition advanced :: "int \<Rightarrow> fake \<Rightarrow> fired list \<Rightarrow> fake \<Rightarrow> bool" where
  "advanced deadline f new f' \<longleftrightarrow> clock_ok f' \<and> fk_now f' = deadline \<and>
     (\<forall>t. times_of t new = (if t \<in> set (fk_timers f) then fire_times deadline (fk_mem f t) else [])) \<and>
     sorted (map snd new) \<and>
     (\<forall>x \<in> set new. \<exists>t \<in> set (fk_timers f). key (fk_mem f t) \<le> snd x) \<and>
     (\<forall>t. t \<in> set (fk_timers f') \<longleftrightarrow> t \<in> set (fk_timers f) \<and> (deadline < tm_expiry (fk_mem f t) \<or> 0 < tm_period (fk_mem f t))) \<and>
     (\<forall>t \<in> set (fk_timers f'). deadline < tm_expiry (fk_mem f' t))"

lemma advanced_idle:
  assumes "clock_ok f" and "\<not> due deadline f"
  shows "advanced deadline f [] (f\<lparr>fk_now := deadline\<rparr>)"
proof -
  have "deadline < tm_expiry (fk_mem f t)" if "t \<in> set (fk_timers f)" for t
    using top_least [OF assms(1) that] assms(2) that by (force simp: due_def key_def less_eq_prod_def)
  then show ?thesis using assms(1) by (auto simp: advanced_def times_of_def fire_times_def firings_def)
qed

lemma advanced_turn:
  assumes "clock_ok f" and "due deadline f" and t: "t = fk_timers f ! 0" and rest: "advanced deadline (fire_due t f) new f'"
  shows "advanced deadline f ((t, key (fk_mem f t)) # new) f'"
proof -
  note F = fire_due_step [OF assms(1-3)] and C = fire_due_ok [OF assms(1-3)] and A = rest [unfolded advanced_def]
  have e: "tm_expiry (fk_mem f t) \<le> deadline" using assms(2) t by (simp add: due_def)
  have "times_of u ((t, key (fk_mem f t)) # new) = (if u \<in> set (fk_timers f) then fire_times deadline (fk_mem f u) else [])" for u
  proof (cases "u = t")
    case True
    have "times_of t ((t, key (fk_mem f t)) # new) = tm_expiry (fk_mem f t) # times_of t new" by (simp add: times_of_def key_def)
    then show ?thesis unfolding True using A F(1,4,5) by (cases "t \<in> set (fk_timers (fire_due t f))") auto
  next
    case False
    then have "times_of u ((t, key (fk_mem f t)) # new) = times_of u new" by (simp add: times_of_def key_def)
    then show ?thesis using A F(2,3) False by auto
  qed
  moreover have low: "key (fk_mem f t) \<le> snd x" if "x \<in> set new" for x
    using A that F(6) by (meson order_trans)
  moreover have "u \<in> set (fk_timers f') \<longleftrightarrow> u \<in> set (fk_timers f) \<and> (deadline < tm_expiry (fk_mem f u) \<or> 0 < tm_period (fk_mem f u))" for u
  proof (cases "u = t")
    case True
    then show ?thesis using A F(1,2) C(5) e by auto
  next
    case False
    then show ?thesis using A F(2) core_eqD(1,3) [OF C(4) [OF False]] by auto
  qed
  moreover have "\<forall>x \<in> set ((t, key (fk_mem f t)) # new). \<exists>u \<in> set (fk_timers f). key (fk_mem f u) \<le> snd x"
    using low F(1) by auto
  ultimately show ?thesis using A unfolding advanced_def by auto
qed

lemma advanceLoop_advanced:
  assumes "clock_ok f" and "advanceLoop drains deadline f evs = Some (Some (evs', f'))"
  shows "\<exists>new. evs' = evs @ new \<and> advanced deadline f new f'"
  using assms
proof (induction f arbitrary: evs rule: advance_induct [where deadline = deadline])
  case (idle f)
  then show ?case using advanced_idle not_due by force
next
  case (turn f t)
  then have "advanceLoop drains deadline (fire_due t f) (evs @ [(t, key (fk_mem f t))]) = Some (Some (evs', f'))"
    by (simp add: advance_turn [OF turn(1-3)] split: if_splits)
  from turn(5) [OF this] show ?case using advanced_turn [OF turn(1-3)] by auto
qed

lemma Advance_drained:
  assumes "clock_ok f"
  obtains evs f' where "Advance (\<lambda>_. True) d f = Some (Some (evs, f'))"
  using advanceLoop_outcome [OF assms, of "\<lambda>_. True" "fk_now f + d" "[]"] by (auto simp: Advance_def stuck_def)

section \<open>Properties\<close>

text \<open>The calls a test makes on the clock and on the handles it was given.\<close>

datatype clock_op =
    Op_NewTimer int
  | Op_NewTicker int
  | Op_Stop nat
  | Op_Reset nat int
  | Op_recv nat
  | Op_Advance "nat \<Rightarrow> bool" int

fun clock_exec :: "clock_op \<Rightarrow> fake \<Rightarrow> fake option" where
  "clock_exec (Op_NewTimer d) f = Some (snd (NewTimer d f))"
| "clock_exec (Op_NewTicker d) f = map_option snd (NewTicker d f)"
| "clock_exec (Op_Stop t) f = (if t < fk_next f then Some (snd (timer_Stop t f)) else None)"
| "clock_exec (Op_Reset t d) f = (if t < fk_next f then Some (snd (timer_Reset t d f)) else None)"
| "clock_exec (Op_recv t) f = (if t < fk_next f then map_option snd (recv t f) else None)"
| "clock_exec (Op_Advance drains d) f = (case Advance drains d f of Some (Some (evs, f')) \<Rightarrow> Some f' | _ \<Rightarrow> None)"

fun clock_run :: "clock_op list \<Rightarrow> fake \<Rightarrow> fake option" where
  "clock_run [] f = Some f"
| "clock_run (x # xs) f = (case clock_exec x f of None \<Rightarrow> None | Some f' \<Rightarrow> clock_run xs f')"

lemma clock_exec_ok:
  assumes "clock_ok f" and "clock_exec x f = Some f'"
  shows "clock_ok f'"
proof (cases x)
  case (Op_NewTimer d)
  then show ?thesis using assms NewTimer_ok(1) by (metis clock_exec.simps(1) option.sel prod.collapse)
next
  case (Op_NewTicker d)
  then show ?thesis using assms NewTicker_ok(1) by auto
next
  case (Op_Stop t)
  then show ?thesis using assms timer_Stop_ok(1) [OF assms(1), of t] by (cases "timer_Stop t f") (auto split: if_splits)
next
  case (Op_Reset t d)
  then show ?thesis using assms timer_Reset_ok(1) [OF assms(1), of t d] by (cases "timer_Reset t d f") (auto split: if_splits)
next
  case (Op_recv t)
  then show ?thesis using assms recv_ok by (auto split: if_splits)
next
  case (Op_Advance drains d)
  then show ?thesis
    using assms advanceLoop_advanced by (auto simp: Advance_def advanced_def split: option.splits prod.splits) blast
qed

lemma clock_run_ok: "clock_ok f \<Longrightarrow> clock_run xs f = Some f' \<Longrightarrow> clock_ok f'"
  by (induction xs arbitrary: f) (auto split: option.splits dest: clock_exec_ok)

lemma clock_but_None:
  "clock_ok f \<longleftrightarrow> heap_ordered (length (fk_timers f)) (ft_keys f) \<and> distinct (fk_timers f) \<and>
     (\<forall>i < length (fk_timers f). tm_idx (fk_mem f (fk_timers f ! i)) = int i) \<and>
     (\<forall>t \<in> set (fk_timers f). t < fk_next f \<and> \<not> tm_stopped (fk_mem f t)) \<and>
     (\<forall>t < fk_next f. t \<notin> set (fk_timers f) \<longrightarrow> tm_idx (fk_mem f t) = - 1) \<and>
     (\<forall>t < fk_next f. 0 \<le> tm_period (fk_mem f t) \<and> length (tm_ch (fk_mem f t)) \<le> 1)"
  by (auto simp: clock_but_def ft.heap_ok_def ft_inv_refl ft_Len_def)

text \<open>
  C31: Whatever calls are made on a new clock and the handles it gives out, the timers form a heap
  ordered by (expiry, registration), a handle's position in it is exact and is -1 for a timer
  that is not registered, no stopped timer is registered, and no channel holds more than one value.
\<close>

theorem clock_invariant:
  assumes "clock_run xs NewFake = Some f"
  shows "heap_ordered (length (fk_timers f)) (ft_keys f) \<and> distinct (fk_timers f) \<and>
    (\<forall>i < length (fk_timers f). tm_idx (fk_mem f (fk_timers f ! i)) = int i) \<and>
    (\<forall>t \<in> set (fk_timers f). t < fk_next f \<and> \<not> tm_stopped (fk_mem f t)) \<and>
    (\<forall>t < fk_next f. t \<notin> set (fk_timers f) \<longrightarrow> tm_idx (fk_mem f t) = - 1) \<and>
    (\<forall>t < fk_next f. 0 \<le> tm_period (fk_mem f t) \<and> length (tm_ch (fk_mem f t)) \<le> 1)"
  by (rule clock_run_ok [OF clock_NewFake assms, unfolded clock_but_None])

text \<open>
  C30: On a clock reached by its operations, \<^verbatim>\<open>Advance\<close> always returns, also for tickers that fire many
  times in the window, and it panics exactly if a timer whose consumer does not receive has to
  fire into a full channel: it is due with its one-element channel already full, or twice or more.
\<close>

theorem Advance_terminates:
  assumes "clock_ok f"
  shows "\<exists>r. Advance drains d f = Some r \<and>
    (r = None \<longleftrightarrow> (\<exists>t \<in> set (fk_timers f). \<not> drains t \<and> 1 \<le> firings (fk_now f + d) (fk_mem f t) \<and>
       2 \<le> firings (fk_now f + d) (fk_mem f t) + length (tm_ch (fk_mem f t))))"
  using advanceLoop_outcome [OF assms, of drains "fk_now f + d" "[]"] by (auto simp: Advance_def stuck_def)

text \<open>
  C29: A returning \<^verbatim>\<open>Advance\<close> fires each registered timer exactly at the instants it is due, a one-shot
  timer once and a ticker at every period up to the deadline, and no other timer; events come
  in order of their instant and, at the same instant, of registration; the clock ends at the
  deadline, only later timers stay registered, and the invariant holds again.
\<close>

theorem Advance_fires:
  assumes "clock_ok f" and "Advance drains d f = Some (Some (evs, f'))"
  shows "times_of t evs = (if t \<in> set (fk_timers f) then fire_times (fk_now f + d) (fk_mem f t) else []) \<and>
    sorted (map snd evs) \<and> fk_now f' = fk_now f + d \<and> clock_ok f' \<and>
    (t \<in> set (fk_timers f') \<longleftrightarrow>
      t \<in> set (fk_timers f) \<and> (fk_now f + d < tm_expiry (fk_mem f t) \<or> 0 < tm_period (fk_mem f t))) \<and>
    (\<forall>u \<in> set (fk_timers f'). fk_now f + d < tm_expiry (fk_mem f' u))"
  using advanceLoop_advanced [OF assms(1), of drains "fk_now f + d" "[]" evs f'] assms(2)
  by (auto simp: Advance_def advanced_def)

text \<open>
  C32: \<^verbatim>\<open>Stop\<close> reports whether the timer was registered; a stopped timer does not fire in a later
  \<^verbatim>\<open>Advance\<close>, and every other timer fires exactly as it would have without the call.
\<close>

theorem Stop_prevents_firing:
  assumes "clock_ok f" and "t < fk_next f" and "timer_Stop t f = (active, f1)"
    and "Advance drains d f1 = Some (Some (evs, f2))"
  shows "(active \<longleftrightarrow> t \<in> set (fk_timers f)) \<and> times_of t evs = [] \<and>
    (u \<noteq> t \<longrightarrow> times_of u evs = (if u \<in> set (fk_timers f) then fire_times (fk_now f + d) (fk_mem f u) else []))"
proof -
  note S = timer_Stop_ok [OF assms(1-3)]
  have "advanced (fk_now f + d) f1 evs f2"
    using advanceLoop_advanced [OF S(1)] assms(4) S(5) by (fastforce simp: Advance_def)
  then show ?thesis using S(2,3) firings_core [OF S(6)] by (auto simp: advanced_def)
qed

end
