(* ===== verification/Clock_Runs.thy ===== *)
theory Clock_Runs
  imports Clock_Fake
begin

text \<open>
  Runs of the test clock: the inputs of the witnesses, and a run against its documentation.
\<close>

text \<open>The definitions that a symbolic run unfolds.\<close>

lemmas clock_defs = register_def nextSeqLocked_def alloc_timer_def u64_succ_def heap_Push_def heap_Pop_def heap_Remove_def
  NewTimer_def NewTicker_def timer_Stop_def ft_Len_def ft_Less_def ft_Swap_def set_idx_def ft_Push_def
  ft_Pop_def swap_at_def zero_timer_def NewFake_def heap_up.simps heap_down.simps Let_def fun_upd_twist numeral_2_eq_2 [symmetric]

text \<open>A clock with timers due at 5 and 5, a ticker of period 2 and a stopped timer.\<close>

definition demo_ops :: "clock_op list" where
  "demo_ops = [Op_NewTimer 5, Op_NewTicker 2, Op_NewTimer 5, Op_NewTimer 1, Op_Stop 3]"

definition demo_clock :: fake where
  "demo_clock = the (clock_run demo_ops NewFake)"

lemma demo_run: "clock_run demo_ops NewFake = Some f \<Longrightarrow>
    set (fk_timers f) = {0, 1, 2} \<and> fk_now f = 0 \<and> fk_next f = 4 \<and>
    firings 6 (fk_mem f 1) = 3 \<and> tm_ch (fk_mem f 1) = [] \<and> fire_times 6 (fk_mem f 1) = [2, 4, 6] \<and> fire_times 6 (fk_mem f 0) = [5]"
  by (auto simp: demo_ops_def clock_defs firings_def fire_times_def upt_rec)

lemma demo_some: "clock_run demo_ops NewFake = Some demo_clock"
proof -
  have "clock_run demo_ops NewFake \<noteq> None" by (simp add: demo_ops_def clock_defs)
  then show ?thesis by (simp add: demo_clock_def)
qed

lemmas demo_values = demo_run [OF demo_some]

lemma demo_ok: "clock_ok demo_clock"
  by (rule clock_run_ok [OF clock_NewFake demo_some])

theorem clock_invariant_witness:
  "heap_ordered (length (fk_timers demo_clock)) (ft_keys demo_clock) \<and> tm_idx (fk_mem demo_clock 3) = - 1"
  using clock_invariant [OF demo_some] demo_values by simp

theorem Advance_terminates_witness:
  "Advance (\<lambda>_. True) 6 demo_clock \<noteq> None \<and> Advance (\<lambda>_. False) 6 demo_clock = Some None"
  using Advance_terminates [OF demo_ok, of "\<lambda>_. True" 6] Advance_terminates [OF demo_ok, of "\<lambda>_. False" 6] demo_values
  by auto

theorem Advance_fires_witness:
  "\<exists>evs f'. Advance (\<lambda>_. True) 6 demo_clock = Some (Some (evs, f')) \<and> times_of 1 evs = [2, 4, 6] \<and> fk_now f' = 6"
proof -
  obtain evs f' where r: "Advance (\<lambda>_. True) 6 demo_clock = Some (Some (evs, f'))"
    by (rule Advance_drained [OF demo_ok])
  then show ?thesis using Advance_fires [OF demo_ok r, of 1] demo_values by auto
qed

theorem Stop_prevents_firing_witness:
  "\<exists>f1 evs f2. timer_Stop 1 demo_clock = (True, f1) \<and> Advance (\<lambda>_. True) 6 f1 = Some (Some (evs, f2)) \<and>
     times_of 1 evs = [] \<and> times_of 0 evs = [5]"
proof -
  obtain r f1 where s: "timer_Stop 1 demo_clock = (r, f1)" by fastforce
  have "clock_ok f1" using timer_Stop_ok(1) [OF demo_ok _ s] demo_values by simp
  then obtain evs f2 where a: "Advance (\<lambda>_. True) 6 f1 = Some (Some (evs, f2))" by (rule Advance_drained)
  show ?thesis using Stop_prevents_firing [OF demo_ok _ s a, of 0] s a demo_values by auto
qed


end
