(* ===== verification/Net_Chaos.thy ===== *)
theory Net_Chaos
  imports Complex_Main Raft_Config "HOL-Library.Multiset"
begin

text \<open>
  The fault knobs of the in-process network, \<^verbatim>\<open>pkg/transport/inproc/chaos.go\<close>: partitions, drops,
  delays, reordering and duplication, each with its own generator seeded from SHA-256 of the
  seed and a tag. Probabilities are rational numbers; a generator is the list of its draws.
\<close>

unbundle bit_operations_syntax

section \<open>SHA-256\<close>

text \<open>
  The constants of the standard: the first 32 bits of the fractional parts of the cube roots of
  the 64 primes up to 311, and of the square roots of the first eight. \<open>root_down k b n\<close> is the
  integer \<open>k\<close>-th root of \<open>n\<close> below \<open>2 ^ b\<close>, bit by bit from the top.
\<close>

fun root_down :: "nat \<Rightarrow> nat \<Rightarrow> nat \<Rightarrow> nat \<Rightarrow> nat" where
  "root_down k 0 n r = r"
| "root_down k (Suc b) n r = root_down k b n (if (r + 2 ^ b) ^ k \<le> n then r + 2 ^ b else r)"

definition sha_primes :: "nat list" where
  "sha_primes = filter (\<lambda>p. \<forall>q \<in> set [2..<p]. \<not> q dvd p) [2..<312]"

definition sha_K :: "32 word list" where
  "sha_K = map (\<lambda>p. word_of_nat (root_down 3 35 (p * 2 ^ 96) 0)) sha_primes"

definition sha_H0 :: "32 word list" where
  "sha_H0 = map (\<lambda>p. word_of_nat (root_down 2 37 (p * 2 ^ 64) 0)) (take 8 sha_primes)"

lemma root_down_ok:
  assumes "r ^ k \<le> n" and "n < (r + 2 ^ b) ^ k"
  shows "root_down k b n r ^ k \<le> n \<and> n < (root_down k b n r + 1) ^ k"
  using assms
proof (induction b arbitrary: r)
  case (Suc b)
  have "r + 2 ^ b + 2 ^ b = r + 2 ^ Suc b" by simp
  then have "n < (r + 2 ^ b + 2 ^ b) ^ k" using Suc.prems(2) by metis
  then show ?case using Suc.IH [of "r + 2 ^ b"] Suc.IH [of r] Suc.prems(1) by (simp add: not_le)
qed simp

definition sha_small :: "nat \<Rightarrow> nat \<Rightarrow> nat \<Rightarrow> 32 word \<Rightarrow> 32 word" where
  "sha_small a b c x = word_rotr a x XOR word_rotr b x XOR drop_bit c x"

definition sha_big :: "nat \<Rightarrow> nat \<Rightarrow> nat \<Rightarrow> 32 word \<Rightarrow> 32 word" where
  "sha_big a b c x = word_rotr a x XOR word_rotr b x XOR word_rotr c x"

text \<open>The message schedule; the list is kept in reverse, the newest word first.\<close>

primrec sha_expand :: "nat \<Rightarrow> 32 word list \<Rightarrow> 32 word list" where
  "sha_expand 0 ws = ws"
| "sha_expand (Suc k) ws =
     sha_expand k ((sha_small 17 19 10 (ws ! 1) + ws ! 6 + sha_small 7 18 3 (ws ! 14) + ws ! 15) # ws)"

definition sha_round :: "32 word \<times> 32 word \<Rightarrow> 32 word list \<Rightarrow> 32 word list" where
  "sha_round kw st =
     (case st of
        [a, b, c, d, e, f, g, h] \<Rightarrow>
          let t1 = h + sha_big 6 11 25 e + ((e AND f) XOR (NOT e AND g)) + fst kw + snd kw;
              t2 = sha_big 2 13 22 a + ((a AND b) XOR (a AND c) XOR (b AND c))
          in [t1 + t2, a, b, c, d + t1, e, f, g]
      | _ \<Rightarrow> st)"

fun be_words :: "byte list \<Rightarrow> 32 word list" where
  "be_words (a # b # c # d # bs) =
     (push_bit 24 (ucast a) OR push_bit 16 (ucast b) OR push_bit 8 (ucast c) OR ucast d) # be_words bs"
| "be_words _ = []"

definition sha_block :: "byte list \<Rightarrow> 32 word list \<Rightarrow> 32 word list" where
  "sha_block bs st =
     (let ws = rev (sha_expand 48 (rev (be_words bs)))
      in map2 (+) st (fold sha_round (zip sha_K ws) st))"

definition be_bytes :: "nat \<Rightarrow> 'a::len word \<Rightarrow> byte list" where
  "be_bytes n w = map (\<lambda>i. ucast (drop_bit (8 * i) w)) (rev [0..<n])"

definition sha_pad :: "byte list \<Rightarrow> byte list" where
  "sha_pad bs =
     bs @ 128 # replicate ((119 - length bs mod 64) mod 64) 0 @ be_bytes 8 (word_of_nat (8 * length bs) :: 64 word)"

fun sha_blocks :: "nat \<Rightarrow> byte list \<Rightarrow> 32 word list \<Rightarrow> 32 word list" where
  "sha_blocks 0 bs st = st"
| "sha_blocks (Suc k) bs st = sha_blocks k (drop 64 bs) (sha_block (take 64 bs) st)"

definition sha256_Sum256 :: "byte list \<Rightarrow> byte list" where
  "sha256_Sum256 bs =
     (let p = sha_pad bs in concat (map (be_bytes 4) (sha_blocks (length p div 64) p sha_H0)))"

lemma sha_pad_blocks: "length (sha_pad bs) mod 64 = 0"
proof -
  define r where "r = length bs mod 64"
  have r: "r < 64" by (simp add: r_def)
  have "length bs = 64 * (length bs div 64) + r" by (simp add: r_def)
  moreover have "(r + 9 + (119 - r) mod 64) mod 64 = 0"
  proof (cases "r \<le> 55")
    case True
    then have "119 - r = 64 + (55 - r)" by simp
    then have "(119 - r) mod 64 = (55 - r) mod 64" by (simp only: mod_add_self1)
    moreover have "55 - r < 64" by simp
    ultimately show ?thesis using True by simp
  next
    case False
    then have "(119 - r) mod 64 = 119 - r" by simp
    then show ?thesis using r by simp
  qed
  moreover have "length (sha_pad bs) = length bs + 9 + (119 - r) mod 64"
    by (simp add: sha_pad_def be_bytes_def r_def)
  ultimately show ?thesis by (metis (no_types, lifting) add.assoc mod_mult_self4)
qed

section \<open>Seeds and knobs\<close>

definition tagDrop :: string where "tagDrop = ''drop''"
definition tagDelay :: string where "tagDelay = ''delay''"
definition tagReorder :: string where "tagReorder = ''reorder''"
definition tagDup :: string where "tagDup = ''duplicate''"

definition splitSeed :: "int \<Rightarrow> string \<Rightarrow> int" where
  "splitSeed seed tag =
     (let be = be_bytes 8 (word_of_int seed :: 64 word);
          sum = sha256_Sum256 (be @ map (\<lambda>c. word_of_nat (of_char c)) tag)
      in sint (fold (\<lambda>b w. push_bit 8 w OR ucast b) (take 8 sum) (0 :: 64 word)))"

record chaos =
  ch_dropRNG :: rng
  ch_delayRNG :: rng
  ch_reorderRNG :: rng
  ch_dupRNG :: rng
  ch_partitions :: "(nodeid \<times> nodeid) set"
  ch_dropPerNode :: "(nodeid \<times> rat) list"
  ch_delayMin :: int
  ch_delayMax :: int
  ch_reorderOn :: bool
  ch_reorderQD :: int
  ch_dupRate :: rat

text \<open>\<open>mkRand\<close> is \<^verbatim>\<open>rand.New(rand.NewPCG(a, b))\<close>.\<close>

definition newChaos :: "(64 word \<times> 64 word \<Rightarrow> rng) \<Rightarrow> int \<Rightarrow> chaos" where
  "newChaos mkRand seed =
     (let mk = (\<lambda>tag. let s = word_of_int (splitSeed seed tag) in mkRand (s, s XOR 0x9E3779B97F4A7C15))
      in \<lparr>ch_dropRNG = mk tagDrop, ch_delayRNG = mk tagDelay, ch_reorderRNG = mk tagReorder, ch_dupRNG = mk tagDup,
          ch_partitions = {}, ch_dropPerNode = [], ch_delayMin = 0, ch_delayMax = 0,
          ch_reorderOn = False, ch_reorderQD = 0, ch_dupRate = 0\<rparr>)"

definition isPartitioned :: "nodeid \<Rightarrow> nodeid \<Rightarrow> chaos \<Rightarrow> bool" where
  "isPartitioned a b c \<longleftrightarrow> (a, b) \<in> ch_partitions c"

text \<open>\<^verbatim>\<open>Float64\<close>: 53 bits of a draw as a fraction in [0, 1).\<close>

fun Float64 :: "rng \<Rightarrow> rat \<times> rng" where
  "Float64 [] = (0, [])"
| "Float64 (x # xs) = (of_nat (x mod 9007199254740992) / 9007199254740992, xs)"

definition dropDecision :: "nodeid \<Rightarrow> chaos \<Rightarrow> bool \<times> chaos" where
  "dropDecision from c =
     (let p = (case map_of (ch_dropPerNode c) from of None \<Rightarrow> 0 | Some p \<Rightarrow> p) in
      if p \<le> 0 then (False, c)
      else let (x, r) = Float64 (ch_dropRNG c) in (x < p, c\<lparr>ch_dropRNG := r\<rparr>))"

definition sampleDelay :: "chaos \<Rightarrow> int \<times> chaos" where
  "sampleDelay c =
     (if ch_delayMax c \<le> ch_delayMin c then (ch_delayMin c, c)
      else
        let (x, r) = IntN (ch_delayRNG c) (nat (ch_delayMax c - ch_delayMin c))
        in (ch_delayMin c + int x, c\<lparr>ch_delayRNG := r\<rparr>))"

definition dupDecision :: "chaos \<Rightarrow> bool \<times> chaos" where
  "dupDecision c =
     (if ch_dupRate c \<le> 0 then (False, c)
      else let (x, r) = Float64 (ch_dupRNG c) in (x < ch_dupRate c, c\<lparr>ch_dupRNG := r\<rparr>))"

text \<open>\<^verbatim>\<open>Rand.Shuffle\<close>: Fisher-Yates from the end, on a slice of length \<open>n\<close>.\<close>

fun shuffle_down :: "nat \<Rightarrow> rng \<Rightarrow> 'a list \<Rightarrow> 'a list \<times> rng" where
  "shuffle_down 0 r xs = (xs, r)"
| "shuffle_down (Suc i) r xs =
     (let (j, r) = IntN r (i + 2)
      in shuffle_down i r (xs[Suc i := xs ! j, j := xs ! Suc i]))"

definition Shuffle :: "rng \<Rightarrow> 'a list \<Rightarrow> 'a list \<times> rng" where
  "Shuffle r xs = shuffle_down (length xs - 1) r xs"

section \<open>What the knobs do\<close>

lemma Float64_range: "0 \<le> fst (Float64 r)" "fst (Float64 r) < 1"
proof -
  have "(of_nat (x mod 9007199254740992) :: rat) < 9007199254740992" for x
    by (metis less_numeral_extra(3) mod_less_divisor of_nat_less_numeral_iff zero_less_numeral)
  then show "0 \<le> fst (Float64 r)" "fst (Float64 r) < 1" by (cases r; simp)+
qed

lemma drop_extremes:
  assumes "dropDecision from c = (b, c')"
  shows "map_of (ch_dropPerNode c) from = None \<Longrightarrow> \<not> b" "map_of (ch_dropPerNode c) from = Some p \<Longrightarrow> p \<le> 0 \<Longrightarrow> \<not> b"
    "map_of (ch_dropPerNode c) from = Some p \<Longrightarrow> 1 \<le> p \<Longrightarrow> b"
  using assms Float64_range(2) [of "ch_dropRNG c"] by (auto simp: dropDecision_def Let_def split_beta)

lemma dup_extremes:
  assumes "dupDecision c = (b, c')"
  shows "ch_dupRate c \<le> 0 \<Longrightarrow> \<not> b" "1 \<le> ch_dupRate c \<Longrightarrow> b"
  using assms Float64_range(2) [of "ch_dupRNG c"] by (auto simp: dupDecision_def Let_def split_beta)

lemma sampleDelay_range:
  assumes "sampleDelay c = (d, c')"
  shows "ch_delayMin c \<le> d" "d < ch_delayMax c \<or> d = ch_delayMin c"
  using assms IntN_bound [of "nat (ch_delayMax c - ch_delayMin c)" "ch_delayRNG c"]
  by (auto simp: sampleDelay_def Let_def split_beta split: if_splits)

lemma shuffle_down_perm: "i < length xs \<or> i = 0 \<Longrightarrow> mset (fst (shuffle_down i r xs)) = mset xs"
proof (induction i r xs rule: shuffle_down.induct)
  case (2 i r xs)
  have j: "fst (IntN r (i + 2)) < Suc (Suc i)" using IntN_bound [of "i + 2" r] by simp
  then have "mset (xs[Suc i := xs ! fst (IntN r (i + 2)), fst (IntN r (i + 2)) := xs ! Suc i]) = mset xs"
    using 2(2) by (intro mset_swap) auto
  then show ?case using 2 by (auto simp: Let_def split_beta)
qed simp

lemma Shuffle_perm: "mset (fst (Shuffle r xs)) = mset xs"
  by (cases xs) (simp_all add: Shuffle_def shuffle_down_perm)

lemma chaos_sel [simp]:
  "ch_partitions (snd (dropDecision from c)) = ch_partitions c" "ch_dupRate (snd (dropDecision from c)) = ch_dupRate c"
  "ch_delayMin (snd (dropDecision from c)) = ch_delayMin c"
  "ch_partitions (snd (sampleDelay c)) = ch_partitions c" "ch_dupRate (snd (sampleDelay c)) = ch_dupRate c"
  "ch_partitions (snd (dupDecision c)) = ch_partitions c" "ch_dupRate (snd (dupDecision c)) = ch_dupRate c"
  by (simp_all add: dropDecision_def sampleDelay_def dupDecision_def Let_def split_beta)

end
