(* ===== verification/Net_Hub.thy ===== *)
theory Net_Hub
  imports Net_Chaos Clock_Heap "HOL-Library.Product_Lexorder"
begin

text \<open>
  The in-process network, \<^verbatim>\<open>pkg/transport/inproc/hub.go\<close> and \<^verbatim>\<open>dispatcher.go\<close>. A hub keeps the messages
  in flight in a heap ordered by delivery time and sequence number, and a bounded inbound
  channel, a list of messages, per connected node. Its mutex makes every method one step.
  The clock's \<^verbatim>\<open>Now()\<close> is the argument \<open>now\<close>.
\<close>

section \<open>pendingHeap\<close>

record pending =
  pd_deliverAt :: int
  pd_seq :: nat
  pd_from :: nodeid
  pd_to :: nodeid
  pd_msg :: message
  pd_idx :: int

type_synonym pendingHeap = "pending list"

definition pq_Len :: "pendingHeap \<Rightarrow> nat" where
  "pq_Len h = length h"

definition pq_Less :: "pendingHeap \<Rightarrow> nat \<Rightarrow> nat \<Rightarrow> bool" where
  "pq_Less h i j =
     (if pd_deliverAt (h ! i) = pd_deliverAt (h ! j) then pd_seq (h ! i) < pd_seq (h ! j)
      else pd_deliverAt (h ! i) < pd_deliverAt (h ! j))"

definition pq_Swap :: "nat \<Rightarrow> nat \<Rightarrow> pendingHeap \<Rightarrow> pendingHeap" where
  "pq_Swap i j h =
     (let h = swap_at i j h; h = h[i := (h ! i)\<lparr>pd_idx := int i\<rparr>] in h[j := (h ! j)\<lparr>pd_idx := int j\<rparr>])"

definition pq_Push :: "pending \<Rightarrow> pendingHeap \<Rightarrow> pendingHeap" where
  "pq_Push p h = h @ [p\<lparr>pd_idx := int (length h)\<rparr>]"

definition pq_Pop :: "pendingHeap \<Rightarrow> pending \<times> pendingHeap" where
  "pq_Pop h = ((last h)\<lparr>pd_idx := - 1\<rparr>, butlast h)"

abbreviation Push_pending :: "pending \<Rightarrow> pendingHeap \<Rightarrow> pendingHeap" where
  "Push_pending \<equiv> heap_Push pq_Len pq_Less pq_Swap pq_Push"

abbreviation Pop_pending :: "pendingHeap \<Rightarrow> pending \<times> pendingHeap" where
  "Pop_pending \<equiv> heap_Pop pq_Len pq_Less pq_Swap pq_Pop"

definition pkey :: "pending \<Rightarrow> int \<times> nat" where
  "pkey p = (pd_deliverAt p, pd_seq p)"

text \<open>A message in flight up to its position in the heap.\<close>

abbreviation pval :: "pending \<Rightarrow> pending" where
  "pval p \<equiv> p\<lparr>pd_idx := 0\<rparr>"

lemma pkey_idx [simp]: "pkey (p\<lparr>pd_idx := i\<rparr>) = pkey p"
  by (simp add: pkey_def)

lemma pval_eqD:
  assumes "pval p = pval p'"
  shows "pkey p = pkey p'" "pd_deliverAt p = pd_deliverAt p'" "pd_from p = pd_from p'" "pd_to p = pd_to p'" "pd_msg p = pd_msg p'"
  using assms by (cases p; cases p'; simp add: pkey_def)+

lemma length_pq_Swap [simp]: "length (pq_Swap i j h) = length h"
  by (simp add: pq_Swap_def Let_def swap_at_def)

lemma pq_Swap_map:
  assumes "i < length h" "j < length h" and "\<And>p k. g (p\<lparr>pd_idx := k\<rparr>) = g p"
  shows "map g (pq_Swap i j h) = swap_at i j (map g h)"
  using assms by (intro nth_equalityI) (auto simp: pq_Swap_def Let_def swap_at_def nth_list_update)

text \<open>Positions stored in the messages are the positions in the heap.\<close>

definition pq_inv :: "pendingHeap \<Rightarrow> bool" where
  "pq_inv h \<longleftrightarrow> (\<forall>i < length h. pd_idx (h ! i) = int i)"

lemma pq_Swap_inv: "i < length h \<Longrightarrow> j < length h \<Longrightarrow> pq_inv h \<Longrightarrow> pq_inv (pq_Swap i j h)"
  by (auto simp: pq_inv_def pq_Swap_def Let_def swap_at_def nth_list_update)

interpretation pq: heap_impl pq_Len pq_Less pq_Swap "map pkey" "map pval" pq_inv pval pq_Push pq_Pop "\<lambda>_ _. True"
proof (unfold_locales, goal_cases)
  case (3 i h j)
  then show ?case by (auto simp: pq_Less_def pq_Len_def pkey_def less_prod_def)
next
  case (4 i h j)
  then show ?case by (intro pq_Swap_map) (simp_all add: pq_Len_def)
next
  case (5 i h j)
  then show ?case by (intro pq_Swap_map) (simp_all add: pq_Len_def)
next
  case (8 h x h')
  then have "last (map pval h) = pval (last h)" by (intro last_map) (auto simp: pq_Len_def)
  moreover have "pq_inv (butlast h)" using 8 by (auto simp: pq_inv_def nth_butlast)
  ultimately show ?case using 8 by (auto simp: pq_Pop_def map_butlast)
qed (simp_all add: pq_Len_def pq_Swap_inv, simp_all add: pq_inv_def pq_Push_def nth_append less_Suc_eq)

text \<open>Taking the least message off any slice makes it shorter.\<close>

lemma length_down: "length (fst (heap_down pq_Less pq_Swap i n h)) = length h"
  by (induction pq_Less pq_Swap i n h rule: heap_down.induct) (subst heap_down.simps, auto simp: Let_def)

lemma length_Pop: "length (snd (Pop_pending h)) = length h - 1"
  by (simp add: heap_Pop_def Let_def pq_Pop_def split_beta length_down)

section \<open>The queue of due messages\<close>

definition peekDue :: "int \<Rightarrow> pendingHeap \<Rightarrow> pending option" where
  "peekDue now q = (if pq_Len q = 0 then None else if pd_deliverAt (q ! 0) > now then None else Some (q ! 0))"

text \<open>The pointer \<^verbatim>\<open>peekDue\<close> returns and the one \<^verbatim>\<open>heap.Pop\<close> returns are the same, the top of the heap.\<close>

function drainDueLocked :: "int \<Rightarrow> pendingHeap \<Rightarrow> pending list \<times> pendingHeap" where
  "drainDueLocked now q =
     (if peekDue now q = None then ([], q)
      else
        let (p, q) = Pop_pending q; (due, q) = drainDueLocked now q
        in (p # due, q))"
  by pat_completeness auto

termination drainDueLocked
proof (relation "measure (\<lambda>(now, q). length q)", goal_cases)
  case (2 now q pq p q')
  then have "0 < length q" by (auto simp: peekDue_def pq_Len_def)
  moreover have "length q' = length q - 1" using 2(2,3) length_Pop [of q] by (metis snd_conv)
  ultimately show ?case by simp
qed simp

declare drainDueLocked.simps [simp del]

definition pq_due :: "int \<Rightarrow> pendingHeap \<Rightarrow> pending list" where
  "pq_due now q = filter (\<lambda>p. pd_deliverAt p \<le> now) (map pval q)"

lemma pval_mem:
  assumes "mset (map pval xs) \<subseteq># mset (map pval ys)" and "x \<in> set xs"
  shows "\<exists>y \<in> set ys. pval x = pval y"
proof -
  have "pval x \<in># mset (map pval ys)" using assms by (intro mset_subset_eqD [OF assms(1)]) auto
  then show ?thesis by auto
qed

lemma drain_ok:
  assumes "pq.heap_ok q" and "drainDueLocked now q = (due, q')"
  shows "pq.heap_ok q' \<and> sorted (map pkey due) \<and> (\<forall>p \<in> set q'. now < pd_deliverAt p) \<and>
    (\<forall>p \<in> set due. pd_deliverAt p \<le> now) \<and> mset (map pval q) = mset (map pval due) + mset (map pval q')"
  using assms
proof (induction now q arbitrary: due q' rule: drainDueLocked.induct)
  case (1 now q)
  have least: "pkey (q ! 0) \<le> pkey p" if "p \<in> set q" for p
  proof -
    obtain i where "i < length q" "q ! i = p" using \<open>p \<in> set q\<close> by (auto simp: in_set_conv_nth)
    moreover from this have "0 < length q" by auto
    ultimately show ?thesis using pq.root_least [OF 1(2), of i] by (simp add: pq_Len_def)
  qed
  show ?case
  proof (cases "peekDue now q")
    case None
    then have "now < pd_deliverAt p" if "p \<in> set q" for p
      using least [OF that] that by (force simp: peekDue_def pq_Len_def pkey_def less_eq_prod_def split: if_splits)
    then show ?thesis using 1(2,3) None by (simp add: drainDueLocked.simps [of now q])
  next
    case (Some top)
    then have top: "pd_deliverAt (q ! 0) \<le> now" "0 < length q"
      by (auto simp: peekDue_def pq_Len_def split: if_splits)
    obtain p q1 where pop: "Pop_pending q = (p, q1)" by fastforce
    obtain due1 where rest: "drainDueLocked now q1 = (due1, q')" and due: "due = p # due1"
      using 1(3) Some pop by (auto simp: drainDueLocked.simps [of now q] split: prod.splits)
    have P: "pq.heap_ok q1" "pval p = pval (q ! 0)" "mset (map pval q) = add_mset (pval p) (mset (map pval q1))"
      using pq.Pop_ok [OF 1(2) _ pop] top(2) by (auto simp: pq_Len_def nth_map)
    have IH: "pq.heap_ok q' \<and> sorted (map pkey due1) \<and> (\<forall>p \<in> set q'. now < pd_deliverAt p) \<and>
        (\<forall>p \<in> set due1. pd_deliverAt p \<le> now) \<and> mset (map pval q1) = mset (map pval due1) + mset (map pval q')"
      using 1(1) [OF _ pop [symmetric] refl P(1) rest] Some by simp
    have "pkey p \<le> pkey x" if x: "x \<in> set due1" for x
    proof -
      have "mset (map pval due1) \<subseteq># mset (map pval q)" using IH P(3) by simp
      then obtain y where y: "y \<in> set q" "pval x = pval y" using pval_mem [OF _ x] by blast
      show ?thesis using least [OF y(1)] pval_eqD(1) [OF P(2)] pval_eqD(1) [OF y(2)] by simp
    qed
    then show ?thesis using IH P(3) pval_eqD(2) [OF P(2)] top by (simp add: due)
  qed
qed

section \<open>The hub\<close>

record HubConfig =
  hc_Clock :: "clock_ref option"
  hc_Seed :: int
  hc_InboundCap :: int
  hc_CloseTimeout :: int
  hc_SyncDelivery :: bool

definition defaultInboundCap :: int where "defaultInboundCap = 256"
definition defaultCloseTimeout :: int where "defaultCloseTimeout = 100 * millisecond"

definition hub_applyDefaults :: "HubConfig \<Rightarrow> HubConfig" where
  "hub_applyDefaults c = (if hc_Clock c = None then c\<lparr>hc_Clock := Some RealClock\<rparr> else c)"

text \<open>
  \<open>hb_nodes\<close> maps a node to the content of its inbound channel; \<open>hb_done\<close> is the cancelled
  context, \<open>hb_once\<close> the \<^verbatim>\<open>sync.Once\<close> of \<^verbatim>\<open>Close\<close>, \<open>hb_wake\<close> a value in the wake channel.
\<close>

record hub =
  hb_cfg :: HubConfig
  hb_done :: bool
  hb_once :: bool
  hb_sortedNodes :: "nodeid list"
  hb_nodes :: "(nodeid \<times> message list) list"
  hb_queue :: pendingHeap
  hb_seq :: nat
  hb_wake :: bool
  hb_chaos :: chaos

definition NewHub :: "(64 word \<times> 64 word \<Rightarrow> rng) \<Rightarrow> HubConfig \<Rightarrow> hub" where
  "NewHub mkRand cfg =
     (let cfg = hub_applyDefaults cfg;
          cfg = (if hc_InboundCap cfg = 0 then cfg\<lparr>hc_InboundCap := defaultInboundCap\<rparr> else cfg);
          cfg = (if hc_CloseTimeout cfg = 0 then cfg\<lparr>hc_CloseTimeout := defaultCloseTimeout\<rparr> else cfg)
      in \<lparr>hb_cfg = cfg, hb_done = False, hb_once = False, hb_sortedNodes = [], hb_nodes = [], hb_queue = [],
          hb_seq = 0, hb_wake = False, hb_chaos = newChaos mkRand (hc_Seed cfg)\<rparr>)"

text \<open>\<^verbatim>\<open>sort.Search\<close>: binary search for the first index at which the predicate holds.\<close>

function sort_Search :: "nat \<Rightarrow> nat \<Rightarrow> (nat \<Rightarrow> bool) \<Rightarrow> nat" where
  "sort_Search i j f =
     (if i < j then let h = (i + j) div 2 in if \<not> f h then sort_Search (h + 1) j f else sort_Search i h f else i)"
  by pat_completeness auto

termination sort_Search
  by (relation "measure (\<lambda>(i, j, f). j - i)") auto

declare sort_Search.simps [simp del]

text \<open>The endpoint is the pair of hub and node; \<^verbatim>\<open>make(chan)\<close> with a negative capacity panics.\<close>

definition Connect :: "nodeid \<Rightarrow> hub \<Rightarrow> hub option" where
  "Connect i h =
     (if map_of (hb_nodes h) i \<noteq> None then Some h
      else if hc_InboundCap (hb_cfg h) < 0 then None
      else
        let xs = hb_sortedNodes h; k = sort_Search 0 (length xs) (\<lambda>n. xs ! n \<ge> i)
        in Some (h\<lparr>hb_nodes := AList.update i [] (hb_nodes h), hb_sortedNodes := take k xs @ i # drop k xs\<rparr>))"

definition nextSeq :: "hub \<Rightarrow> nat \<times> hub" where
  "nextSeq h = (let s = u64_succ (hb_seq h) in (s, h\<lparr>hb_seq := s\<rparr>))"

definition hub_push :: "int \<Rightarrow> nodeid \<Rightarrow> message \<Rightarrow> hub \<Rightarrow> hub" where
  "hub_push when from msg h =
     (let (s, h) = nextSeq h;
          p = \<lparr>pd_deliverAt = when, pd_seq = s, pd_from = from, pd_to = m_To msg, pd_msg = msg, pd_idx = 0\<rparr>
      in h\<lparr>hb_queue := Push_pending p (hb_queue h)\<rparr>)"

text \<open>The part of \<^verbatim>\<open>send\<close> under the mutex; it tells whether a message was queued.\<close>

definition hub_enqueue :: "int \<Rightarrow> nodeid \<Rightarrow> message \<Rightarrow> hub \<Rightarrow> bool \<times> hub" where
  "hub_enqueue now from msg h =
     (if isPartitioned from (m_To msg) (hb_chaos h) then (False, h)
      else
        let (drop, c) = dropDecision from (hb_chaos h); h = h\<lparr>hb_chaos := c\<rparr> in
        if drop then (False, h)
        else
          let (delay, c) = sampleDelay (hb_chaos h); (dup, c) = dupDecision c;
              deliverAt = now + delay;
              h = hub_push deliverAt from msg (h\<lparr>hb_chaos := c\<rparr>);
              h = (if dup then hub_push (deliverAt + 1) from msg h else h)
          in (True, h))"

definition hub_send :: "int \<Rightarrow> nodeid \<Rightarrow> message \<Rightarrow> hub \<Rightarrow> hub" where
  "hub_send now from msg h =
     (let (queued, h) = hub_enqueue now from msg h in if queued then h\<lparr>hb_wake := True\<rparr> else h)"

definition Partition :: "nodeid \<Rightarrow> nodeid \<Rightarrow> hub \<Rightarrow> hub" where
  "Partition a b h = h\<lparr>hb_chaos := (hb_chaos h)\<lparr>ch_partitions := insert (b, a) (insert (a, b) (ch_partitions (hb_chaos h)))\<rparr>\<rparr>"

definition Heal :: "nodeid \<Rightarrow> nodeid \<Rightarrow> hub \<Rightarrow> hub" where
  "Heal a b h = h\<lparr>hb_chaos := (hb_chaos h)\<lparr>ch_partitions := ch_partitions (hb_chaos h) - {(a, b)} - {(b, a)}\<rparr>\<rparr>"

definition DropRate :: "nodeid \<Rightarrow> rat \<Rightarrow> hub \<Rightarrow> hub" where
  "DropRate i p h = h\<lparr>hb_chaos := (hb_chaos h)\<lparr>ch_dropPerNode := AList.update i p (ch_dropPerNode (hb_chaos h))\<rparr>\<rparr>"

definition Delay :: "int \<Rightarrow> int \<Rightarrow> hub \<Rightarrow> hub" where
  "Delay lo hi h = h\<lparr>hb_chaos := (hb_chaos h)\<lparr>ch_delayMin := lo, ch_delayMax := hi\<rparr>\<rparr>"

definition Reorder :: "bool \<Rightarrow> int \<Rightarrow> hub \<Rightarrow> hub" where
  "Reorder enabled queueDepth h = h\<lparr>hb_chaos := (hb_chaos h)\<lparr>ch_reorderOn := enabled, ch_reorderQD := queueDepth\<rparr>\<rparr>"

definition Duplicate :: "rat \<Rightarrow> hub \<Rightarrow> hub" where
  "Duplicate p h = h\<lparr>hb_chaos := (hb_chaos h)\<lparr>ch_dupRate := p\<rparr>\<rparr>"

definition hub_Close :: "hub \<Rightarrow> hub" where
  "hub_Close h = (if hb_once h then h else h\<lparr>hb_once := True, hb_done := True\<rparr>)"

section \<open>Ordering and delivery\<close>

text \<open>One bucket in windows of \<open>k + 1\<close> messages, each shuffled by itself.\<close>

function emit :: "nat \<Rightarrow> rng \<Rightarrow> 'a list \<Rightarrow> 'a list \<times> rng" where
  "emit k r [] = ([], r)"
| "emit k r (p # ps) =
     (let chunk = p # take k ps;
          (chunk, r) = (if length chunk > 1 then Shuffle r chunk else (chunk, r));
          (rest, r) = emit k r (drop k ps)
      in (chunk @ rest, r))"
  by pat_completeness auto

termination emit
  by (relation "measure (\<lambda>(k, r, ps). length ps)") auto

fun emit_all :: "nat \<Rightarrow> rng \<Rightarrow> 'a list list \<Rightarrow> 'a list \<times> rng" where
  "emit_all k r [] = ([], r)"
| "emit_all k r (b # bs) = (let (x, r) = emit k r b; (y, r) = emit_all k r bs in (x @ y, r))"

definition orderLocked :: "pending list \<Rightarrow> hub \<Rightarrow> pending list \<times> hub" where
  "orderLocked due h =
     (let c = hb_chaos h in
      if \<not> ch_reorderOn c \<or> length due < 2 \<or> ch_reorderQD c < 2 then (due, h)
      else
        let byTo = (\<lambda>i. filter (\<lambda>p. pd_to p = i) due);
            remainder = sort (remdups (filter (\<lambda>i. i \<notin> set (hb_sortedNodes h)) (map pd_to due)));
            (out, r) = emit_all (nat (ch_reorderQD c) - 1) (ch_reorderRNG c) (map byTo (hb_sortedNodes h @ remainder))
        in (out, h\<lparr>hb_chaos := c\<lparr>ch_reorderRNG := r\<rparr>\<rparr>))"

text \<open>
  The batch of one pass, if any message is due, with the snapshot of the receivers: \<open>None\<close> for a
  node that never connected.
\<close>

definition hub_batch :: "int \<Rightarrow> hub \<Rightarrow> (pending \<times> nodeid option) list option \<times> hub" where
  "hub_batch now h =
     (let (due, q) = drainDueLocked now (hb_queue h); h = h\<lparr>hb_queue := q\<rparr> in
      if due = [] then (None, h)
      else
        let (ordered, h) = orderLocked due h
        in (Some (map (\<lambda>p. (p, if map_of (hb_nodes h) (pd_to p) = None then None else Some (pd_to p))) ordered), h))"

definition inbound_of :: "nodeid \<Rightarrow> hub \<Rightarrow> message list" where
  "inbound_of i h = (case map_of (hb_nodes h) i of None \<Rightarrow> [] | Some ms \<Rightarrow> ms)"

definition inbound_full :: "nodeid \<Rightarrow> hub \<Rightarrow> bool" where
  "inbound_full i h \<longleftrightarrow> hc_InboundCap (hb_cfg h) \<le> int (length (inbound_of i h))"

definition inbound_put :: "nodeid \<Rightarrow> message \<Rightarrow> hub \<Rightarrow> hub" where
  "inbound_put i m h = h\<lparr>hb_nodes := AList.update i (inbound_of i h @ [m]) (hb_nodes h)\<rparr>"

definition hub_Recv :: "nodeid \<Rightarrow> hub \<Rightarrow> (message \<times> hub) option" where
  "hub_Recv i h =
     (case inbound_of i h of
        [] \<Rightarrow> None
      | m # ms \<Rightarrow> Some (m, h\<lparr>hb_nodes := AList.update i ms (hb_nodes h)\<rparr>))"

text \<open>
  The sends of one pass without a receiver or \<^verbatim>\<open>Close\<close> in between. \<open>None\<close>: a send blocks. When the
  context is done and the channel has room, \<^verbatim>\<open>select\<close> may take either case; \<open>stop\<close> says which.
  The first component tells whether the pass returned on the context.
\<close>

fun deliver_all :: "(pending \<Rightarrow> bool) \<Rightarrow> (pending \<times> nodeid option) list \<Rightarrow> hub \<Rightarrow> (bool \<times> hub) option" where
  "deliver_all stop [] h = Some (False, h)"
| "deliver_all stop ((p, None) # xs) h = deliver_all stop xs h"
| "deliver_all stop ((p, Some i) # xs) h =
     (if inbound_full i h then if hb_done h then Some (True, h) else None
      else if hb_done h \<and> stop p then Some (True, h)
      else deliver_all stop xs (inbound_put i (pd_msg p) h))"

lemma drain_shorter: "drainDueLocked now q = (due, q') \<Longrightarrow> length q' + length due = length q"
proof (induction now q arbitrary: due q' rule: drainDueLocked.induct)
  case (1 now q)
  show ?case
  proof (cases "peekDue now q = None")
    case False
    obtain p q1 where pop: "Pop_pending q = (p, q1)" by fastforce
    obtain d where d: "drainDueLocked now q1 = (d, q')" "due = p # d"
      using 1(2) False pop by (auto simp: drainDueLocked.simps [of now q] split: prod.splits)
    have "0 < length q" using False by (auto simp: peekDue_def pq_Len_def)
    then show ?thesis using 1(1) [OF False pop [symmetric] refl d(1)] d(2) length_Pop [of q] pop by simp
  qed (use 1(2) in \<open>simp add: drainDueLocked.simps [of now q]\<close>)
qed

lemma orderLocked_sel [simp]: "hb_queue (snd (orderLocked due h)) = hb_queue h" "hb_nodes (snd (orderLocked due h)) = hb_nodes h"
  "hb_cfg (snd (orderLocked due h)) = hb_cfg h" "hb_done (snd (orderLocked due h)) = hb_done h"
  "hb_sortedNodes (snd (orderLocked due h)) = hb_sortedNodes h" "hb_wake (snd (orderLocked due h)) = hb_wake h"
  "ch_partitions (hb_chaos (snd (orderLocked due h))) = ch_partitions (hb_chaos h)"
  by (simp_all add: orderLocked_def Let_def split_beta)

lemma deliver_all_queue: "deliver_all stop xs h = Some (b, h') \<Longrightarrow> hb_queue h' = hb_queue h"
  by (induction stop xs h rule: deliver_all.induct) (auto simp: inbound_put_def split: if_splits)

text \<open>\<open>None\<close>: the call is blocked on a full channel.\<close>

function DrainDueSync :: "int \<Rightarrow> (pending \<Rightarrow> bool) \<Rightarrow> hub \<Rightarrow> hub option" where
  "DrainDueSync now stop h =
     (case hub_batch now h of
        (None, h1) \<Rightarrow> Some h1
      | (Some batch, h1) \<Rightarrow>
          (case deliver_all stop batch h1 of
             None \<Rightarrow> None
           | Some (returned, h2) \<Rightarrow> if returned then Some h2 else DrainDueSync now stop h2))"
  by pat_completeness auto

lemma hub_batch_cases:
  assumes "hub_batch now h = (b, h1)"
  obtains (none) "drainDueLocked now (hb_queue h) = ([], hb_queue h1)" "b = None" "h1 = h\<lparr>hb_queue := hb_queue h1\<rparr>"
  | (some) due q where "drainDueLocked now (hb_queue h) = (due, q)" "due \<noteq> []" "h1 = snd (orderLocked due (h\<lparr>hb_queue := q\<rparr>))"
      "b = Some (map (\<lambda>p. (p, if map_of (hb_nodes h) (pd_to p) = None then None else Some (pd_to p))) (fst (orderLocked due (h\<lparr>hb_queue := q\<rparr>))))"
proof -
  obtain due q where d: "drainDueLocked now (hb_queue h) = (due, q)" by fastforce
  show thesis
  proof (cases "due = []")
    case True
    then show ?thesis using assms d none by (auto simp: hub_batch_def)
  next
    case False
    have "hb_nodes (snd (orderLocked due (h\<lparr>hb_queue := q\<rparr>))) = hb_nodes h" by simp
    then show ?thesis using assms d False some [OF d False] by (simp add: hub_batch_def Let_def split_beta)
  qed
qed

lemma pass_shorter:
  assumes "hub_batch now h = (Some batch, h1)" and "deliver_all stop batch h1 = Some (r, h2)"
  shows "length (hb_queue h2) < length (hb_queue h)"
  using assms(1)
proof (cases rule: hub_batch_cases)
  case (some due q)
  then have "hb_queue h2 = q" using deliver_all_queue [OF assms(2)] by simp
  then show ?thesis using drain_shorter [OF some(1)] some(2) by (cases due) auto
qed simp

termination DrainDueSync
  by (relation "measure (\<lambda>(now, stop, h). length (hb_queue h))") (auto dest: pass_shorter [OF sym])

declare DrainDueSync.simps [simp del]

section \<open>The invariant\<close>

lemma sort_Search_ok:
  assumes "\<And>m n. i \<le> m \<Longrightarrow> m \<le> n \<Longrightarrow> n < j \<Longrightarrow> f m \<Longrightarrow> f n" and "i \<le> j"
  shows "i \<le> sort_Search i j f \<and> sort_Search i j f \<le> j \<and>
    (\<forall>n. i \<le> n \<longrightarrow> n < sort_Search i j f \<longrightarrow> \<not> f n) \<and> (\<forall>n. sort_Search i j f \<le> n \<longrightarrow> n < j \<longrightarrow> f n)"
  using assms
proof (induction i j f rule: sort_Search.induct)
  case (1 i j f)
  show ?case
  proof (cases "i < j")
    case True
    define h where "h = (i + j) div 2"
    have h: "i \<le> h" "h < j" using True by (simp_all add: h_def)
    show ?thesis
    proof (cases "f h")
      case fh: True
      have s: "sort_Search i j f = sort_Search i h f" using True fh by (subst sort_Search.simps) (simp add: h_def)
      have IH: "i \<le> sort_Search i h f \<and> sort_Search i h f \<le> h \<and>
          (\<forall>n. i \<le> n \<longrightarrow> n < sort_Search i h f \<longrightarrow> \<not> f n) \<and> (\<forall>n. sort_Search i h f \<le> n \<longrightarrow> n < h \<longrightarrow> f n)"
      proof (rule 1(2) [OF True h_def])
        show "f n" if "i \<le> m" "m \<le> n" "n < h" "f m" for m n using that h(2) by (intro 1(3) [of m n]) auto
      qed (use fh h in simp_all)
      have "f n" if "h \<le> n" "n < j" for n using 1(3) [OF h(1) that fh] .
      then show ?thesis using IH h unfolding s by (meson leD leI le_less_trans less_imp_le_nat order_trans)
    next
      case fh: False
      have s: "sort_Search i j f = sort_Search (h + 1) j f" using True fh by (subst sort_Search.simps) (simp add: h_def)
      have IH: "h + 1 \<le> sort_Search (h + 1) j f \<and> sort_Search (h + 1) j f \<le> j \<and>
          (\<forall>n. h + 1 \<le> n \<longrightarrow> n < sort_Search (h + 1) j f \<longrightarrow> \<not> f n) \<and> (\<forall>n. sort_Search (h + 1) j f \<le> n \<longrightarrow> n < j \<longrightarrow> f n)"
      proof (rule 1(1) [OF True h_def fh])
        show "f n" if "h + 1 \<le> m" "m \<le> n" "n < j" "f m" for m n using that h(1) by (intro 1(3) [of m n]) auto
      qed (use h in simp)
      have "\<not> f n" if "i \<le> n" "n \<le> h" for n using 1(3) [OF that h(2)] fh by blast
      then show ?thesis using IH h unfolding s by (metis Suc_eq_plus1 not_less_eq_eq le_trans le_SucI)
    qed
  next
    case False
    then show ?thesis using 1(4) by (subst (1 2 3 4) sort_Search.simps) auto
  qed
qed

lemma search_insert_sorted:
  assumes "sorted xs" and "x \<notin> set xs" and "distinct xs" and "k = sort_Search 0 (length xs) (\<lambda>n. xs ! n \<ge> x)"
  shows "sorted (take k xs @ x # drop k xs)" "distinct (take k xs @ x # drop k xs)" "set (take k xs @ x # drop k xs) = insert x (set xs)"
proof -
  have mono: "0 \<le> m \<Longrightarrow> m \<le> n \<Longrightarrow> n < length xs \<Longrightarrow> xs ! m \<ge> x \<Longrightarrow> xs ! n \<ge> x" for m n
    using assms(1) by (meson order_trans sorted_nth_mono)
  have "0 \<le> k \<and> k \<le> length xs \<and> (\<forall>n. 0 \<le> n \<longrightarrow> n < k \<longrightarrow> \<not> xs ! n \<ge> x) \<and> (\<forall>n. k \<le> n \<longrightarrow> n < length xs \<longrightarrow> xs ! n \<ge> x)"
    unfolding assms(4) by (rule sort_Search_ok) (rule mono, assumption+, rule le0)
  then have K: "k \<le> length xs" "\<And>n. n < k \<Longrightarrow> \<not> xs ! n \<ge> x" "\<And>n. k \<le> n \<Longrightarrow> n < length xs \<Longrightarrow> xs ! n \<ge> x"
    by blast+
  have lo: "y < x" if "y \<in> set (take k xs)" for y
    using that K(1) K(2) [unfolded not_le] by (auto simp: in_set_conv_nth)
  have hi: "x \<le> y" if "y \<in> set (drop k xs)" for y
    using that K(1) K(3) by (auto simp: in_set_conv_nth)
  have "sorted (take k xs)" "sorted (drop k xs)" using assms(1) by (simp_all add: sorted_wrt_take sorted_wrt_drop)
  then show "sorted (take k xs @ x # drop k xs)" using lo hi by (auto simp: sorted_append intro: less_imp_le) (meson less_imp_le less_le_trans)
  have "set (take k xs) \<union> set (drop k xs) = set xs" by (metis append_take_drop_id set_append)
  then show "set (take k xs @ x # drop k xs) = insert x (set xs)" by auto
  have "set (take k xs) \<inter> set (drop k xs) = {}" using assms(3) by (simp add: set_take_disj_set_drop_if_distinct)
  then show "distinct (take k xs @ x # drop k xs)"
    using assms(2,3) \<open>set (take k xs) \<union> set (drop k xs) = set xs\<close> by auto
qed

definition hub_ok :: "hub \<Rightarrow> bool" where
  "hub_ok h \<longleftrightarrow> pq.heap_ok (hb_queue h) \<and> sorted (hb_sortedNodes h) \<and> distinct (hb_sortedNodes h) \<and>
     set (hb_sortedNodes h) = fst ` set (hb_nodes h) \<and> distinct (map fst (hb_nodes h)) \<and>
     (\<forall>i \<in> set (hb_sortedNodes h). int (length (inbound_of i h)) \<le> hc_InboundCap (hb_cfg h))"

lemma connected_iff: "map_of m i = None \<longleftrightarrow> i \<notin> fst ` set m"
  by (simp add: map_of_eq_None_iff)

lemma NewHub_ok: "hub_ok (NewHub mkRand cfg)"
  by (simp add: hub_ok_def NewHub_def Let_def pq.heap_ok_def pq_inv_def heap_ordered_def pq_Len_def)

lemma Connect_ok:
  assumes "hub_ok h" and "Connect i h = Some h'"
  shows "hub_ok h'"
proof (cases "map_of (hb_nodes h) i")
  case None
  let ?xs = "hb_sortedNodes h" and ?k = "sort_Search 0 (length (hb_sortedNodes h)) (\<lambda>n. hb_sortedNodes h ! n \<ge> i)"
  have i: "i \<notin> set ?xs" using assms(1) None by (simp add: hub_ok_def connected_iff)
  have h': "h' = h\<lparr>hb_nodes := AList.update i [] (hb_nodes h), hb_sortedNodes := take ?k ?xs @ i # drop ?k ?xs\<rparr>"
    and cap: "0 \<le> hc_InboundCap (hb_cfg h)"
    using assms(2) None by (auto simp: Connect_def Let_def split: if_splits)
  note S = search_insert_sorted [OF _ i _ refl]
  show ?thesis
    using assms(1) S cap i unfolding hub_ok_def
    by (auto simp: h' keys_update distinct_update inbound_of_def update_conv' split: if_splits)
qed (use assms in \<open>simp add: Connect_def\<close>)

lemma hub_push_ok:
  assumes "hub_ok h"
  shows "hub_ok (hub_push t from msg h)"
    "mset (map pval (hb_queue (hub_push t from msg h))) = add_mset \<lparr>pd_deliverAt = t, pd_seq = u64_succ (hb_seq h),
       pd_from = from, pd_to = m_To msg, pd_msg = msg, pd_idx = 0\<rparr> (mset (map pval (hb_queue h)))"
    "hb_nodes (hub_push t from msg h) = hb_nodes h" "hb_chaos (hub_push t from msg h) = hb_chaos h"
    "hb_seq (hub_push t from msg h) = u64_succ (hb_seq h)"
  using assms pq.Push_ok [of "hb_queue h"]
  by (simp_all add: hub_ok_def hub_push_def nextSeq_def Let_def inbound_of_def)

lemma hub_ok_fields [simp]:
  "hub_ok (h\<lparr>hb_chaos := c\<rparr>) = hub_ok h" "hub_ok (h\<lparr>hb_wake := w\<rparr>) = hub_ok h"
  "hub_ok (h\<lparr>hb_done := d\<rparr>) = hub_ok h" "hub_ok (h\<lparr>hb_once := d\<rparr>) = hub_ok h"
  by (simp_all add: hub_ok_def inbound_of_def)

lemma hub_enqueue_sel:
  assumes "hub_enqueue now from msg h = (queued, h')"
  shows "hb_wake h' = hb_wake h" "hb_cfg h' = hb_cfg h" "hb_done h' = hb_done h" "hb_sortedNodes h' = hb_sortedNodes h"
    "\<not> queued \<Longrightarrow> hb_queue h' = hb_queue h"
  using assms by (auto simp: hub_enqueue_def Let_def split_beta hub_push_def nextSeq_def split: if_splits)

text \<open>What a send adds to the queue: nothing, one copy, or two; only this message, to its addressee.\<close>

lemma hub_enqueue_ok:
  assumes "hub_ok h" and h'_def: "hub_enqueue now from msg h = (queued, h')"
  shows "hub_ok h'" and "hb_nodes h' = hb_nodes h" and "ch_partitions (hb_chaos h') = ch_partitions (hb_chaos h)"
    and "ch_dupRate (hb_chaos h') = ch_dupRate (hb_chaos h)"
    and "\<exists>copies. mset (map pval (hb_queue h')) = mset copies + mset (map pval (hb_queue h)) \<and>
      length copies \<le> (if ch_dupRate (hb_chaos h) \<le> 0 then 1 else 2) \<and>
      (isPartitioned from (m_To msg) (hb_chaos h) \<longrightarrow> copies = []) \<and>
      (\<forall>p \<in> set copies. pd_from p = from \<and> pd_to p = m_To msg \<and> pd_msg p = msg \<and>
         now + ch_delayMin (hb_chaos h) \<le> pd_deliverAt p)"
proof -
  define c1 c2 c3 where "c1 = snd (dropDecision from (hb_chaos h))" and "c2 = snd (sampleDelay c1)" and "c3 = snd (dupDecision c2)"
  define due dup where "due = now + fst (sampleDelay c1)" and "dup \<longleftrightarrow> fst (dupDecision c2)"
  define h1 where "h1 = hub_push due from msg (h\<lparr>hb_chaos := c3\<rparr>)"
  define h2 where "h2 = hub_push (due + 1) from msg h1"
  let ?off = "isPartitioned from (m_To msg) (hb_chaos h)" and ?drop = "fst (dropDecision from (hb_chaos h))"
  have h': "h' = (if ?off then h else if ?drop then h\<lparr>hb_chaos := c1\<rparr> else if dup then h2 else h1)"
    using h'_def by (auto simp: hub_enqueue_def Let_def split_beta c1_def c2_def c3_def due_def dup_def h1_def h2_def split: if_splits)
  note sel = c1_def c2_def c3_def
  have P1: "hub_ok h1" "hb_nodes h1 = hb_nodes h" "hb_chaos h1 = c3"
    "mset (map pval (hb_queue h1)) = add_mset \<lparr>pd_deliverAt = due, pd_seq = u64_succ (hb_seq h), pd_from = from,
       pd_to = m_To msg, pd_msg = msg, pd_idx = 0\<rparr> (mset (map pval (hb_queue h)))"
    using hub_push_ok [of "h\<lparr>hb_chaos := c3\<rparr>" due "from" msg] assms(1) by (simp_all add: h1_def)
  note P2 = hub_push_ok [OF P1(1), of "due + 1" "from" msg, folded h2_def]
  show "hub_ok h'" "hb_nodes h' = hb_nodes h" "ch_partitions (hb_chaos h') = ch_partitions (hb_chaos h)"
    "ch_dupRate (hb_chaos h') = ch_dupRate (hb_chaos h)"
    using assms(1) P1 P2 by (simp_all add: h' sel)
  have d: "now + ch_delayMin (hb_chaos h) \<le> due" using sampleDelay_range(1) [of c1] by (simp add: due_def sel prod_eq_iff)
  have u: "ch_dupRate (hb_chaos h) \<le> 0 \<Longrightarrow> \<not> dup" using dup_extremes(1) [of c2 dup c3] by (simp add: dup_def sel)
  let ?p = "\<lambda>t s. \<lparr>pd_deliverAt = t, pd_seq = s, pd_from = from, pd_to = m_To msg, pd_msg = msg, pd_idx = 0\<rparr>"
  show "\<exists>copies. mset (map pval (hb_queue h')) = mset copies + mset (map pval (hb_queue h)) \<and>
      length copies \<le> (if ch_dupRate (hb_chaos h) \<le> 0 then 1 else 2) \<and> (?off \<longrightarrow> copies = []) \<and>
      (\<forall>p \<in> set copies. pd_from p = from \<and> pd_to p = m_To msg \<and> pd_msg p = msg \<and> now + ch_delayMin (hb_chaos h) \<le> pd_deliverAt p)"
    by (rule exI [of _ "if ?off \<or> ?drop then [] else if dup then [?p (due + 1) (u64_succ (hb_seq h1)), ?p due (u64_succ (hb_seq h))] else [?p due (u64_succ (hb_seq h))]"])
      (use P1(4) P2(2) d u in \<open>auto simp: h'\<close>)
qed

lemma knobs_ok [simp]:
  "hub_ok (Partition a b h) = hub_ok h" "hub_ok (Heal a b h) = hub_ok h" "hub_ok (DropRate a r h) = hub_ok h"
  "hub_ok (Delay x y h) = hub_ok h" "hub_ok (Reorder e k h) = hub_ok h" "hub_ok (Duplicate r h) = hub_ok h" "hub_ok (hub_Close h) = hub_ok h"
  by (simp_all add: Partition_def Heal_def DropRate_def Delay_def Reorder_def Duplicate_def hub_Close_def)

section \<open>Reordering is a permutation\<close>

lemma emit_perm: "mset (fst (emit k r ps)) = mset ps"
proof (induction k r ps rule: emit.induct)
  case (2 k r p ps)
  let ?w = "p # take k ps"
  obtain c r' where s: "(if length ?w > 1 then Shuffle r ?w else (?w, r)) = (c, r')" by fastforce
  have "mset c = mset ?w" using Shuffle_perm [of r ?w] s by (auto split: if_splits)
  moreover have "mset (fst (emit k r' (drop k ps))) = mset (drop k ps)" by (rule 2 [OF refl s [symmetric] refl])
  moreover have "emit k r (p # ps) = (c @ fst (emit k r' (drop k ps)), snd (emit k r' (drop k ps)))"
    by (simp only: emit.simps Let_def s prod.case split_beta fst_conv snd_conv)
  moreover have "mset (take k ps) + mset (drop k ps) = mset ps" by (metis append_take_drop_id mset_append)
  ultimately show ?case by simp
qed simp

lemma emit_all_perm: "mset (fst (emit_all k r bs)) = mset (concat bs)"
  by (induction bs arbitrary: r) (simp_all add: Let_def split_beta emit_perm)

lemma buckets_perm:
  assumes "distinct ks" and "f ` set xs \<subseteq> set ks"
  shows "mset (concat (map (\<lambda>k. filter (\<lambda>x. f x = k) xs) ks)) = mset xs"
  using assms
proof (induction xs)
  case Nil
  then show ?case by (induction ks) simp_all
next
  case (Cons x xs)
  have "mset (concat (map (\<lambda>k. filter (\<lambda>y. f y = k) (x # xs)) ks)) =
      (if f x \<in> set ks then {#x#} else {#}) + mset (concat (map (\<lambda>k. filter (\<lambda>y. f y = k) xs) ks))" if "distinct ks" for ks
    using that by (induction ks) auto
  then show ?case using Cons by simp
qed

lemma orderLocked_perm:
  assumes "distinct (hb_sortedNodes h)"
  shows "mset (fst (orderLocked due h)) = mset due"
proof -
  let ?rem = "sort (remdups (filter (\<lambda>i. i \<notin> set (hb_sortedNodes h)) (map pd_to due)))"
  have "mset (concat (map (\<lambda>i. filter (\<lambda>p. pd_to p = i) due) (hb_sortedNodes h @ ?rem))) = mset due"
    by (rule buckets_perm) (use assms in auto)
  then show ?thesis
    unfolding orderLocked_def by (simp add: Let_def split_beta emit_all_perm)
qed

lemma orderLocked_fifo: "\<not> ch_reorderOn (hb_chaos h) \<or> ch_reorderQD (hb_chaos h) < 2 \<Longrightarrow> orderLocked due h = (due, h)"
  by (auto simp: orderLocked_def Let_def)

section \<open>Synchronous delivery\<close>

definition msgs_to :: "nodeid \<Rightarrow> (pending \<times> nodeid option) list \<Rightarrow> message list" where
  "msgs_to i batch = map (\<lambda>(p, r). pd_msg p) (filter (\<lambda>(p, r). r = Some i) batch)"

lemma msgs_to_simps [simp]:
  "msgs_to i [] = []" "msgs_to i ((p, None) # xs) = msgs_to i xs"
  "msgs_to i ((p, Some j) # xs) = (if i = j then pd_msg p # msgs_to i xs else msgs_to i xs)"
  by (simp_all add: msgs_to_def)

lemma inbound_put_sel [simp]:
  "inbound_of j (inbound_put i m h) = (if j = i then inbound_of i h @ [m] else inbound_of j h)"
  "hb_cfg (inbound_put i m h) = hb_cfg h" "hb_done (inbound_put i m h) = hb_done h" "hb_queue (inbound_put i m h) = hb_queue h"
  "hb_sortedNodes (inbound_put i m h) = hb_sortedNodes h" "hb_chaos (inbound_put i m h) = hb_chaos h"
  "fst ` set (hb_nodes (inbound_put i m h)) = insert i (fst ` set (hb_nodes h))"
  "distinct (map fst (hb_nodes h)) \<Longrightarrow> distinct (map fst (hb_nodes (inbound_put i m h)))"
  by (simp_all add: inbound_put_def inbound_of_def update_conv' keys_update distinct_update)

lemma inbound_put_ok:
  assumes "hub_ok h" and "i \<in> set (hb_sortedNodes h)" and "\<not> inbound_full i h"
  shows "hub_ok (inbound_put i m h)"
  using assms by (auto simp: hub_ok_def inbound_full_def insert_absorb)

lemma deliver_all_room:
  assumes "hub_ok h" and "\<not> hb_done h" and "\<forall>i. Some i \<in> snd ` set batch \<longrightarrow> i \<in> set (hb_sortedNodes h)"
    and "\<forall>i. msgs_to i batch \<noteq> [] \<longrightarrow> int (length (inbound_of i h) + length (msgs_to i batch)) \<le> hc_InboundCap (hb_cfg h)"
  shows "\<exists>h'. deliver_all stop batch h = Some (False, h') \<and> hub_ok h' \<and> hb_queue h' = hb_queue h \<and> hb_done h' = hb_done h \<and>
    hb_cfg h' = hb_cfg h \<and> hb_chaos h' = hb_chaos h \<and> hb_sortedNodes h' = hb_sortedNodes h \<and>
    (\<forall>i. inbound_of i h' = inbound_of i h @ msgs_to i batch)"
  using assms
proof (induction stop batch h rule: deliver_all.induct)
  case (3 stop p i xs h)
  have nf: "\<not> inbound_full i h" using 3(5) [rule_format, of i] by (auto simp: inbound_full_def)
  have ok: "hub_ok (inbound_put i (pd_msg p) h)" using 3(2,4) nf by (intro inbound_put_ok) auto
  have "int (length (inbound_of j (inbound_put i (pd_msg p) h)) + length (msgs_to j xs)) \<le> hc_InboundCap (hb_cfg h)"
    if "msgs_to j xs \<noteq> []" for j
    using 3(5) [rule_format, of j] that by (auto split: if_splits)
  then obtain h' where "deliver_all stop xs (inbound_put i (pd_msg p) h) = Some (False, h') \<and> hub_ok h' \<and>
      hb_queue h' = hb_queue h \<and> hb_done h' = hb_done h \<and> hb_cfg h' = hb_cfg h \<and> hb_chaos h' = hb_chaos h \<and>
      hb_sortedNodes h' = hb_sortedNodes h \<and>
      (\<forall>j. inbound_of j h' = inbound_of j (inbound_put i (pd_msg p) h) @ msgs_to j xs)"
    using 3(1) [OF nf _ ok] 3(3,4) by auto
  then show ?case using nf 3(3) by auto
qed auto

lemma DrainDueSync_idle:
  assumes "hub_ok h" and "\<forall>p \<in> set (hb_queue h). now < pd_deliverAt p"
  shows "DrainDueSync now stop h = Some h"
proof -
  have "peekDue now (hb_queue h) = None" using assms(2) by (auto simp: peekDue_def pq_Len_def)
  then have "hub_batch now h = (None, h)" by (simp add: hub_batch_def drainDueLocked.simps)
  then show ?thesis by (simp add: DrainDueSync.simps)
qed

lemma batch_msgs:
  assumes "hub_ok h" and "hub_batch now h = (Some batch, h1)"
  obtains due where "sorted (map pkey due)" "mset (map pval (hb_queue h)) = mset (map pval due) + mset (map pval (hb_queue h1))"
    "\<forall>p \<in> set due. pd_deliverAt p \<le> now" "\<forall>p \<in> set (hb_queue h1). now < pd_deliverAt p" "hub_ok h1"
    "mset (map fst batch) = mset due" "\<not> ch_reorderOn (hb_chaos h) \<or> ch_reorderQD (hb_chaos h) < 2 \<Longrightarrow> map fst batch = due"
    "\<forall>(p, r) \<in> set batch. r = (if pd_to p \<in> set (hb_sortedNodes h) then Some (pd_to p) else None)"
    "hb_nodes h1 = hb_nodes h" "hb_cfg h1 = hb_cfg h" "hb_done h1 = hb_done h" "hb_sortedNodes h1 = hb_sortedNodes h"
  using assms(2)
proof (cases rule: hub_batch_cases)
  case (some due q)
  let ?h = "h\<lparr>hb_queue := q\<rparr>"
  have D: "pq.heap_ok q" "sorted (map pkey due)" "\<forall>p \<in> set q. now < pd_deliverAt p" "\<forall>p \<in> set due. pd_deliverAt p \<le> now"
    "mset (map pval (hb_queue h)) = mset (map pval due) + mset (map pval q)"
    using drain_ok [OF _ some(1)] assms(1) by (simp_all add: hub_ok_def)
  have h1: "hb_queue h1 = q" "hb_nodes h1 = hb_nodes h" "hb_cfg h1 = hb_cfg h" "hb_done h1 = hb_done h" "hb_sortedNodes h1 = hb_sortedNodes h"
    using some(3) by simp_all
  have "hub_ok h1" using assms(1) D(1) h1 by (simp add: hub_ok_def inbound_of_def)
  moreover have "map fst batch = fst (orderLocked due ?h)" using some(4) by (simp add: comp_def)
  moreover have "mset (fst (orderLocked due ?h)) = mset due" using assms(1) by (intro orderLocked_perm) (simp add: hub_ok_def)
  moreover have "\<forall>(p, r) \<in> set batch. r = (if pd_to p \<in> set (hb_sortedNodes h) then Some (pd_to p) else None)"
    using some(4) assms(1) by (auto simp: hub_ok_def connected_iff)
  ultimately show ?thesis using that [of due] D h1 orderLocked_fifo [of ?h due] by (simp add: some(3))
qed simp

lemma msgs_to_batch:
  assumes "\<forall>(p, r) \<in> set batch. r = (if pd_to p \<in> N then Some (pd_to p) else None)"
  shows "msgs_to i batch = (if i \<in> N then map pd_msg (filter (\<lambda>p. pd_to p = i) (map fst batch)) else [])"
  using assms by (induction batch) (auto simp: msgs_to_def split: if_splits)

lemma split_due:
  assumes "mset (map pval q) = mset (map pval due) + mset (map pval q')"
    and "\<forall>p \<in> set due. pd_deliverAt p \<le> now" and "\<forall>p \<in> set q'. now < pd_deliverAt p"
  shows "mset (map pval due) = mset (filter (\<lambda>p. pd_deliverAt p \<le> now) (map pval q))"
    "mset (map pval q') = mset (filter (\<lambda>p. now < pd_deliverAt p) (map pval q))"
    "length (filter (\<lambda>p. pd_to p = i) due) = length (filter (\<lambda>p. pd_deliverAt p \<le> now \<and> pd_to p = i) q)"
proof -
  have 1: "filter (\<lambda>p. pd_deliverAt p \<le> now) (map pval due) = map pval due" "filter (\<lambda>p. pd_deliverAt p \<le> now) (map pval q') = []"
    "filter (\<lambda>p. now < pd_deliverAt p) (map pval due) = []" "filter (\<lambda>p. now < pd_deliverAt p) (map pval q') = map pval q'"
    using assms(2,3) by (auto simp: filter_empty_conv filter_id_conv)
  have F: "mset (filter P (map pval q)) = mset (filter P (map pval due)) + mset (filter P (map pval q'))" for P
    unfolding mset_filter assms(1) by simp
  show E: "mset (map pval due) = mset (filter (\<lambda>p. pd_deliverAt p \<le> now) (map pval q))"
    "mset (map pval q') = mset (filter (\<lambda>p. now < pd_deliverAt p) (map pval q))"
    using F [of "\<lambda>p. pd_deliverAt p \<le> now"] F [of "\<lambda>p. now < pd_deliverAt p"] by (simp_all only: 1) simp_all
  have "mset (filter (\<lambda>p. pd_to p = i) (map pval due)) = mset (filter (\<lambda>p. pd_to p = i) (filter (\<lambda>p. pd_deliverAt p \<le> now) (map pval q)))"
    by (simp only: mset_filter [of "\<lambda>p. pd_to p = i"] E)
  from arg_cong [OF this, of size, unfolded size_mset] show
    "length (filter (\<lambda>p. pd_to p = i) due) = length (filter (\<lambda>p. pd_deliverAt p \<le> now \<and> pd_to p = i) q)"
    by (simp add: filter_map comp_def conj_commute)
qed

lemma batch_none:
  assumes "hub_ok h" and "hub_batch now h = (None, h1)"
  shows "hub_ok h1" "inbound_of i h1 = inbound_of i h" "\<forall>p \<in> set (hb_queue h1). now < pd_deliverAt p"
    "mset (map pval (hb_queue h)) = mset (map pval []) + mset (map pval (hb_queue h1))"
proof -
  have n: "drainDueLocked now (hb_queue h) = ([], hb_queue h1)" "h1 = h\<lparr>hb_queue := hb_queue h1\<rparr>"
    using assms(2) by (cases rule: hub_batch_cases; simp)+
  have "pq.heap_ok (hb_queue h1)" and q: "\<forall>p \<in> set (hb_queue h1). now < pd_deliverAt p"
    "mset (map pval (hb_queue h)) = mset (map pval []) + mset (map pval (hb_queue h1))"
    using drain_ok [OF _ n(1)] assms(1) by (simp_all add: hub_ok_def)
  then show "hub_ok h1" "inbound_of i h1 = inbound_of i h" using assms(1) by (subst n(2), simp add: hub_ok_def inbound_of_def)+
  show "\<forall>p \<in> set (hb_queue h1). now < pd_deliverAt p"
    "mset (map pval (hb_queue h)) = mset (map pval []) + mset (map pval (hb_queue h1))" by (fact q)+
qed

text \<open>
  C35: \<^verbatim>\<open>DrainDueSync\<close> on an open hub with room returns, with every due message delivered to its
  addressee, if connected, and to nobody else, and every other message kept. Without reordering
  each node receives its messages by delivery time and, at the same time, in sending order;
  with reordering it receives the same messages in some order.
\<close>

theorem DrainDueSync_delivers:
  assumes "hub_ok h" and "\<not> hb_done h"
    and room: "\<forall>i \<in> set (hb_sortedNodes h). int (length (inbound_of i h) +
      length (filter (\<lambda>p. pd_deliverAt p \<le> now \<and> pd_to p = i) (hb_queue h))) \<le> hc_InboundCap (hb_cfg h)"
  shows "\<exists>h' due. DrainDueSync now stop h = Some h' \<and> hub_ok h' \<and> sorted (map pkey due) \<and>
    mset (map pval due) = mset (filter (\<lambda>p. pd_deliverAt p \<le> now) (map pval (hb_queue h))) \<and>
    mset (map pval (hb_queue h')) = mset (filter (\<lambda>p. now < pd_deliverAt p) (map pval (hb_queue h))) \<and>
    (\<forall>i \<in> set (hb_sortedNodes h). \<exists>ms. inbound_of i h' = inbound_of i h @ ms \<and>
       mset ms = mset (map pd_msg (filter (\<lambda>p. pd_to p = i) due)) \<and>
       (\<not> ch_reorderOn (hb_chaos h) \<or> ch_reorderQD (hb_chaos h) < 2 \<longrightarrow> ms = map pd_msg (filter (\<lambda>p. pd_to p = i) due)))"
proof (cases "hub_batch now h")
  case (Pair b h1)
  let ?fifo = "\<not> ch_reorderOn (hb_chaos h) \<or> ch_reorderQD (hb_chaos h) < 2"
  show ?thesis
  proof (cases b)
    case None
    note N = batch_none [OF assms(1) Pair [unfolded None]]
    show ?thesis
      using Pair None N split_due(1,2) [OF N(4) _ N(3)] by (intro exI [of _ h1] exI [of _ "[]"]) (simp add: DrainDueSync.simps [of now stop h])
  next
    case (Some batch)
    obtain due where D: "sorted (map pkey due)" "mset (map pval (hb_queue h)) = mset (map pval due) + mset (map pval (hb_queue h1))"
      "\<forall>p \<in> set due. pd_deliverAt p \<le> now" "\<forall>p \<in> set (hb_queue h1). now < pd_deliverAt p" "hub_ok h1"
      "mset (map fst batch) = mset due" "?fifo \<Longrightarrow> map fst batch = due"
      and B: "\<forall>(p, r) \<in> set batch. r = (if pd_to p \<in> set (hb_sortedNodes h) then Some (pd_to p) else None)"
      and H: "hb_nodes h1 = hb_nodes h" "hb_cfg h1 = hb_cfg h" "hb_done h1 = hb_done h" "hb_sortedNodes h1 = hb_sortedNodes h"
      by (rule batch_msgs [OF assms(1) Pair [unfolded Some]]) (rule that)
    note M = msgs_to_batch [OF B] and S = split_due [OF D(2-4)]
    have ms: "mset (map pd_msg (filter (\<lambda>p. pd_to p = i) (map fst batch))) = mset (map pd_msg (filter (\<lambda>p. pd_to p = i) due))" for i
      unfolding mset_map [of pd_msg] mset_filter D(6) ..
    have "length (msgs_to i batch) = length (filter (\<lambda>p. pd_deliverAt p \<le> now \<and> pd_to p = i) (hb_queue h))"
      if "i \<in> set (hb_sortedNodes h)" for i
      using arg_cong [OF ms [of i], of size, unfolded size_mset] M [of i] that by (simp add: S(3))
    then have room': "\<forall>i. msgs_to i batch \<noteq> [] \<longrightarrow> int (length (inbound_of i h1) + length (msgs_to i batch)) \<le> hc_InboundCap (hb_cfg h1)"
      using room M H by (auto simp: inbound_of_def split: if_splits)
    have rc: "\<forall>i. Some i \<in> snd ` set batch \<longrightarrow> i \<in> set (hb_sortedNodes h1)" using B H(4) by (auto split: if_splits)
    obtain h2 where h2: "deliver_all stop batch h1 = Some (False, h2)" "hub_ok h2" "hb_queue h2 = hb_queue h1"
      "\<And>i. inbound_of i h2 = inbound_of i h1 @ msgs_to i batch"
      using deliver_all_room [OF D(5) _ rc room', of stop] assms(2) H(3) by auto
    have "DrainDueSync now stop h = Some h2"
      using Pair Some h2(1) DrainDueSync_idle [OF h2(2), of now stop] D(4) h2(3) by (simp add: DrainDueSync.simps [of now stop h])
    then show ?thesis
      using h2 D(1) S(1,2) ms M D(7) H(1) by (intro exI [of _ h2] exI [of _ due]) (simp add: inbound_of_def)
  qed
qed

end
