(* ===== verification/Net_Dispatch.thy ===== *)
theory Net_Dispatch
  imports Net_Hub
begin

text \<open>
  The concurrent side of the in-process network: the dispatcher goroutine of
  \<^verbatim>\<open>pkg/transport/inproc/dispatcher.go\<close> between the points where it locks or waits, and the
  push transport of \<^verbatim>\<open>transport.go\<close>. \<open>net_step\<close> interleaves it with senders, receivers, the clock
  and the test's knobs.
\<close>

section \<open>The dispatcher\<close>

text \<open>
  \<open>Arming\<close>: about to compute the time to the next message. \<open>Armed d\<close>: it has unlocked and is
  about to arm its timer with \<open>d\<close>. \<open>Parked t\<close>: waiting in \<^verbatim>\<open>select\<close>, with the timer set to fire at
  \<open>t\<close>. \<open>Draining\<close>: about to lock and drain. \<open>Delivering\<close>: sending the rest of a batch.
\<close>

datatype dispatcher =
    Arming
  | Armed int
  | Parked "int option"
  | Draining
  | Delivering "(pending \<times> nodeid option) list"
  | Exited

definition dispatch_arm :: "int \<Rightarrow> hub \<Rightarrow> dispatcher" where
  "dispatch_arm now h =
     (if pq_Len (hb_queue h) > 0 then Armed (max (pd_deliverAt (hb_queue h ! 0) - now) 0) else Parked None)"

definition dispatch_drain :: "int \<Rightarrow> hub \<Rightarrow> dispatcher \<times> hub" where
  "dispatch_drain now h =
     (case hub_batch now h of (None, h) \<Rightarrow> (Arming, h) | (Some batch, h) \<Rightarrow> (Delivering batch, h))"

text \<open>One turn of the sending loop; \<open>None\<close> while the channel is full.\<close>

fun dispatch_deliver :: "(pending \<times> nodeid option) list \<Rightarrow> hub \<Rightarrow> (dispatcher \<times> hub) option" where
  "dispatch_deliver [] h = Some (Draining, h)"
| "dispatch_deliver ((p, None) # xs) h = Some (Delivering xs, h)"
| "dispatch_deliver ((p, Some i) # xs) h =
     (if inbound_full i h then None else Some (Delivering xs, inbound_put i (pd_msg p) h))"

section \<open>The push transport\<close>

text \<open>
  \<^verbatim>\<open>hubTransport\<close>: \<open>ht_pumps\<close> counts the pump goroutines that run, \<open>ht_done\<close> is the cancelled context.
\<close>

record hubTransport =
  ht_ep :: nodeid
  ht_done :: bool
  ht_once :: bool
  ht_pumps :: nat

definition newHubTransport :: "nodeid \<Rightarrow> hubTransport" where
  "newHubTransport i = \<lparr>ht_ep = i, ht_done = False, ht_once = False, ht_pumps = 0\<rparr>"

definition ht_Send :: "int \<Rightarrow> hubTransport \<Rightarrow> message \<Rightarrow> hub \<Rightarrow> hub" where
  "ht_Send now t msg h = hub_send now (ht_ep t) msg h"

definition ht_Register :: "bool \<Rightarrow> hubTransport \<Rightarrow> hubTransport" where
  "ht_Register nilStep t = (if nilStep then t else t\<lparr>ht_pumps := ht_pumps t + 1\<rparr>)"

text \<open>A pump takes a message for its step function, or leaves on the context.\<close>

definition pump_recv :: "hubTransport \<Rightarrow> hub \<Rightarrow> (message \<times> hub) option" where
  "pump_recv t h = (if ht_pumps t = 0 then None else hub_Recv (ht_ep t) h)"

definition pump_exit :: "hubTransport \<Rightarrow> hubTransport option" where
  "pump_exit t = (if ht_pumps t > 0 \<and> ht_done t then Some (t\<lparr>ht_pumps := ht_pumps t - 1\<rparr>) else None)"

text \<open>\<^verbatim>\<open>Close\<close> returns when its pumps have left; the second call returns at once.\<close>

definition ht_Close :: "hubTransport \<Rightarrow> hubTransport" where
  "ht_Close t = (if ht_once t then t else t\<lparr>ht_once := True, ht_done := True, ht_pumps := 0\<rparr>)"

lemma ht_Close_idem: "ht_Close (ht_Close t) = ht_Close t"
  by (simp add: ht_Close_def)

section \<open>The network\<close>

text \<open>
  \<open>nt_signals\<close> counts senders that have queued a message and not yet written to the wake
  channel. \<open>nt_sent\<close> and \<open>nt_got\<close> record what endpoints have sent and received.
\<close>

record net =
  nt_hub :: hub
  nt_now :: int
  nt_disp :: dispatcher
  nt_signals :: nat
  nt_sent :: "(nodeid \<times> message) list"
  nt_got :: "(nodeid \<times> message) list"

inductive hub_knob :: "hub \<Rightarrow> hub \<Rightarrow> bool" where
  "hub_knob h (Partition a b h)"
| "hub_knob h (Heal a b h)"
| "hub_knob h (DropRate i r h)"
| "hub_knob h (Delay lo hi h)"
| "hub_knob h (Reorder e k h)"
| "hub_knob h (Duplicate r h)"
| "hub_knob h (hub_Close h)"

inductive net_step :: "net \<Rightarrow> net \<Rightarrow> bool" where
  send: "hub_enqueue (nt_now N) from m (nt_hub N) = (queued, h) \<Longrightarrow>
    net_step N (N\<lparr>nt_hub := h, nt_sent := nt_sent N @ [(from, m)], nt_signals := nt_signals N + (if queued then 1 else 0)\<rparr>)"
| signal: "nt_signals N > 0 \<Longrightarrow>
    net_step N (N\<lparr>nt_hub := (nt_hub N)\<lparr>hb_wake := True\<rparr>, nt_signals := nt_signals N - 1\<rparr>)"
| receive: "hub_Recv i (nt_hub N) = Some (m, h) \<Longrightarrow> net_step N (N\<lparr>nt_hub := h, nt_got := nt_got N @ [(i, m)]\<rparr>)"
| connect: "Connect i (nt_hub N) = Some h \<Longrightarrow> net_step N (N\<lparr>nt_hub := h\<rparr>)"
| knob: "hub_knob (nt_hub N) h \<Longrightarrow> net_step N (N\<lparr>nt_hub := h\<rparr>)"
| clock: "nt_now N \<le> t \<Longrightarrow> net_step N (N\<lparr>nt_now := t\<rparr>)"
| arm: "nt_disp N = Arming \<Longrightarrow> net_step N (N\<lparr>nt_disp := dispatch_arm (nt_now N) (nt_hub N)\<rparr>)"
| armed: "nt_disp N = Armed d \<Longrightarrow> net_step N (N\<lparr>nt_disp := Parked (Some (nt_now N + d))\<rparr>)"
| wake: "nt_disp N = Parked t \<Longrightarrow> hb_wake (nt_hub N) \<Longrightarrow>
    net_step N (N\<lparr>nt_disp := Draining, nt_hub := (nt_hub N)\<lparr>hb_wake := False\<rparr>\<rparr>)"
| timer: "nt_disp N = Parked (Some t) \<Longrightarrow> t \<le> nt_now N \<Longrightarrow> net_step N (N\<lparr>nt_disp := Draining\<rparr>)"
| drain: "nt_disp N = Draining \<Longrightarrow> dispatch_drain (nt_now N) (nt_hub N) = (d, h) \<Longrightarrow>
    net_step N (N\<lparr>nt_disp := d, nt_hub := h\<rparr>)"
| deliver: "nt_disp N = Delivering xs \<Longrightarrow> dispatch_deliver xs (nt_hub N) = Some (d, h) \<Longrightarrow>
    net_step N (N\<lparr>nt_disp := d, nt_hub := h\<rparr>)"
| exit: "hb_done (nt_hub N) \<Longrightarrow> nt_disp N = Parked t \<or> nt_disp N = Delivering ((p, Some i) # xs) \<Longrightarrow>
    net_step N (N\<lparr>nt_disp := Exited\<rparr>)"
| sync: "DrainDueSync (nt_now N) stop (nt_hub N) = Some h \<Longrightarrow> net_step N (N\<lparr>nt_hub := h\<rparr>)"

definition net_init :: "(64 word \<times> 64 word \<Rightarrow> rng) \<Rightarrow> HubConfig \<Rightarrow> int \<Rightarrow> net" where
  "net_init mkRand cfg now =
     \<lparr>nt_hub = NewHub mkRand cfg, nt_now = now, nt_disp = (if hc_SyncDelivery cfg then Exited else Arming),
      nt_signals = 0, nt_sent = [], nt_got = []\<rparr>"

section \<open>Messages in flight\<close>

abbreviation addressed :: "pending \<Rightarrow> nodeid \<times> message" where
  "addressed p \<equiv> (pd_to p, pd_msg p)"

definition queued_msgs :: "hub \<Rightarrow> (nodeid \<times> message) multiset" where
  "queued_msgs h = image_mset addressed (mset (hb_queue h))"

definition boxed_msgs :: "hub \<Rightarrow> (nodeid \<times> message) multiset" where
  "boxed_msgs h = mset (concat (map (\<lambda>(i, ms). map (Pair i) ms) (hb_nodes h)))"

fun disp_batch :: "dispatcher \<Rightarrow> pending list" where
  "disp_batch (Delivering xs) = map fst xs"
| "disp_batch _ = []"

definition in_flight :: "net \<Rightarrow> (nodeid \<times> message) multiset" where
  "in_flight N = queued_msgs (nt_hub N) + image_mset addressed (mset (disp_batch (nt_disp N))) + boxed_msgs (nt_hub N)"

lemma queued_pval: "queued_msgs h = image_mset addressed (mset (map pval (hb_queue h)))"
  by (simp add: queued_msgs_def multiset.map_comp comp_def)

lemma boxes_update:
  assumes "distinct (map fst m)"
  shows "mset (concat (map (\<lambda>(i, ms). map (Pair i) ms) (AList.update i xs m))) + mset (map (Pair i) (case map_of m i of None \<Rightarrow> [] | Some ys \<Rightarrow> ys)) =
    mset (concat (map (\<lambda>(i, ms). map (Pair i) ms) m)) + mset (map (Pair i) xs)"
  using assms by (induction m) (auto simp: ac_simps split: option.splits)

lemma boxed_put: "distinct (map fst (hb_nodes h)) \<Longrightarrow> boxed_msgs (inbound_put i m h) = add_mset (i, m) (boxed_msgs h)"
  using boxes_update [of "hb_nodes h" i "inbound_of i h @ [m]"]
  by (simp add: boxed_msgs_def inbound_put_def inbound_of_def)

lemma boxed_Recv:
  "distinct (map fst (hb_nodes h)) \<Longrightarrow> hub_Recv i h = Some (m, h') \<Longrightarrow> boxed_msgs h = add_mset (i, m) (boxed_msgs h')"
  using boxes_update [of "hb_nodes h" i "tl (inbound_of i h)"]
  by (auto simp: boxed_msgs_def hub_Recv_def inbound_of_def split: list.splits option.splits)

lemma hub_Recv_ok:
  assumes "hub_ok h" and "hub_Recv i h = Some (m, h')"
  shows "hub_ok h'" "hb_queue h' = hb_queue h" "hb_wake h' = hb_wake h" "hb_chaos h' = hb_chaos h"
proof -
  obtain ms where ms: "inbound_of i h = m # ms" and h': "h' = h\<lparr>hb_nodes := AList.update i ms (hb_nodes h)\<rparr>"
    using assms(2) by (auto simp: hub_Recv_def split: list.splits)
  have "i \<in> fst ` set (hb_nodes h)" using ms connected_iff [of "hb_nodes h" i] by (auto simp: inbound_of_def split: option.splits)
  moreover have "inbound_of j h' = (if j = i then ms else inbound_of j h)" for j
    by (simp add: h' inbound_of_def update_conv')
  ultimately show "hub_ok h'"
    using assms(1) ms by (auto simp: hub_ok_def h' keys_update distinct_update insert_absorb) force
qed (use assms(2) in \<open>auto simp: hub_Recv_def split: list.splits\<close>)

lemma batch_moves:
  assumes "hub_ok h" and "hub_batch now h = (b, h1)"
  shows "hub_ok h1" "hb_nodes h1 = hb_nodes h" "hb_wake h1 = hb_wake h" "ch_partitions (hb_chaos h1) = ch_partitions (hb_chaos h)"
    "mset (map pval (hb_queue h)) = mset (map pval (case b of None \<Rightarrow> [] | Some xs \<Rightarrow> map fst xs)) + mset (map pval (hb_queue h1))"
    "\<forall>xs p i. b = Some xs \<longrightarrow> (p, Some i) \<in> set xs \<longrightarrow> i = pd_to p \<and> i \<in> set (hb_sortedNodes h1)"
proof -
  have all: "hub_ok h1 \<and> hb_nodes h1 = hb_nodes h \<and> hb_wake h1 = hb_wake h \<and> ch_partitions (hb_chaos h1) = ch_partitions (hb_chaos h) \<and>
    mset (map pval (hb_queue h)) = mset (map pval (case b of None \<Rightarrow> [] | Some xs \<Rightarrow> map fst xs)) + mset (map pval (hb_queue h1)) \<and>
    (\<forall>xs p i. b = Some xs \<longrightarrow> (p, Some i) \<in> set xs \<longrightarrow> i = pd_to p \<and> i \<in> set (hb_sortedNodes h1))"
    using assms(2)
  proof (cases rule: hub_batch_cases)
    case none
    have q: "pq.heap_ok (hb_queue h1)" "mset (map pval (hb_queue h)) = mset (map pval (hb_queue h1))"
      using drain_ok [OF _ none(1)] assms(1) by (simp_all add: hub_ok_def)
    have s: "hb_nodes h1 = hb_nodes h" "hb_wake h1 = hb_wake h" "hb_chaos h1 = hb_chaos h" "hb_cfg h1 = hb_cfg h" "hb_sortedNodes h1 = hb_sortedNodes h"
      by (subst none(3), simp)+
    then have "hub_ok h1" using assms(1) q(1) by (simp add: hub_ok_def inbound_of_def)
    then show ?thesis using q(2) s none(2) by simp
  next
    case (some due q)
    have b: "hub_batch now h = (Some (the b), h1)" using assms(2) some(4) by simp
    have w: "hb_wake h1 = hb_wake h" "ch_partitions (hb_chaos h1) = ch_partitions (hb_chaos h)" by (simp_all add: some(3))
    obtain due' where D: "mset (map pval (hb_queue h)) = mset (map pval due') + mset (map pval (hb_queue h1))" "hub_ok h1"
      "mset (map fst (the b)) = mset due'" "hb_nodes h1 = hb_nodes h" "hb_sortedNodes h1 = hb_sortedNodes h"
      "\<forall>(p, r) \<in> set (the b). r = (if pd_to p \<in> set (hb_sortedNodes h) then Some (pd_to p) else None)"
      by (rule batch_msgs [OF assms(1) b]) (rule that)
    have "mset (map pval (map fst (the b))) = mset (map pval due')" unfolding mset_map [of pval] D(3) ..
    then show ?thesis using D w some(4) by (fastforce split: if_splits)
  qed
  then show "hub_ok h1" "hb_nodes h1 = hb_nodes h" "hb_wake h1 = hb_wake h" "ch_partitions (hb_chaos h1) = ch_partitions (hb_chaos h)"
    "mset (map pval (hb_queue h)) = mset (map pval (case b of None \<Rightarrow> [] | Some xs \<Rightarrow> map fst xs)) + mset (map pval (hb_queue h1))"
    "\<forall>xs p i. b = Some xs \<longrightarrow> (p, Some i) \<in> set xs \<longrightarrow> i = pd_to p \<and> i \<in> set (hb_sortedNodes h1)"
    by blast+
qed

text \<open>A batch whose receivers are connected.\<close>

definition batch_ok :: "(pending \<times> nodeid option) list \<Rightarrow> hub \<Rightarrow> bool" where
  "batch_ok xs h \<longleftrightarrow> (\<forall>p i. (p, Some i) \<in> set xs \<longrightarrow> i = pd_to p \<and> i \<in> set (hb_sortedNodes h))"

lemma batch_ok_simps [simp]:
  "batch_ok [] h" "batch_ok ((p, None) # xs) h = batch_ok xs h"
  "batch_ok ((p, Some i) # xs) h \<longleftrightarrow> i = pd_to p \<and> i \<in> set (hb_sortedNodes h) \<and> batch_ok xs h"
  "batch_ok xs (inbound_put i m h) = batch_ok xs h"
  by (auto simp: batch_ok_def)

lemma deliver_all_moves:
  assumes "hub_ok h" and "batch_ok xs h" and "deliver_all stop xs h = Some (r, h')"
  shows "hub_ok h' \<and> hb_queue h' = hb_queue h \<and> hb_wake h' = hb_wake h \<and> hb_chaos h' = hb_chaos h \<and>
    boxed_msgs h' \<subseteq># boxed_msgs h + image_mset addressed (mset (map fst xs))"
  using assms
proof (induction stop xs h rule: deliver_all.induct)
  case (2 stop p xs h)
  then have "boxed_msgs h' \<subseteq># boxed_msgs h + image_mset addressed (mset (map fst xs))" by simp
  then have "boxed_msgs h' \<subseteq># add_mset (addressed p) (boxed_msgs h + image_mset addressed (mset (map fst xs)))"
    by (rule subset_mset.order_trans) simp
  then show ?case using 2 by simp
next
  case (3 stop p i xs h)
  show ?case
  proof (cases "inbound_full i h \<or> hb_done h \<and> stop p")
    case False
    let ?h = "inbound_put i (pd_msg p) h"
    have i: "i = pd_to p" "i \<in> set (hb_sortedNodes h)" "batch_ok xs ?h" using 3(3) by auto
    have "hub_ok ?h" using False i 3(2) by (intro inbound_put_ok) auto
    moreover have "boxed_msgs ?h = add_mset (i, pd_msg p) (boxed_msgs h)" using 3(2) by (intro boxed_put) (simp add: hub_ok_def)
    moreover have "hb_wake ?h = hb_wake h" by (simp add: inbound_put_def)
    ultimately show ?thesis using 3(1,4) False i by auto
  qed (use 3 in \<open>auto split: if_splits\<close>)
qed auto

lemma sync_moves:
  assumes "hub_ok h" and "DrainDueSync now stop h = Some h'"
  shows "hub_ok h' \<and> hb_wake h' = hb_wake h \<and> ch_partitions (hb_chaos h') = ch_partitions (hb_chaos h) \<and>
    mset (map pval (hb_queue h')) \<subseteq># mset (map pval (hb_queue h)) \<and>
    queued_msgs h' + boxed_msgs h' \<subseteq># queued_msgs h + boxed_msgs h"
  using assms
proof (induction now stop h rule: DrainDueSync.induct)
  case (1 now stop h)
  obtain b h1 where b: "hub_batch now h = (b, h1)" by fastforce
  note M = batch_moves [OF 1(2) b]
  have q: "queued_msgs h = image_mset addressed (mset (case b of None \<Rightarrow> [] | Some xs \<Rightarrow> map fst xs)) + queued_msgs h1"
    unfolding queued_pval M(5) by (simp add: multiset.map_comp comp_def)
  have x: "boxed_msgs h1 = boxed_msgs h" by (simp add: boxed_msgs_def M(2))
  show ?case
  proof (cases b)
    case None
    then show ?thesis using 1(3) b M q x by (simp add: DrainDueSync.simps [of now stop h])
  next
    case (Some xs)
    obtain r h2 where d: "deliver_all stop xs h1 = Some (r, h2)" "if r then h' = h2 else DrainDueSync now stop h2 = Some h'"
      using 1(3) b Some by (auto simp: DrainDueSync.simps [of now stop h] split: option.splits if_splits)
    have ok: "batch_ok xs h1" using M(6) Some by (auto simp: batch_ok_def)
    note D = deliver_all_moves [OF M(1) ok d(1)]
    have two: "queued_msgs h2 + boxed_msgs h2 \<subseteq># queued_msgs h + boxed_msgs h" "mset (map pval (hb_queue h2)) \<subseteq># mset (map pval (hb_queue h))"
      "hb_wake h2 = hb_wake h" "ch_partitions (hb_chaos h2) = ch_partitions (hb_chaos h)"
      using D q x M Some by (simp_all add: queued_msgs_def ac_simps)
    show ?thesis
    proof (cases r)
      case False
      then show ?thesis using 1(1) [OF b [symmetric] Some d(1) refl] d(2) D two by (auto intro: subset_mset.order_trans)
    qed (use d(2) D two in simp)
  qed
qed

lemma deliver_all_sorted: "deliver_all stop xs h = Some (r, h') \<Longrightarrow> hb_sortedNodes h' = hb_sortedNodes h"
  by (induction stop xs h rule: deliver_all.induct) (auto split: if_splits)

lemma sync_sorted: "DrainDueSync now stop h = Some h' \<Longrightarrow> hb_sortedNodes h' = hb_sortedNodes h"
proof (induction now stop h rule: DrainDueSync.induct)
  case (1 now stop h)
  obtain b h1 where b: "hub_batch now h = (b, h1)" by fastforce
  then have "hb_sortedNodes h1 = hb_sortedNodes h" by (cases rule: hub_batch_cases) (auto, metis hub.select_convs(4) hub.surjective hub.update_convs(6))
  then show ?case
    using 1 b by (auto simp: DrainDueSync.simps [of now stop h] split: option.splits if_splits dest: deliver_all_sorted)
qed

section \<open>The invariant of the network\<close>

definition sent_msgs :: "net \<Rightarrow> (nodeid \<times> message) multiset" where
  "sent_msgs N = image_mset (\<lambda>(f, m). (m_To m, m)) (mset (nt_sent N))"

definition net_inv :: "net \<Rightarrow> bool" where
  "net_inv N \<longleftrightarrow> hub_ok (nt_hub N) \<and> (\<forall>xs. nt_disp N = Delivering xs \<longrightarrow> batch_ok xs (nt_hub N)) \<and>
     in_flight N + mset (nt_got N) \<subseteq># sent_msgs N + sent_msgs N \<and>
     (nt_disp N = Parked None \<longrightarrow> hb_queue (nt_hub N) = [] \<or> hb_wake (nt_hub N) \<or> 0 < nt_signals N)"

text \<open>A step that changes the hub and only takes messages away from it.\<close>

lemma net_inv_shrink:
  assumes "net_inv N" and "hub_ok (nt_hub N')" and "in_flight N' + mset (nt_got N') \<subseteq># in_flight N + mset (nt_got N)"
    and "nt_sent N' = nt_sent N" and "\<forall>xs. nt_disp N' = Delivering xs \<longrightarrow> batch_ok xs (nt_hub N')"
    and "nt_disp N' = Parked None \<longrightarrow> hb_queue (nt_hub N') = [] \<or> hb_wake (nt_hub N') \<or> 0 < nt_signals N'"
  shows "net_inv N'"
  using assms unfolding net_inv_def by (auto simp: sent_msgs_def intro: subset_mset.order_trans)

lemma Connect_sel:
  assumes "Connect i h = Some h'"
  shows "hb_queue h' = hb_queue h" "hb_wake h' = hb_wake h" "hb_chaos h' = hb_chaos h"
    "set (hb_sortedNodes h) \<subseteq> set (hb_sortedNodes h')" "hub_ok h \<Longrightarrow> boxed_msgs h' = boxed_msgs h"
proof -
  show "hb_queue h' = hb_queue h" "hb_wake h' = hb_wake h" "hb_chaos h' = hb_chaos h"
    using assms by (auto simp: Connect_def Let_def split: if_splits)
  show "set (hb_sortedNodes h) \<subseteq> set (hb_sortedNodes h')"
  proof
    fix x assume x: "x \<in> set (hb_sortedNodes h)"
    have "set (take k xs) \<union> set (drop k xs) = set xs" for k and xs :: "nodeid list" by (metis append_take_drop_id set_append)
    then show "x \<in> set (hb_sortedNodes h')" using assms x by (auto simp: Connect_def Let_def split: if_splits)
  qed
  show "boxed_msgs h' = boxed_msgs h" if "hub_ok h"
  proof (cases "map_of (hb_nodes h) i")
    case None
    then show ?thesis using assms boxes_update [of "hb_nodes h" i "[]"] that
      by (simp add: Connect_def Let_def boxed_msgs_def hub_ok_def split: if_splits) auto
  qed (use assms in \<open>simp add: Connect_def\<close>)
qed

lemma knob_sel:
  assumes "hub_knob h h'"
  shows "hb_queue h' = hb_queue h" "hb_wake h' = hb_wake h" "hb_sortedNodes h' = hb_sortedNodes h" "hb_nodes h' = hb_nodes h" "hub_ok h' = hub_ok h"
  using assms by (cases rule: hub_knob.cases; simp add: Partition_def Heal_def DropRate_def Delay_def Reorder_def Duplicate_def hub_Close_def)+

lemma enqueue_flight:
  assumes "hub_ok h" and "hub_enqueue now from m h = (queued, h')"
  shows "queued_msgs h' \<subseteq># queued_msgs h + {#(m_To m, m), (m_To m, m)#}" "boxed_msgs h' = boxed_msgs h"
proof -
  obtain copies where c: "mset (map pval (hb_queue h')) = mset copies + mset (map pval (hb_queue h))" "length copies \<le> 2"
      "\<forall>p \<in> set copies. pd_to p = m_To m \<and> pd_msg p = m"
    using hub_enqueue_ok(5) [OF assms] by (force split: if_splits)
  have "image_mset addressed (mset copies) = replicate_mset (length copies) (m_To m, m)"
    using c(3) by (induction copies) auto
  moreover have "replicate_mset (length copies) x \<subseteq># {#x, x#}" for x :: "nodeid \<times> message"
    using c(2) by (cases copies; cases "tl copies") auto
  ultimately show "queued_msgs h' \<subseteq># queued_msgs h + {#(m_To m, m), (m_To m, m)#}"
    unfolding queued_pval c(1) by (simp add: ac_simps)
  show "boxed_msgs h' = boxed_msgs h" using hub_enqueue_ok(2) [OF assms] by (simp add: boxed_msgs_def)
qed

lemma net_send_inv:
  assumes "net_inv N" and "hub_enqueue (nt_now N) from m (nt_hub N) = (queued, h)"
  shows "net_inv (N\<lparr>nt_hub := h, nt_sent := nt_sent N @ [(from, m)], nt_signals := nt_signals N + (if queued then 1 else 0)\<rparr>)"
    (is "net_inv ?N")
proof -
  have ok: "hub_ok (nt_hub N)" using assms(1) by (simp add: net_inv_def)
  note E = enqueue_flight [OF ok assms(2)] and S = hub_enqueue_sel [OF assms(2)]
  have "in_flight ?N \<subseteq># in_flight N + {#(m_To m, m), (m_To m, m)#}"
    using E by (simp add: in_flight_def ac_simps)
  then have "in_flight ?N + mset (nt_got N) \<subseteq># in_flight N + {#(m_To m, m), (m_To m, m)#} + mset (nt_got N)"
    by (rule subset_mset.add_right_mono)
  also have "\<dots> = (in_flight N + mset (nt_got N)) + {#(m_To m, m), (m_To m, m)#}" by (simp only: ac_simps)
  also have "\<dots> \<subseteq># (sent_msgs N + sent_msgs N) + {#(m_To m, m), (m_To m, m)#}"
    using assms(1) by (intro subset_mset.add_right_mono) (simp add: net_inv_def)
  finally have "in_flight ?N + mset (nt_got ?N) \<subseteq># sent_msgs ?N + sent_msgs ?N" by (simp add: sent_msgs_def ac_simps)
  moreover have "nt_disp ?N = Delivering xs \<longrightarrow> batch_ok xs h" for xs
    using assms(1) S(4) by (auto simp: net_inv_def batch_ok_def)
  ultimately show ?thesis
    using hub_enqueue_ok(1) [OF ok assms(2)] assms(1) S unfolding net_inv_def by (cases queued) auto
qed

lemma flight_wake [simp]:
  "queued_msgs (h\<lparr>hb_wake := w\<rparr>) = queued_msgs h" "boxed_msgs (h\<lparr>hb_wake := w\<rparr>) = boxed_msgs h"
  "batch_ok xs (h\<lparr>hb_wake := w\<rparr>) = batch_ok xs h"
  by (simp_all add: queued_msgs_def boxed_msgs_def batch_ok_def)

text \<open>A step of the hub alone that loses messages at most.\<close>

lemma net_hub_inv:
  assumes "net_inv N" and "hub_ok h" and "queued_msgs h + boxed_msgs h \<subseteq># queued_msgs (nt_hub N) + boxed_msgs (nt_hub N)"
    and "set (hb_sortedNodes (nt_hub N)) \<subseteq> set (hb_sortedNodes h)" and "hb_wake h = hb_wake (nt_hub N)"
    and "mset (map pval (hb_queue h)) \<subseteq># mset (map pval (hb_queue (nt_hub N)))"
  shows "net_inv (N\<lparr>nt_hub := h\<rparr>)"
proof (rule net_inv_shrink [OF assms(1)])
  have "queued_msgs h + boxed_msgs h + (image_mset addressed (mset (disp_batch (nt_disp N))) + mset (nt_got N)) \<subseteq>#
      queued_msgs (nt_hub N) + boxed_msgs (nt_hub N) + (image_mset addressed (mset (disp_batch (nt_disp N))) + mset (nt_got N))"
    by (rule subset_mset.add_right_mono [OF assms(3)])
  then show "in_flight (N\<lparr>nt_hub := h\<rparr>) + mset (nt_got (N\<lparr>nt_hub := h\<rparr>)) \<subseteq># in_flight N + mset (nt_got N)"
    by (simp add: in_flight_def ac_simps)
qed (use assms in \<open>auto simp: net_inv_def batch_ok_def\<close>)

lemma net_drain_inv:
  assumes "net_inv N" and "nt_disp N = Draining" and "dispatch_drain (nt_now N) (nt_hub N) = (d, h)"
  shows "net_inv (N\<lparr>nt_disp := d, nt_hub := h\<rparr>)"
proof -
  obtain b h1 where b: "hub_batch (nt_now N) (nt_hub N) = (b, h1)" by fastforce
  have ok: "hub_ok (nt_hub N)" using assms(1) by (simp add: net_inv_def)
  note M = batch_moves [OF ok b]
  have d: "h = h1" "d = (case b of None \<Rightarrow> Arming | Some xs \<Rightarrow> Delivering xs)"
    using assms(3) b by (auto simp: dispatch_drain_def split: option.splits)
  have "queued_msgs (nt_hub N) = image_mset addressed (mset (case b of None \<Rightarrow> [] | Some xs \<Rightarrow> map fst xs)) + queued_msgs h1"
    unfolding queued_pval M(5) by (simp add: multiset.map_comp comp_def)
  moreover have "boxed_msgs h1 = boxed_msgs (nt_hub N)" using M(2) by (simp add: boxed_msgs_def)
  ultimately have "in_flight (N\<lparr>nt_disp := d, nt_hub := h\<rparr>) = in_flight N" using assms(2) d by (cases b) (simp_all add: in_flight_def)
  then show ?thesis
    using M(1,6) d by (intro net_inv_shrink [OF assms(1)]) (auto simp: batch_ok_def split: option.splits)
qed

lemma net_deliver_inv:
  assumes "net_inv N" and "nt_disp N = Delivering xs" and "dispatch_deliver xs (nt_hub N) = Some (d, h)"
  shows "net_inv (N\<lparr>nt_disp := d, nt_hub := h\<rparr>)"
proof -
  have ok: "hub_ok (nt_hub N)" "batch_ok xs (nt_hub N)" using assms(1,2) by (auto simp: net_inv_def)
  consider "xs = []" | p ys where "xs = (p, None) # ys" | p i ys where "xs = (p, Some i) # ys" "\<not> inbound_full i (nt_hub N)"
    using assms(3) by (cases "(xs, nt_hub N)" rule: dispatch_deliver.cases) (auto split: if_splits)
  then show ?thesis
  proof cases
    case (3 p i ys)
    have i: "i = pd_to p" "i \<in> set (hb_sortedNodes (nt_hub N))" "batch_ok ys (nt_hub N)" using ok(2) 3(1) by auto
    have d: "d = Delivering ys" "h = inbound_put i (pd_msg p) (nt_hub N)" using assms(3) 3 by auto
    have "boxed_msgs h = add_mset (i, pd_msg p) (boxed_msgs (nt_hub N))" unfolding d(2) using ok(1) by (intro boxed_put) (simp add: hub_ok_def)
    then have "in_flight (N\<lparr>nt_disp := d, nt_hub := h\<rparr>) = in_flight N"
      using assms(2) 3(1) d i(1) by (simp add: in_flight_def queued_msgs_def)
    then show ?thesis
      using inbound_put_ok [OF ok(1) i(2) 3(2)] d i(3) by (intro net_inv_shrink [OF assms(1)]) auto
  qed (use assms ok in \<open>auto simp: in_flight_def intro!: net_inv_shrink [OF assms(1)]\<close>)
qed

lemma net_receive_inv:
  assumes "net_inv N" and "hub_Recv i (nt_hub N) = Some (m, h)"
  shows "net_inv (N\<lparr>nt_hub := h, nt_got := nt_got N @ [(i, m)]\<rparr>)"
proof -
  have ok: "hub_ok (nt_hub N)" using assms(1) by (simp add: net_inv_def)
  note R = hub_Recv_ok [OF ok assms(2)]
  have "boxed_msgs (nt_hub N) = add_mset (i, m) (boxed_msgs h)" using ok assms(2) by (intro boxed_Recv) (auto simp: hub_ok_def)
  then have "in_flight (N\<lparr>nt_hub := h, nt_got := nt_got N @ [(i, m)]\<rparr>) + mset (nt_got N @ [(i, m)]) = in_flight N + mset (nt_got N)"
    using R(2) by (simp add: in_flight_def queued_msgs_def)
  moreover have "hb_sortedNodes h = hb_sortedNodes (nt_hub N)" using assms(2) by (auto simp: hub_Recv_def split: list.splits)
  ultimately show ?thesis using R assms(1) by (intro net_inv_shrink [OF assms(1)]) (auto simp: net_inv_def batch_ok_def)
qed

lemma net_step_inv:
  assumes "net_step N N'" and inv: "net_inv N"
  shows "net_inv N'"
proof -
  have ok: "hub_ok (nt_hub N)" using inv by (simp add: net_inv_def)
  from assms(1) show ?thesis
  proof cases
    case (connect i h)
    note C = Connect_sel [OF connect(2)]
    show ?thesis
      unfolding connect(1) using Connect_ok [OF ok connect(2)] C ok by (intro net_hub_inv [OF inv]) (simp_all add: queued_msgs_def)
  next
    case (knob h)
    note K = knob_sel [OF knob(2)]
    show ?thesis unfolding knob(1) using K ok by (intro net_hub_inv [OF inv]) (simp_all add: queued_msgs_def boxed_msgs_def)
  next
    case (sync stop h)
    note S = sync_moves [OF ok sync(2)] sync_sorted [OF sync(2)]
    show ?thesis unfolding sync(1) using S by (intro net_hub_inv [OF inv]) simp_all
  next
    case (exit t p i xs)
    have "in_flight N' \<subseteq># in_flight N" using exit(1) by (simp add: in_flight_def)
    then show ?thesis using exit(1) ok by (intro net_inv_shrink [OF inv]) simp_all
  next
    case send
    then show ?thesis using net_send_inv [OF inv] by simp
  next
    case drain
    then show ?thesis using net_drain_inv [OF inv] by simp
  next
    case deliver
    then show ?thesis using net_deliver_inv [OF inv] by simp
  next
    case receive
    then show ?thesis using net_receive_inv [OF inv] by simp
  qed (use inv in \<open>auto simp: net_inv_def in_flight_def sent_msgs_def dispatch_arm_def pq_Len_def\<close>)
qed

lemma net_init_inv: "net_inv (net_init mkRand cfg now)"
  using NewHub_ok by (simp add: net_inv_def net_init_def in_flight_def queued_msgs_def boxed_msgs_def NewHub_def Let_def)

lemma net_reachable_inv: "net_step\<^sup>*\<^sup>* (net_init mkRand cfg now) N \<Longrightarrow> net_inv N"
  by (induction rule: rtranclp_induct) (auto intro: net_init_inv net_step_inv)

section \<open>Properties\<close>

lemma count_sent: "count (sent_msgs N) (i, m) = (if i = m_To m then length (filter (\<lambda>(f, m'). m' = m) (nt_sent N)) else 0)"
proof -
  have "count (image_mset (\<lambda>(f, m). (m_To m, m)) (mset xs)) (i, m) = (if i = m_To m then length (filter (\<lambda>(f, m'). m' = m) xs) else 0)"
    for xs :: "(nodeid \<times> message) list" by (induction xs) auto
  then show ?thesis by (simp add: sent_msgs_def)
qed

text \<open>
  C34: Under every interleaving of senders, receivers, the dispatcher, \<^verbatim>\<open>DrainDueSync\<close>, the clock and the
  fault knobs, a node receives only messages that were sent to it, each at most twice per send;
  and the dispatcher never waits without a timer while a message is queued, unless a wake-up is
  pending.
\<close>

theorem hub_delivers_sent:
  assumes "net_step\<^sup>*\<^sup>* (net_init mkRand cfg now) N"
  shows "count_list (nt_got N) (i, m) \<le>
      (if i = m_To m then 2 * length (filter (\<lambda>(from, m'). m' = m) (nt_sent N)) else 0) \<and>
    (nt_disp N = Parked None \<longrightarrow> hb_queue (nt_hub N) = [] \<or> hb_wake (nt_hub N) \<or> 0 < nt_signals N)"
proof -
  have inv: "net_inv N" by (rule net_reachable_inv [OF assms])
  then have "in_flight N + mset (nt_got N) \<subseteq># sent_msgs N + sent_msgs N" by (simp add: net_inv_def)
  from mset_subset_eq_count [OF this, of "(i, m)"]
  have "count_list (nt_got N) (i, m) \<le> count (sent_msgs N) (i, m) + count (sent_msgs N) (i, m)" by (simp add: count_mset)
  then show ?thesis using inv unfolding count_sent net_inv_def by (auto split: if_splits)
qed






end
