(* ===== verification/Net_Runs.thy ===== *)
theory Net_Runs
  imports Net_Dispatch
begin

text \<open>Runs of the in-process network: the inputs of the witnesses, and a run against its documentation.\<close>

definition demo_msg :: message where
  "demo_msg = zero_message\<lparr>m_To := ''b'', m_From := ''a''\<rparr>"

definition demo_hub_cfg :: "bool \<Rightarrow> HubConfig" where
  "demo_hub_cfg sync = \<lparr>hc_Clock = None, hc_Seed = 0, hc_InboundCap = 0, hc_CloseTimeout = 0, hc_SyncDelivery = sync\<rparr>"

text \<open>The calls of a test on a network and the turns of the dispatcher, one after the other.\<close>

datatype net_op =
    N_connect nodeid
  | N_knob "hub \<Rightarrow> hub"
  | N_send nodeid message
  | N_signal
  | N_clock int
  | N_arm
  | N_armed
  | N_wake
  | N_drain
  | N_sync
  | N_recv nodeid

fun net_do :: "net_op \<Rightarrow> net \<Rightarrow> net option" where
  "net_do (N_connect i) N = map_option (\<lambda>h. N\<lparr>nt_hub := h\<rparr>) (Connect i (nt_hub N))"
| "net_do (N_knob k) N = Some (N\<lparr>nt_hub := k (nt_hub N)\<rparr>)"
| "net_do (N_send i m) N =
     (let (q, h) = hub_enqueue (nt_now N) i m (nt_hub N)
      in Some (N\<lparr>nt_hub := h, nt_sent := nt_sent N @ [(i, m)], nt_signals := nt_signals N + (if q then 1 else 0)\<rparr>))"
| "net_do N_signal N =
     (if nt_signals N > 0 then Some (N\<lparr>nt_hub := (nt_hub N)\<lparr>hb_wake := True\<rparr>, nt_signals := nt_signals N - 1\<rparr>) else None)"
| "net_do (N_clock t) N = (if nt_now N \<le> t then Some (N\<lparr>nt_now := t\<rparr>) else None)"
| "net_do N_arm N = (case nt_disp N of Arming \<Rightarrow> Some (N\<lparr>nt_disp := dispatch_arm (nt_now N) (nt_hub N)\<rparr>) | _ \<Rightarrow> None)"
| "net_do N_armed N = (case nt_disp N of Armed d \<Rightarrow> Some (N\<lparr>nt_disp := Parked (Some (nt_now N + d))\<rparr>) | _ \<Rightarrow> None)"
| "net_do N_wake N =
     (case nt_disp N of
        Parked t \<Rightarrow> if hb_wake (nt_hub N) then Some (N\<lparr>nt_disp := Draining, nt_hub := (nt_hub N)\<lparr>hb_wake := False\<rparr>\<rparr>) else None
      | _ \<Rightarrow> None)"
| "net_do N_drain N =
     (case nt_disp N of
        Draining \<Rightarrow> let (d, h) = dispatch_drain (nt_now N) (nt_hub N) in Some (N\<lparr>nt_disp := d, nt_hub := h\<rparr>)
      | _ \<Rightarrow> None)"
| "net_do N_sync N = map_option (\<lambda>h. N\<lparr>nt_hub := h\<rparr>) (DrainDueSync (nt_now N) (\<lambda>_. False) (nt_hub N))"
| "net_do (N_recv i) N = map_option (\<lambda>(m, h). N\<lparr>nt_hub := h, nt_got := nt_got N @ [(i, m)]\<rparr>) (hub_Recv i (nt_hub N))"

fun net_run :: "net_op list \<Rightarrow> net \<Rightarrow> net option" where
  "net_run [] N = Some N"
| "net_run (x # xs) N = (case net_do x N of None \<Rightarrow> None | Some N' \<Rightarrow> net_run xs N')"

lemma net_do_step:
  assumes "net_do x N = Some N'" and "\<forall>k. x = N_knob k \<longrightarrow> hub_knob (nt_hub N) (k (nt_hub N))"
  shows "net_step N N'"
proof (cases x)
  case (N_send i m)
  obtain q h where "hub_enqueue (nt_now N) i m (nt_hub N) = (q, h)" by fastforce
  then show ?thesis using net_step.send [of N i m q h] assms(1) N_send by simp
next
  case N_signal
  then show ?thesis using net_step.signal [of N] assms(1) by (simp split: if_splits)
qed (use assms in \<open>auto simp: Let_def split: prod.splits if_splits dispatcher.splits intro: net_step.intros\<close>)

lemma net_run_steps:
  assumes "net_run xs N = Some N'" and "\<forall>k \<in> {k. N_knob k \<in> set xs}. \<forall>h. hub_knob h (k h)"
  shows "net_step\<^sup>*\<^sup>* N N'"
  using assms
proof (induction xs arbitrary: N)
  case (Cons x xs)
  then obtain M where M: "net_do x N = Some M" "net_run xs M = Some N'" by (auto split: option.splits)
  then have "net_step N M" using Cons.prems(2) by (intro net_do_step) auto
  moreover have "net_step\<^sup>*\<^sup>* M N'" using Cons.IH [OF M(2)] Cons.prems(2) by auto
  ultimately show ?case by (rule converse_rtranclp_into_rtranclp)
qed simp

lemma sort_Search_refl: "sort_Search i i f = i"
  by (simp add: sort_Search.simps)

lemmas net_defs = net_init_def NewHub_def newChaos_def hub_applyDefaults_def demo_hub_cfg_def defaultInboundCap_def defaultCloseTimeout_def
  Connect_def sort_Search_refl hub_enqueue_def isPartitioned_def dropDecision_def sampleDelay_def dupDecision_def
  hub_push_def nextSeq_def u64_succ_def heap_Push_def heap_Pop_def heap_up.simps heap_down.simps pq_Len_def pq_Less_def
  pq_Swap_def pq_Push_def pq_Pop_def swap_at_def dispatch_arm_def dispatch_drain_def hub_batch_def drainDueLocked.simps
  peekDue_def orderLocked_def inbound_of_def inbound_full_def inbound_put_def hub_Recv_def Delay_def Duplicate_def
  Partition_def DrainDueSync.simps Let_def

text \<open>A message sent with duplication on is received twice.\<close>

definition dup_run :: "net_op list" where
  "dup_run = [N_connect ''b'', N_knob (Duplicate 1), N_send ''a'' demo_msg, N_clock 1, N_sync, N_recv ''b'', N_recv ''b'']"

lemma dup_run_ok:
  "\<exists>N. net_run dup_run (net_init (\<lambda>_. []) (demo_hub_cfg True) 0) = Some N \<and> nt_got N = [(''b'', demo_msg), (''b'', demo_msg)] \<and>
     nt_sent N = [(''a'', demo_msg)]"
  by (simp add: dup_run_def net_defs demo_msg_def zero_message_def)

lemma knobs_Duplicate: "\<forall>k \<in> {k. N_knob k \<in> set dup_run}. \<forall>h. hub_knob h (k h)"
  by (auto simp: dup_run_def intro: hub_knob.intros)

theorem hub_delivers_sent_witness:
  "\<exists>N. net_step\<^sup>*\<^sup>* (net_init (\<lambda>_. []) (demo_hub_cfg True) 0) N \<and> count_list (nt_got N) (''b'', demo_msg) = 2 \<and>
     count_list (nt_got N) (''c'', demo_msg) \<le> 0"
proof -
  obtain N where N: "net_run dup_run (net_init (\<lambda>_. []) (demo_hub_cfg True) 0) = Some N"
      "nt_got N = [(''b'', demo_msg), (''b'', demo_msg)]"
    using dup_run_ok by blast
  have r: "net_step\<^sup>*\<^sup>* (net_init (\<lambda>_. []) (demo_hub_cfg True) 0) N" by (rule net_run_steps [OF N(1) knobs_Duplicate])
  have "m_To demo_msg = ''b''" by (simp add: demo_msg_def)
  then show ?thesis using r N(2) hub_delivers_sent [OF r, of "''c''" demo_msg] by (intro exI [of _ N]) simp
qed

text \<open>A queue with two due messages and a later one.\<close>

definition full_run :: "net_op list" where
  "full_run = [N_connect ''b'', N_send ''a'' demo_msg, N_send ''c'' demo_msg, N_knob (Delay 9 9), N_send ''a'' demo_msg]"

definition demo_full_hub :: hub where
  "demo_full_hub = nt_hub (the (net_run full_run (net_init (\<lambda>_. []) (demo_hub_cfg True) 0)))"

lemma demo_full_hub_eq:
  "hb_queue demo_full_hub =
    [\<lparr>pd_deliverAt = 0, pd_seq = 1, pd_from = ''a'', pd_to = ''b'', pd_msg = demo_msg, pd_idx = 0\<rparr>,
     \<lparr>pd_deliverAt = 0, pd_seq = 2, pd_from = ''c'', pd_to = ''b'', pd_msg = demo_msg, pd_idx = 1\<rparr>,
     \<lparr>pd_deliverAt = 9, pd_seq = 3, pd_from = ''a'', pd_to = ''b'', pd_msg = demo_msg, pd_idx = 2\<rparr>]"
  "hb_nodes demo_full_hub = [(''b'', [])]" "hb_sortedNodes demo_full_hub = [''b'']" "hb_done demo_full_hub = False"
  "hc_InboundCap (hb_cfg demo_full_hub) = 256" "ch_reorderOn (hb_chaos demo_full_hub) = False"
  by (simp_all add: demo_full_hub_def full_run_def net_defs demo_msg_def)

lemma full_run_reach:
  obtains N where "net_step\<^sup>*\<^sup>* (net_init (\<lambda>_. []) (demo_hub_cfg True) 0) N" "nt_hub N = demo_full_hub" "nt_disp N = Exited"
proof -
  have "\<exists>N. net_run full_run (net_init (\<lambda>_. []) (demo_hub_cfg True) 0) = Some N \<and> nt_disp N = Exited"
    by (simp add: full_run_def net_defs demo_msg_def)
  then obtain N where N: "net_run full_run (net_init (\<lambda>_. []) (demo_hub_cfg True) 0) = Some N" "nt_disp N = Exited" by blast
  have "\<forall>k \<in> {k. N_knob k \<in> set full_run}. \<forall>h. hub_knob h (k h)" by (auto simp: full_run_def intro: hub_knob.intros)
  from net_run_steps [OF N(1) this] N show thesis by (intro that [of N]) (simp_all add: demo_full_hub_def)
qed

lemma demo_full_hub_ok: "hub_ok demo_full_hub"
  by (rule full_run_reach) (auto simp: net_inv_def dest: net_reachable_inv)

theorem DrainDueSync_delivers_witness:
  "\<exists>h'. DrainDueSync 5 (\<lambda>_. False) demo_full_hub = Some h' \<and> length (inbound_of ''b'' h') = 2 \<and> length (hb_queue h') = 1"
proof -
  have "\<forall>i \<in> set (hb_sortedNodes demo_full_hub). int (length (inbound_of i demo_full_hub) +
      length (filter (\<lambda>p. pd_deliverAt p \<le> 5 \<and> pd_to p = i) (hb_queue demo_full_hub))) \<le> hc_InboundCap (hb_cfg demo_full_hub)"
    by (simp add: demo_full_hub_eq inbound_of_def)
  from DrainDueSync_delivers [OF demo_full_hub_ok _ this, of "\<lambda>_. False"] obtain h' due where
    D: "DrainDueSync 5 (\<lambda>_. False) demo_full_hub = Some h'" "mset (map pval due) = mset (filter (\<lambda>p. pd_deliverAt p \<le> 5) (map pval (hb_queue demo_full_hub)))"
      "mset (map pval (hb_queue h')) = mset (filter (\<lambda>p. 5 < pd_deliverAt p) (map pval (hb_queue demo_full_hub)))"
      "inbound_of ''b'' h' = map pd_msg (filter (\<lambda>p. pd_to p = ''b'') due)"
    by (auto simp: demo_full_hub_eq(2-) inbound_of_def)
  have "length (hb_queue h') = 1" using arg_cong [OF D(3), of size, unfolded size_mset] by (simp add: demo_full_hub_eq)
  moreover have "mset (filter (\<lambda>p. pd_to p = ''b'') (map pval due)) = mset (filter (\<lambda>p. pd_to p = ''b'') (filter (\<lambda>p. pd_deliverAt p \<le> 5) (map pval (hb_queue demo_full_hub))))"
    unfolding mset_filter [of "\<lambda>p. pd_to p = ''b''"] D(2) ..
  from arg_cong [OF this, of size, unfolded size_mset] have "length (filter (\<lambda>p. pd_to p = ''b'') due) = 2"
    by (simp add: demo_full_hub_eq filter_map comp_def)
  ultimately show ?thesis using D(1,4) by simp
qed


text \<open>
  C37: The dispatcher computes the time to the next message, unlocks, and only then arms its timer. If
  the clock advances in between, the timer is late: the clock has reached the delivery time of
  a queued message, no wake-up is pending, and the dispatcher sleeps on.
\<close>

theorem late_timer:
  "\<exists>N. net_step\<^sup>*\<^sup>* (net_init (\<lambda>_. []) (demo_hub_cfg False) 0) N \<and> nt_now N = 10 \<and> nt_disp N = Parked (Some 20) \<and>
     map pd_deliverAt (hb_queue (nt_hub N)) = [10] \<and> \<not> hb_wake (nt_hub N) \<and> nt_signals N = 0"
proof -
  let ?xs = "[N_connect ''b'', N_knob (Delay 10 10), N_send ''a'' demo_msg, N_signal, N_arm, N_armed, N_wake, N_drain, N_arm, N_clock 10, N_armed]"
  have "\<exists>N. net_run ?xs (net_init (\<lambda>_. []) (demo_hub_cfg False) 0) = Some N \<and> nt_now N = 10 \<and> nt_disp N = Parked (Some 20) \<and>
     map pd_deliverAt (hb_queue (nt_hub N)) = [10] \<and> \<not> hb_wake (nt_hub N) \<and> nt_signals N = 0"
    by (simp add: net_defs demo_msg_def)
  then obtain N where N: "net_run ?xs (net_init (\<lambda>_. []) (demo_hub_cfg False) 0) = Some N" "nt_now N = 10 \<and> nt_disp N = Parked (Some 20) \<and>
     map pd_deliverAt (hb_queue (nt_hub N)) = [10] \<and> \<not> hb_wake (nt_hub N) \<and> nt_signals N = 0"
    by (elim exE conjE) (rule that, assumption, intro conjI)
  have "net_step\<^sup>*\<^sup>* (net_init (\<lambda>_. []) (demo_hub_cfg False) 0) N"
    by (rule net_run_steps [OF N(1)]) (auto intro: hub_knob.intros)
  with N(2) show ?thesis by (intro exI [of _ N] conjI) (elim conjE, assumption)+
qed

end
