(* ===== verification/Spec2Isabelle.thy ===== *)
theory Spec2Isabelle
  imports Raft_System Raft_Anomalies File_Runs Clock_Runs Net_Runs
begin

text \<open>
  A verification library for ToyRaft, an implementation of the Raft consensus algorithm in
  Go (\<^verbatim>\<open>src/pkg/raft\<close>) with its stores (\<^verbatim>\<open>src/pkg/storage\<close>) and the programs around it.

  \<^bold>\<open>The program.\<close> A server is a public node (\<^verbatim>\<open>node_public.go\<close>) around a consensus core
  (\<^verbatim>\<open>node.go\<close>, \<^verbatim>\<open>step.go\<close>, \<^verbatim>\<open>follower.go\<close>, \<^verbatim>\<open>candidate.go\<close>, \<^verbatim>\<open>leader.go\<close>, \<^verbatim>\<open>append_entries.go\<close>). The
  core is a state machine under one mutex: it takes ticks, messages and proposals, writes
  its log through to a store, and collects what has to be persisted and sent in a
  \<^verbatim>\<open>Ready\<close>. A driver goroutine (\<^verbatim>\<open>driver.go\<close>) persists and sends each \<^verbatim>\<open>Ready\<close> and hands committed
  entries to an applier goroutine (\<^verbatim>\<open>apply.go\<close>), which calls the client's state machine and
  answers the waiting proposers. The store is an interface with an in-RAM and a durable
  implementation; the durable one keeps checksummed records in segment files.

  \<^bold>\<open>Conventions.\<close> A Go panic is \<open>None\<close>, an error is a value of \<open>goerr\<close> on the left of a sum, a
  Go map is an association list, \<^verbatim>\<open>uint64\<close> is a natural number with the wrap-around of each
  increment written out (\<open>u64_succ\<close>, \<open>u64_add\<close>), \<^verbatim>\<open>int64\<close> durations are integers with
  \<open>s64_wrap\<close> where the code multiplies. A mutex makes each method one step, so methods are
  functions from state to state; goroutines interleave as labelled steps. An interface is a
  table of methods (\<open>storage_ops\<close>, \<open>vfs_ops\<close>) passed to the definitions that call it, and
  its documented contract is a locale.

  \<^bold>\<open>Theories\<close>, in the order of import:
  \<^item> \<open>Toyraft_Prelude\<close>: 64-bit arithmetic, association lists, folds that may panic, order
    statistics of a sorted list, the intersection of majorities.
  \<^item> \<open>Raft_Types\<close>, \<open>Raft_Log\<close>, \<open>Raft_Config\<close>: \<^verbatim>\<open>types.go\<close>, \<^verbatim>\<open>errors.go\<close>, \<^verbatim>\<open>status.go\<close>; \<^verbatim>\<open>log.go\<close>
    and its assertions; \<^verbatim>\<open>config.go\<close> and \<^verbatim>\<open>rng.go\<close>.
  \<^item> \<open>Raft_Storage\<close>: the \<^verbatim>\<open>Storage\<close> interface; the locale \<open>storage_contract\<close> (calls may fail,
    but atomically) and \<open>reliable_storage\<close> (valid calls succeed). \<open>Storage_Memory\<close>:
    \<^verbatim>\<open>memory.go\<close>, interpreted as a reliable store.
  \<^item> \<open>Raft_Node\<close>: the whole core, one definition per method. \<open>Raft_Node_Votes\<close> shows what every
    entry point does to term, vote, tally and outbound buffers; \<open>Raft_Node_Log\<close> what it does
    to the log, the commit index and the store, including exactly when it panics.
  \<^item> \<open>Raft_Driver\<close>: the public node, the driver and the applier. \<open>Raft_Apply\<close>: any
    interleaving of them with callers, failing stores and panicking state machines; entries
    reach the state machine in order, once, and answer their proposers.
  \<^item> \<open>Raft_Cluster\<close>, \<open>Raft_Election\<close>: cores over an arbitrary network with crashes and restarts;
    at most one leader per term. \<open>Raft_System\<close>: whole processes simulate that cluster.
  \<^item> \<open>Raft_Demo\<close>, \<open>Raft_Scenario\<close>, \<open>Raft_Anomalies\<close>: concrete nodes and clusters, the inputs of the
    witnesses, and runs in which the code does what its documentation excludes.
  \<^item> \<open>File_Codec\<close>, \<open>File_Vfs\<close>, \<open>File_Storage\<close>: the record, HardState and snapshot formats with
    their checksum; the file-system seam and \<^verbatim>\<open>osVFS\<close> over a disk with a page cache; every
    method of the durable store. \<open>File_Segments\<close>, \<open>File_Disk\<close>, \<open>File_Refines\<close>: names of segments
    sort by index, a scan finds what was written, and every method keeps an invariant that
    relates fields, files and entries. \<open>File_Durable\<close>: the durable store answers as the in-RAM
    store through calls and power losses, an interrupted append leaves a prefix, saving the
    HardState is atomic under arbitrary faults. \<open>File_Runs\<close>: concrete runs.
  \<^item> \<open>Clock_Heap\<close>, \<open>Clock_Fake\<close>, \<open>Clock_Runs\<close>: \<^verbatim>\<open>container/heap\<close> behind the locale
    \<open>heap_interface\<close>; the fake clock of \<^verbatim>\<open>internal/clock\<close> with its timers and tickers,
    which fire in deadline order and never after \<^verbatim>\<open>Stop\<close>.
  \<^item> \<open>Net_Chaos\<close>, \<open>Net_Hub\<close>, \<open>Net_Dispatch\<close>, \<open>Net_Runs\<close>: the in-process network
    (\<^verbatim>\<open>transport/inproc\<close>): its seeded randomness, its queue and knobs, its dispatcher
    goroutine. What is delivered was sent, a partition cuts, everything due is delivered.

  \<^bold>\<open>Bounds.\<close> Log indices stay below \<open>2 ^ 64 - 1\<close> (\<open>u64_size\<close>), the range in which the code's
  increments do not wrap; the durable store needs indices below \<open>10 ^ 16\<close>, the sixteen
  digits of a segment name, and records below four gigabytes, the range of their length
  field. Loops that are not structural have a termination proof (\<open>drainLoop\<close>, \<open>scanLoop\<close>). The
  loop of the fake clock's \<^verbatim>\<open>Advance\<close> may run forever (a ticker whose period is not positive),
  so \<open>advanceLoop\<close> is a partial function, and that it returns is a theorem. No definition
  uses fuel.

  \<^bold>\<open>Not modelled.\<close> The scheduler, wall-clock timers and sockets themselves: a tick, a delivery
  and a wake of a goroutine are steps that may happen at any time. Log output. Contexts,
  except as the choice of a caller to give up. The HTTP transport, the key-value
  state machine, the daemon and its client, and the test harnesses.
\<close>

end
